(* ===== verification/Hust_Prelude.thy ===== *)
theory Hust_Prelude
  imports Main "HOL-Library.Word"
begin

text \<open>
  Shared vocabulary of the development: bytes and byte strings, the little-endian
  layout of the packed structures that the engine maps from disk, the errno values
  the C++ code returns, singly linked free lists threaded through arrays, and the
  generic facts on lists and arithmetic the component theories rewrite with.
\<close>

unbundle bit_operations_syntax

named_theorems codec_simps \<open>round trips and sizes of the packed layouts\<close>
named_theorems chain_simps \<open>free lists threaded through an array\<close>
named_theorems width_simps \<open>unfolding of the constants that bound a field or a file\<close>

section \<open>Types and error codes\<close>

type_synonym byte = "8 word"
type_synonym bytes = "byte list"
type_synonym errno = int

abbreviation (input) EPERM :: errno where "EPERM \<equiv> 1"
abbreviation (input) ENOENT :: errno where "ENOENT \<equiv> 2"
abbreviation (input) ENOMEM :: errno where "ENOMEM \<equiv> 12"
abbreviation (input) EFAULT :: errno where "EFAULT \<equiv> 14"
abbreviation (input) EEXIST :: errno where "EEXIST \<equiv> 17"
abbreviation (input) EINVAL :: errno where "EINVAL \<equiv> 22"
abbreviation (input) ENOSPC :: errno where "ENOSPC \<equiv> 28"
abbreviation (input) EKEYREJECTED :: errno where "EKEYREJECTED \<equiv> 129"

definition UINT32_MOD :: nat where
  [width_simps]: "UINT32_MOD = 4294967296"

text \<open>Truncation of an assignment to an unsigned field of \<open>w\<close> bits.\<close>

definition trunc :: "nat \<Rightarrow> nat \<Rightarrow> nat" where
  "trunc w v = v mod 2 ^ w"

section \<open>Little-endian integers\<close>

definition byte_of :: "nat \<Rightarrow> byte" where
  "byte_of n = word_of_nat n"

primrec le_bytes :: "nat \<Rightarrow> nat \<Rightarrow> bytes" where
  "le_bytes 0 v = []"
| "le_bytes (Suc n) v = byte_of v # le_bytes n (v div 256)"

primrec le_val :: "bytes \<Rightarrow> nat" where
  "le_val [] = 0"
| "le_val (b # bs) = unat b + 256 * le_val bs"

section \<open>Free lists threaded through an array\<close>

text \<open>
  \<open>chain nxt h xs\<close>: following the link \<open>nxt\<close> from \<open>h\<close> visits exactly the
  entries \<open>xs\<close> and ends at the null link \<open>0\<close>.
\<close>

primrec chain :: "(nat \<Rightarrow> nat) \<Rightarrow> nat \<Rightarrow> nat list \<Rightarrow> bool" where
  "chain nxt h [] = (h = 0)"
| "chain nxt h (x # xs) = (h = x \<and> x \<noteq> 0 \<and> chain nxt (nxt x) xs)"

section \<open>Lemmas\<close>

lemma trunc_id [simp]: "v < 2 ^ w \<Longrightarrow> trunc w v = v"
  by (simp add: trunc_def)

lemma trunc_less [simp]: "trunc w v < 2 ^ w"
  by (simp add: trunc_def)

lemma unat_byte_of [simp]: "unat (byte_of n) = n mod 256"
  by (simp add: byte_of_def unat_of_nat)

lemma byte_of_unat [simp]: "byte_of (unat b) = b"
  by (simp add: byte_of_def)

lemma byte_eqI: "unat (a :: byte) = unat b \<Longrightarrow> a = b"
  by (metis byte_of_unat)

lemma byte_of_mod [simp]: "byte_of (n mod 256) = byte_of n"
  by (rule byte_eqI) simp

lemma radix_inj:
  fixes a :: nat
  assumes eq: "m * a + b = m * c + d" and "b < m" "d < m"
  shows "a = c \<and> b = d"
proof -
  have "(m * a + b) div m = a" "(m * c + d) div m = c"
    using assms(2,3) by simp_all
  then have "a = c" using eq by metis
  with eq show ?thesis by simp
qed

lemma unat_byte_less [simp]: "unat (b :: byte) < 256"
  using unsigned_less [of b] by simp

lemma length_le_bytes [simp, codec_simps]: "length (le_bytes n v) = n"
  by (induction n arbitrary: v) simp_all

lemma le_bytes_numeral:
  "le_bytes (numeral k) v = byte_of v # le_bytes (pred_numeral k) (v div 256)"
  unfolding numeral_eq_Suc [of k] by (rule le_bytes.simps(2))

lemma le_val_zeros [simp]: "le_val (replicate n 0) = 0"
  by (induction n) simp_all

lemma le_val_le_bytes: "le_val (le_bytes n v) = v mod 256 ^ n"
proof (induction n arbitrary: v)
  case (Suc n)
  then show ?case by (simp add: mod_mult2_eq)
qed simp

lemma le_val_bound: "le_val bs < 256 ^ length bs"
proof (induction bs)
  case (Cons b bs)
  have "unat b + 256 * le_val bs < 256 + 256 * le_val bs" by simp
  also have "\<dots> \<le> 256 * 256 ^ length bs" using Cons by simp
  finally show ?case by simp
qed simp

lemma le_bytes_le_val: "le_bytes (length bs) (le_val bs) = bs"
proof (induction bs)
  case (Cons b bs)
  have "(unat b + 256 * le_val bs) div 256 = le_val bs"
    by (simp add: div_add1_eq)
  moreover have "byte_of (unat b + 256 * le_val bs) = b"
    by (rule byte_eqI) simp
  ultimately show ?case using Cons by simp
qed simp

lemma le_bytes_le_val_len [codec_simps]: "length bs = n \<Longrightarrow> le_bytes n (le_val bs) = bs"
  using le_bytes_le_val by blast

lemma le_val_inj:
  assumes "length xs = length ys" and "le_val xs = le_val ys"
  shows "xs = ys"
  using assms le_bytes_le_val by metis

lemma le_val_le_bytes4 [codec_simps]: "v < 4294967296 \<Longrightarrow> le_val (le_bytes 4 v) = v"
  by (simp add: le_val_le_bytes)

lemma le_val_le_bytes2 [codec_simps]: "v < 65536 \<Longrightarrow> le_val (le_bytes 2 v) = v"
  by (simp add: le_val_le_bytes)

lemma chain_Nil [chain_simps]: "chain nxt 0 xs \<longleftrightarrow> xs = []"
  by (cases xs) auto

lemma chain_nonzero [chain_simps]:
  "h \<noteq> 0 \<Longrightarrow> chain nxt h xs \<longleftrightarrow> (\<exists>ys. xs = h # ys \<and> chain nxt (nxt h) ys)"
  by (cases xs) auto

lemma chain_cong:
  "(\<And>x. x \<in> set xs \<Longrightarrow> f x = g x) \<Longrightarrow> chain f h xs = chain g h xs"
  by (induction xs arbitrary: h) auto

lemma chain_upd [chain_simps]: "i \<notin> set xs \<Longrightarrow> chain (nxt(i := j)) h xs = chain nxt h xs"
  by (rule chain_cong) auto

lemma chain_no_null: "chain nxt h xs \<Longrightarrow> 0 \<notin> set xs"
  by (induction xs arbitrary: h) auto

lemma chain_unique: "chain nxt h xs \<Longrightarrow> chain nxt h ys \<Longrightarrow> xs = ys"
proof (induction xs arbitrary: h ys)
  case Nil
  then show ?case by (simp add: chain_simps)
next
  case (Cons x xs)
  then show ?case by (cases ys) auto
qed

end
