(* ===== verification/Bucket.thy ===== *)
theory Bucket
  imports Hust_Prelude
begin

text \<open>
  The bucket layer of the md5db engine (\<open>module/kv/md5db/bucket.h\<close>, \<open>bucket.cpp\<close>):
  the packed identifiers \<open>block_id_t\<close> and \<open>content_id_t\<close>, the eight byte slot
  \<open>bucket_data_item_t\<close> with its 22 bit version field, and one bucket file, an
  array of 1048576 slots addressed by 20 bits of the MD5 digest of the key.

  Bit fields are natural numbers below their width; every store into one truncates.
\<close>

section \<open>Slot types\<close>

abbreviation (input) BUCKET_NO_DATA :: nat where "BUCKET_NO_DATA \<equiv> 0"
abbreviation (input) BUCKET_DIRECT_DATA :: nat where "BUCKET_DIRECT_DATA \<equiv> 1"
abbreviation (input) BUCKET_CONFLICT_DATA :: nat where "BUCKET_CONFLICT_DATA \<equiv> 2"

section \<open>Block identifiers\<close>

record block_id_t =
  m_bucket_id :: nat
  m_data_id :: nat

definition block_id_zero :: block_id_t where
  "block_id_zero = \<lparr>m_bucket_id = 0, m_data_id = 0\<rparr>"

definition block_id_set :: "nat \<Rightarrow> nat \<Rightarrow> block_id_t" where
  "block_id_set bucket_id data_id =
     \<lparr>m_bucket_id = trunc 8 bucket_id, m_data_id = trunc 32 data_id\<rparr>"

definition block_id_wf :: "block_id_t \<Rightarrow> bool" where
  "block_id_wf b \<longleftrightarrow> m_bucket_id b < 256 \<and> m_data_id b < 4294967296"

definition block_id_bytes :: "block_id_t \<Rightarrow> bytes" where
  "block_id_bytes b = le_bytes 1 (m_bucket_id b) @ le_bytes 4 (m_data_id b)"

definition block_id_of_bytes :: "bytes \<Rightarrow> block_id_t" where
  "block_id_of_bytes bs =
     \<lparr>m_bucket_id = le_val (take 1 bs), m_data_id = le_val (take 4 (drop 1 bs))\<rparr>"

section \<open>Bucket slots\<close>

definition BUCKET_DATA_MAX_VERSION :: nat where
  [width_simps]: "BUCKET_DATA_MAX_VERSION = 4194303"

record bucket_data_item_t =
  m_block_id :: block_id_t
  m_type :: nat
  m_ver_h :: nat
  m_ver_l :: nat

definition item_zero :: bucket_data_item_t where
  "item_zero = \<lparr>m_block_id = block_id_zero, m_type = 0, m_ver_h = 0, m_ver_l = 0\<rparr>"

definition set_type :: "nat \<Rightarrow> bucket_data_item_t \<Rightarrow> bucket_data_item_t" where
  "set_type t it = it\<lparr>m_type := trunc 2 t\<rparr>"

definition set_version :: "nat \<Rightarrow> bucket_data_item_t \<Rightarrow> bucket_data_item_t" where
  "set_version v it = it\<lparr>m_ver_h := trunc 6 (v div 64), m_ver_l := v mod 65536\<rparr>"

definition version :: "bucket_data_item_t \<Rightarrow> nat" where
  "version it = m_ver_h it * 16 + m_ver_l it"

definition get_conflict_count :: "bucket_data_item_t \<Rightarrow> nat" where
  "get_conflict_count it = m_ver_h it * 16 + m_ver_l it"

definition set_conflict_count :: "nat \<Rightarrow> bucket_data_item_t \<Rightarrow> bucket_data_item_t" where
  "set_conflict_count v it =
     (if v \<le> BUCKET_DATA_MAX_VERSION then set_version v it else it)"

definition add_conflict_count :: "bucket_data_item_t \<Rightarrow> bool \<times> bucket_data_item_t" where
  "add_conflict_count it =
     (let v = m_ver_h it * 16 + m_ver_l it in
      if v = BUCKET_DATA_MAX_VERSION then (False, it) else (True, set_version (v + 1) it))"

definition dec_conflict_count :: "bucket_data_item_t \<Rightarrow> nat \<times> bucket_data_item_t" where
  "dec_conflict_count it =
     (let v = m_ver_h it * 16 + m_ver_l it;
          v' = (if v > 0 then v - 1 else v)
      in (v', set_version v' it))"

definition item_wf :: "bucket_data_item_t \<Rightarrow> bool" where
  "item_wf it \<longleftrightarrow>
     block_id_wf (m_block_id it) \<and> m_type it < 4 \<and> m_ver_h it < 64 \<and> m_ver_l it < 65536"

text \<open>
  The bytes of the packed structure: \<open>conflict_t::put\<close> hands them to leveldb as they are in
  memory, \<open>conflict_t::get\<close> casts a string that it reads back to the structure, and the free
  list of the conflict files overwrites the first four of them.
\<close>

definition item_bytes :: "bucket_data_item_t \<Rightarrow> bytes" where
  "item_bytes it =
     block_id_bytes (m_block_id it) @ le_bytes 1 (m_type it + 4 * m_ver_h it)
     @ le_bytes 2 (m_ver_l it)"

definition item_of_bytes :: "bytes \<Rightarrow> bucket_data_item_t" where
  "item_of_bytes bs =
     \<lparr>m_block_id = block_id_of_bytes bs,
      m_type = le_val (take 1 (drop 5 bs)) mod 4,
      m_ver_h = le_val (take 1 (drop 5 bs)) div 4,
      m_ver_l = le_val (take 2 (drop 6 bs))\<rparr>"

section \<open>Content identifiers\<close>

record content_id_t =
  m_file_id_h :: nat
  m_cdata_id :: nat
  m_file_id_l :: nat
  m_data_len :: nat

definition content_id_zero :: content_id_t where
  "content_id_zero = \<lparr>m_file_id_h = 0, m_cdata_id = 0, m_file_id_l = 0, m_data_len = 0\<rparr>"

definition content_id_set :: "nat \<Rightarrow> nat \<Rightarrow> nat \<Rightarrow> content_id_t" where
  "content_id_set file_id data_id data_len =
     \<lparr>m_file_id_h = trunc 4 (file_id div 16), m_cdata_id = trunc 28 data_id,
      m_file_id_l = file_id mod 16, m_data_len = trunc 28 data_len\<rparr>"

definition content_file_id :: "content_id_t \<Rightarrow> nat" where
  "content_file_id c = trunc 8 (m_file_id_h c * 16 + m_file_id_l c)"

definition content_data_id :: "content_id_t \<Rightarrow> nat" where
  "content_data_id c = m_cdata_id c"

definition content_data_len :: "content_id_t \<Rightarrow> nat" where
  "content_data_len c = m_data_len c"

definition content_id_eq :: "content_id_t \<Rightarrow> content_id_t \<Rightarrow> bool" where
  "content_id_eq l r \<longleftrightarrow>
     content_file_id l = content_file_id r \<and> content_data_id l = content_data_id r
     \<and> content_data_len l = content_data_len r"

definition content_id_wf :: "content_id_t \<Rightarrow> bool" where
  "content_id_wf c \<longleftrightarrow>
     m_file_id_h c < 16 \<and> m_cdata_id c < 268435456 \<and> m_file_id_l c < 16
     \<and> m_data_len c < 268435456"

section \<open>One bucket file\<close>

text \<open>
  A mapped bucket file: its length in bytes and the slot at every index. The slots
  of a file the code creates are all zero bytes.
\<close>

record bucket_t =
  bk_ptr_len :: nat
  bk_item :: "nat \<Rightarrow> bucket_data_item_t"

definition bucket_item_bytes :: nat where
  "bucket_item_bytes = 8"

definition bucket_item_count :: nat where
  [width_simps]: "bucket_item_count = 1048576"

definition bucket_bytes :: nat where
  "bucket_bytes = bucket_item_count * bucket_item_bytes"

text \<open>
  \<open>bucket_create\<close> takes what \<open>fopen\<close> and \<open>fwrite\<close> report and the file that was there
  (\<open>None\<close> for no file). \<open>fopen_ok\<close> is false when \<open>fopen\<close> fails and also when the buffer of zeros
  cannot be allocated before it: both return false and leave the old file alone. Opening with
  mode \<open>wb\<close> discards the old contents, so that
  what is left is the zero bytes that were written.
\<close>

definition zero_file :: "nat \<Rightarrow> bucket_t" where
  "zero_file len = \<lparr>bk_ptr_len = len, bk_item = (\<lambda>_. item_of_bytes (replicate 8 0))\<rparr>"

definition bucket_create ::
  "bool \<Rightarrow> nat \<Rightarrow> bucket_t option \<Rightarrow> bool \<times> bucket_t option" where
  "bucket_create fopen_ok fwritten old =
     (if \<not> fopen_ok then (False, old)
      else if bucket_bytes \<noteq> fwritten then (False, Some (zero_file fwritten))
      else (True, Some (zero_file fwritten)))"

definition key_to_bytes3 :: "bytes \<Rightarrow> bytes" where
  "key_to_bytes3 md5 =
     [drop_bit 4 (md5 ! 1 AND 0xF0),
      push_bit 4 (md5 ! 1 AND 0x0F) OR drop_bit 4 (md5 ! 2 AND 0xF0),
      push_bit 4 (md5 ! 2 AND 0x0F) OR drop_bit 4 (md5 ! 3 AND 0xF0)]"

definition key_to_item :: "bytes \<Rightarrow> nat" where
  "key_to_item md5 =
     (let p2 = drop_bit 4 (md5 ! 1 AND 0xF0);
          p1 = push_bit 4 (md5 ! 1 AND 0x0F) OR drop_bit 4 (md5 ! 2 AND 0xF0);
          p0 = push_bit 4 (md5 ! 2 AND 0x0F) OR drop_bit 4 (md5 ! 3 AND 0xF0)
      in le_val [p0, p1, p2, 0])"

text \<open>The self test that \<open>open_exist\<close> runs on a fixed digest, then the size test.\<close>

definition open_exist_self_test :: bool where
  "open_exist_self_test \<longleftrightarrow>
     (let md5 = [0xF1, 0x23, 0x45, 0x63] :: bytes;
          p2 = drop_bit 4 (md5 ! 1 AND 0xF0);
          p1 = push_bit 4 (md5 ! 1 AND 0x0F) OR drop_bit 4 (md5 ! 2 AND 0xF0);
          p0 = push_bit 4 (md5 ! 2 AND 0x0F) OR drop_bit 4 (md5 ! 3 AND 0xF0)
      in le_bytes 4 0x023456 = [0x56, 0x34, 0x02, 0x00]
         \<and> p0 = 0x56 \<and> p1 = 0x34 \<and> p2 = 0x02)"

definition bucket_open_exist :: "bucket_t option \<Rightarrow> bucket_t option" where
  "bucket_open_exist fmap_open =
     (if \<not> open_exist_self_test then None
      else case fmap_open of
             None \<Rightarrow> None
           | Some bk \<Rightarrow> if bk_ptr_len bk \<noteq> bucket_bytes then None else Some bk)"

text \<open>
  \<open>find\<close> returns the errno and the index of the slot the result pointer designates
  (\<open>None\<close> for a null pointer).
\<close>

definition bucket_find :: "bucket_t \<Rightarrow> bytes \<Rightarrow> errno \<times> nat option" where
  "bucket_find bk inner_key =
     (let index = key_to_item inner_key in
      if index \<ge> bucket_item_count then (EFAULT, None)
      else let t = m_type (bk_item bk index) in
           if t = BUCKET_DIRECT_DATA then (0, Some index)
           else if t = BUCKET_CONFLICT_DATA then (0, Some index)
           else if t = BUCKET_NO_DATA then (0, Some index)
           else (EFAULT, Some index))"

definition bucket_write :: "nat \<Rightarrow> bucket_data_item_t \<Rightarrow> bucket_t \<Rightarrow> bucket_t" where
  "bucket_write i it bk = bk\<lparr>bk_item := (bk_item bk)(i := it)\<rparr>"

section \<open>The array of 256 buckets\<close>

text \<open>
  \<open>bucket_array_t\<close>: the directory is a function from the bucket number to its file.
  The functions take the outcomes of \<open>fmap_open\<close>, \<open>fopen\<close> and \<open>fwrite\<close> per bucket.
\<close>

type_synonym bucket_files = "nat \<Rightarrow> bucket_t option"

definition BUCKET_COUNT :: nat where
  [width_simps]: "BUCKET_COUNT = 256"

primrec open_exist_loop ::
  "(nat \<Rightarrow> bool) \<Rightarrow> bucket_files \<Rightarrow> nat list \<Rightarrow> (nat \<Rightarrow> bucket_t) \<Rightarrow> (nat \<Rightarrow> bucket_t) option" where
  "open_exist_loop map_ok files [] m_buckets = Some m_buckets"
| "open_exist_loop map_ok files (i # is) m_buckets =
     (case files i of
        None \<Rightarrow> None
      | Some f \<Rightarrow>
          (case bucket_open_exist (if map_ok i then Some f else None) of
             None \<Rightarrow> None
           | Some bk \<Rightarrow> open_exist_loop map_ok files is (m_buckets(i := bk))))"

definition open_exist_buckets ::
  "bytes \<Rightarrow> (nat \<Rightarrow> bool) \<Rightarrow> bucket_files \<Rightarrow> (nat \<Rightarrow> bucket_t) option" where
  "open_exist_buckets path map_ok files =
     (if path = [] then None
      else open_exist_loop map_ok files [0..<BUCKET_COUNT] (\<lambda>_. zero_file 0))"

primrec create_loop ::
  "(nat \<Rightarrow> bool) \<Rightarrow> (nat \<Rightarrow> nat) \<Rightarrow> nat list \<Rightarrow> bucket_files \<Rightarrow> bool \<times> bucket_files" where
  "create_loop fopen_ok fwritten [] files = (True, files)"
| "create_loop fopen_ok fwritten (i # is) files =
     (let (ok, f) = bucket_create (fopen_ok i) (fwritten i) (files i);
          files' = files(i := f)
      in if \<not> ok then (False, files') else create_loop fopen_ok fwritten is files')"

definition create_buckets ::
  "bytes \<Rightarrow> (nat \<Rightarrow> bool) \<Rightarrow> (nat \<Rightarrow> nat) \<Rightarrow> bucket_files \<Rightarrow> bool \<times> bucket_files" where
  "create_buckets path fopen_ok fwritten files =
     (if path = [] then (False, files)
      else create_loop fopen_ok fwritten [0..<BUCKET_COUNT] files)"

definition bucket_array_open ::
  "bytes \<Rightarrow> (nat \<Rightarrow> bool) \<Rightarrow> (nat \<Rightarrow> bool) \<Rightarrow> (nat \<Rightarrow> nat) \<Rightarrow> (nat \<Rightarrow> bool) \<Rightarrow> bucket_files
   \<Rightarrow> (nat \<Rightarrow> bucket_t) option \<times> bucket_files" where
  "bucket_array_open path map_ok fopen_ok fwritten map_ok' files =
     (case open_exist_buckets path map_ok files of
        Some bs \<Rightarrow> (Some bs, files)
      | None \<Rightarrow>
          (let (ok, files') = create_buckets path fopen_ok fwritten files in
           if \<not> ok then (None, files')
           else (open_exist_buckets path map_ok' files', files')))"

definition get_bucket :: "(nat \<Rightarrow> bucket_t) \<Rightarrow> bytes \<Rightarrow> bucket_t" where
  "get_bucket m_buckets inner_key = m_buckets (unat (inner_key ! 0))"

section \<open>Lemmas\<close>

lemma and15: "(n::nat) AND 15 = n mod 16"
  using take_bit_eq_mask [of 4 n] by (simp add: take_bit_eq_mod mask_eq_exp_minus_1)

lemma hi_nibble: "unat (drop_bit 4 (b AND 0xF0) :: byte) = unat b div 16"
proof -
  have "drop_bit 4 (unat b AND 240) = drop_bit 4 (unat b) AND (15::nat)"
    by (simp add: drop_bit_and)
  also have "\<dots> = unat b div 16"
    using unat_byte_less [of b] by (simp add: and15 drop_bit_eq_div less_mult_imp_div_less)
  finally show ?thesis by (simp add: unsigned_drop_bit_eq unsigned_and_eq take_bit_eq_mod)
qed

lemma lo_nibble: "unat (b AND 0x0F :: byte) = unat b mod 16"
  by (simp add: unsigned_and_eq and15)

lemma nib_or: 
  assumes "x < 16" shows "(16 * y) OR x = 16 * y + (x::nat)"
proof -
  have "bit x n \<Longrightarrow> n < 4" for n
    using assms bit_take_bit_iff [of 4 x n] by (simp add: take_bit_eq_mod)
  then have "push_bit 4 y AND x = 0"
    by (auto simp: bit_eq_iff bit_simps dest: leD)
  then have "16 * y AND x = 0"
    by (simp add: push_bit_eq_mult mult.commute)
  then show ?thesis by (simp add: disjunctive_add_eq_or)
qed

lemma mid_nibbles: "unat (push_bit 4 (b AND 0x0F) OR drop_bit 4 (c AND 0xF0) :: byte)
   = 16 * (unat b mod 16) + unat c div 16"
proof -
  have "unat (push_bit 4 (b AND 0x0F)) = 16 * (unat b mod 16)"
    by (simp only: unsigned_push_bit_eq lo_nibble) (simp add: take_bit_eq_mod push_bit_eq_mult)
  moreover have "unat c div 16 < 16" using unat_byte_less [of c] by (simp add: less_mult_imp_div_less)
  ultimately show ?thesis
    by (simp only: unsigned_or_eq hi_nibble nib_or)
qed

lemma nibble_sum:
  fixes a b c ra qa rb qb :: nat
  assumes "a = ra + 16 * qa" "b = rb + 16 * qb"
  shows "16 * rb + c + 256 * (16 * ra + qb) + 65536 * qa = c + 16 * (b + 256 * a)"
  unfolding assms by simp

lemma key_to_item_sum:
  "key_to_item k = unat (k ! 3) div 16 + 16 * (unat (k ! 2) + 256 * unat (k ! 1))"
proof -
  let ?a = "unat (k ! 1)" and ?b = "unat (k ! 2)" and ?c = "unat (k ! 3)"
  have "key_to_item k = 16 * (?b mod 16) + ?c div 16
      + 256 * (16 * (?a mod 16) + ?b div 16) + 65536 * (?a div 16)"
    by (simp only: key_to_item_def Let_def hi_nibble mid_nibbles le_val.simps) simp
  also have "\<dots> = ?c div 16 + 16 * (?b + 256 * ?a)"
    by (rule nibble_sum) (simp_all only: mod_mult_div_eq)
  finally show ?thesis .
qed

lemma key_to_item_eq:
  "key_to_item k = (65536 * unat (k ! 1) + 256 * unat (k ! 2) + unat (k ! 3)) div 16"
proof -
  have "65536 * unat (k ! 1) + 256 * unat (k ! 2) + unat (k ! 3)
      = unat (k ! 3) + 16 * (16 * (unat (k ! 2) + 256 * unat (k ! 1)))"
    by simp
  then show ?thesis by (simp only: key_to_item_sum div_mult_self2)
qed

lemma key_to_item_less: "key_to_item k < bucket_item_count"
proof -
  have less: "n + 16 * (b + 256 * a) < 1048576" if "n < 16" "a < 256" "b < 256" for n a b :: nat
    using that by simp
  show ?thesis
    unfolding key_to_item_sum width_simps
    by (rule less) (simp_all add: less_mult_imp_div_less)
qed

lemma key_to_bytes3_item: "le_val (rev (key_to_bytes3 k)) = key_to_item k"
  by (simp add: key_to_bytes3_def key_to_item_def Let_def)

lemma slot_suffix_inj:
  assumes "length j = 16" "length k = 16" "j ! 0 = k ! 0"
    and slot: "key_to_item j = key_to_item k" and suffix: "drop 3 j = drop 3 k"
  shows "j = k"
proof -
  have tail: "j ! i = k ! i" if "3 \<le> i" "i < 16" for i
    using suffix that assms(1,2) nth_drop [of 3 j "i - 3"] nth_drop [of 3 k "i - 3"] by simp
  have "256 * unat (j ! 1) + unat (j ! 2) = 256 * unat (k ! 1) + unat (k ! 2)"
    using slot tail [of 3] by (simp add: key_to_item_sum)
  then have "unat (j ! 1) = unat (k ! 1) \<and> unat (j ! 2) = unat (k ! 2)"
    by (rule radix_inj) simp_all
  then have "j ! 1 = k ! 1" "j ! 2 = k ! 2" by (simp_all add: byte_eqI)
  moreover have "i = 0 \<or> i = 1 \<or> i = 2 \<or> 3 \<le> i" for i :: nat by arith
  ultimately show ?thesis
    using assms tail by (intro nth_equalityI) metis+
qed

lemma length_block_id_bytes [codec_simps]: "length (block_id_bytes b) = 5"
  by (simp add: block_id_bytes_def)

lemma block_id_of_bytes_app [codec_simps]:
  "block_id_wf b \<Longrightarrow> block_id_of_bytes (block_id_bytes b @ xs) = b"
  by (simp add: block_id_of_bytes_def block_id_bytes_def block_id_wf_def le_val_le_bytes)

lemma item_roundtrip:
  assumes "item_wf it"
  shows "item_of_bytes (item_bytes it) = it" and "length (item_bytes it) = 8"
proof -
  have n: "m_type it + 4 * m_ver_h it < 256" using assms by (simp add: item_wf_def)
  have "item_of_bytes (item_bytes it) = \<lparr>m_block_id = m_block_id it,
      m_type = (m_type it + 4 * m_ver_h it) mod 4, m_ver_h = (m_type it + 4 * m_ver_h it) div 4,
      m_ver_l = m_ver_l it\<rparr>"
    using assms n
    by (simp add: item_of_bytes_def item_bytes_def item_wf_def codec_simps le_val_le_bytes)
  then show "item_of_bytes (item_bytes it) = it"
    using assms by (simp add: item_wf_def)
  show "length (item_bytes it) = 8" by (simp add: item_bytes_def codec_simps)
qed

lemma item_of_bytes_wf:
  assumes "length bs = 8"
  shows "item_wf (item_of_bytes bs)" and "item_bytes (item_of_bytes bs) = bs"
proof -
  let ?t = "take 1 (drop 5 bs)"
  have bound: "le_val xs < 256 ^ length xs" for xs by (rule le_val_bound)
  have "le_val ?t div 4 < 64" using bound [of ?t] assms by (simp add: less_mult_imp_div_less)
  then show "item_wf (item_of_bytes bs)"
    using bound [of "take 1 bs"] bound [of "take 4 (drop 1 bs)"] bound [of "take 2 (drop 6 bs)"] assms
    by (simp add: item_wf_def item_of_bytes_def block_id_wf_def block_id_of_bytes_def)
  have "item_bytes (item_of_bytes bs)
      = take 1 bs @ take 4 (drop 1 bs) @ ?t @ take 2 (drop 6 bs)"
    using assms by (simp add: item_of_bytes_def item_bytes_def block_id_bytes_def
        block_id_of_bytes_def codec_simps mod_mult_div_eq del: le_bytes.simps One_nat_def)
  also have "\<dots> = bs"
    using assms by (intro nth_equalityI) (auto simp: nth_append min_def intro!: arg_cong [where f = "(!) bs"])
  finally show "item_bytes (item_of_bytes bs) = bs" .
qed

lemma content_id_set_get:
  assumes "f < 256" "d < 268435456" "n < 268435456"
  shows "content_file_id (content_id_set f d n) = f"
    and "content_data_id (content_id_set f d n) = d"
    and "content_data_len (content_id_set f d n) = n"
    and "content_id_wf (content_id_set f d n)"
proof -
  have "f div 16 < 16" using assms by linarith
  then show "content_file_id (content_id_set f d n) = f"
    and "content_data_id (content_id_set f d n) = d"
    and "content_data_len (content_id_set f d n) = n"
    and "content_id_wf (content_id_set f d n)"
    using assms by (simp_all add: content_id_set_def content_file_id_def content_data_id_def
        content_data_len_def content_id_wf_def trunc_def)
qed

lemma content_id_eq_iff:
  assumes "content_id_wf c" "content_id_wf d"
  shows "content_id_eq c d \<longleftrightarrow> c = d"
proof -
  have "m_file_id_h c * 16 + m_file_id_l c < 256" "m_file_id_h d * 16 + m_file_id_l d < 256"
    using assms by (auto simp: content_id_wf_def)
  then have "content_file_id c = content_file_id d \<longleftrightarrow>
      m_file_id_h c = m_file_id_h d \<and> m_file_id_l c = m_file_id_l d"
    using assms radix_inj [of 16 "m_file_id_h c" "m_file_id_l c" "m_file_id_h d" "m_file_id_l d"]
    by (auto simp: content_file_id_def content_id_wf_def trunc_def mult.commute)
  then show ?thesis
    by (auto simp: content_id_eq_def content_data_id_def content_data_len_def)
qed

lemma version_set_version:
  "version (set_version v it) = (v div 64 mod 64) * 16 + v mod 65536"
  by (simp add: version_def set_version_def trunc_def)

lemma version_set_version_low [simp]: "v < 64 \<Longrightarrow> version (set_version v it) = v"
  by (simp add: version_set_version)

lemma set_version_frame [simp]:
  "m_block_id (set_version v it) = m_block_id it" "m_type (set_version v it) = m_type it"
  by (simp_all add: set_version_def)

lemma set_type_frame [simp]:
  "m_block_id (set_type t it) = m_block_id it" "version (set_type t it) = version it"
  by (simp_all add: set_type_def version_def)

lemma type_set_type [simp]: "t < 4 \<Longrightarrow> m_type (set_type t it) = t"
  by (simp add: set_type_def trunc_def)

lemma set_version_wf: "item_wf it \<Longrightarrow> item_wf (set_version v it)"
  by (simp add: item_wf_def set_version_def trunc_def)

lemma set_type_wf: "item_wf it \<Longrightarrow> item_wf (set_type v it)"
  by (simp add: item_wf_def set_type_def trunc_def)

lemma block_id_set_wf: "block_id_wf (block_id_set b d)"
  by (simp add: block_id_wf_def block_id_set_def trunc_def)

lemma item_zero_bytes: "item_of_bytes (replicate 8 0) = item_zero"
  by (simp add: item_of_bytes_def item_zero_def block_id_of_bytes_def block_id_zero_def)

lemma item_zero_simps [simp]:
  "m_type item_zero = 0" "item_wf item_zero" "version item_zero = 0"
  by (simp_all add: item_zero_def item_wf_def block_id_wf_def block_id_zero_def version_def)

lemma self_test_passes: open_exist_self_test
  by (simp add: open_exist_self_test_def byte_of_def le_bytes_numeral)

lemma open_exist_loop_fails:
  "i \<in> set is \<Longrightarrow> files i = None \<or> \<not> map_ok i \<Longrightarrow> open_exist_loop map_ok files is bs = None"
  by (induction "is" arbitrary: bs)
    (auto simp: bucket_open_exist_def split: option.splits)

lemma create_loop_ok:
  "create_loop fopen_ok fwritten is files = (True, files') \<Longrightarrow>
   files' j = (if j \<in> set is then Some (zero_file bucket_bytes) else files j)"
proof (induction "is" arbitrary: files)
  case (Cons i "is")
  then show ?case
    by (auto simp: bucket_create_def Let_def split: if_splits prod.splits)
qed simp

lemma open_exist_loop_result:
  "open_exist_loop map_ok files is bs = Some bs' \<Longrightarrow>
   Some (bs' j) = (if j \<in> set is then files j else Some (bs j))"
proof (induction "is" arbitrary: bs)
  case (Cons i "is")
  show ?case
    using Cons.prems
    by (auto simp: bucket_open_exist_def split: option.splits if_splits dest!: Cons.IH)
qed simp

lemma create_loop_runs:
  "create_loop (\<lambda>_. True) (\<lambda>_. bucket_bytes) is files
   = (True, \<lambda>j. if j \<in> set is then Some (zero_file bucket_bytes) else files j)"
  by (induction "is" arbitrary: files) (auto simp: bucket_create_def fun_eq_iff)

lemma open_exist_loop_runs:
  "(\<And>i. i \<in> set is \<Longrightarrow> files i = Some (zero_file bucket_bytes)) \<Longrightarrow>
   \<exists>bs'. open_exist_loop (\<lambda>_. True) files is bs = Some bs'"
  by (induction "is" arbitrary: bs)
    (auto simp: bucket_open_exist_def self_test_passes zero_file_def)

section \<open>Properties\<close>

text \<open>C8. The slot address and the stored suffix identify the key: every 16 byte digest
  addresses a slot inside its bucket, and two digests that agree on the bucket number, on
  the slot and on the 13 bytes \<open>fullkey_t::compare\<close> looks at are the same digest. No
  information of the digest is lost between the address and the 21 byte key record.\<close>

theorem bucket_slot_identifies_key:
  assumes "length j = 16" and "length k = 16"
  shows "key_to_item k < bucket_item_count
    \<and> (j ! 0 = k ! 0 \<and> key_to_item j = key_to_item k \<and> drop 3 j = drop 3 k \<longleftrightarrow> j = k)"
  using assms key_to_item_less slot_suffix_inj [of j k] by auto

theorem bucket_slot_identifies_key_witness:
  "let k = map byte_of [1..<17]; j = map byte_of [2..<18] in
   key_to_item k < bucket_item_count
   \<and> (j ! 0 = k ! 0 \<and> key_to_item j = key_to_item k \<and> drop 3 j = drop 3 k \<longleftrightarrow> j = k)"
  unfolding Let_def by (rule bucket_slot_identifies_key) simp_all

text \<open>C29. What a version reads back as. \<open>set_version\<close> splits at 64 and 65536 while
  \<open>version\<close> recombines with factor 16, so a stored version is read back unchanged only
  below 65536 and only when its bits 6 to 11 are zero; in particular every version from 64
  to 4095 and every one from 65536 to the declared maximum 4194303 reads back wrong.\<close>

theorem version_readback:
  "version (set_version v it) = v \<longleftrightarrow> v < 65536 \<and> v div 64 mod 64 = 0"
proof (cases "v < 65536")
  case True
  then show ?thesis by (auto simp: version_set_version)
next
  case False
  have "v div 64 mod 64 * 16 \<le> 63 * 16"
    by (intro mult_right_mono) (simp_all add: less_Suc_eq_le [symmetric])
  moreover have "v mod 65536 < 65536" by simp
  moreover have "v mod 65536 + 65536 \<le> v"
    using False mod_less_eq_dividend [of "v - 65536" 65536] by (simp add: le_mod_geq)
  ultimately have "version (set_version v it) < v" by (simp add: version_set_version)
  with False show ?thesis by simp
qed

text \<open>C35. Opening the bucket directory when one of the 256 files is missing, or cannot be
  mapped, recreates all of them: whatever the other 255 files held, after a successful
  \<open>open\<close> every slot of every bucket is the empty slot.\<close>

theorem bucket_array_open_recreates_all:
  assumes "i < BUCKET_COUNT" and "files i = None \<or> \<not> map_ok i"
    and "bucket_array_open path map_ok fopen_ok fwritten map_ok' files = (Some bs, files')"
    and "j < BUCKET_COUNT"
  shows "bk_item (bs j) n = item_zero"
proof -
  have "open_exist_buckets path map_ok files = None"
    using assms(1,2) by (simp add: open_exist_buckets_def open_exist_loop_fails)
  then have c: "create_buckets path fopen_ok fwritten files = (True, files')"
    and o: "open_exist_buckets path map_ok' files' = Some bs"
    using assms(3) by (auto simp: bucket_array_open_def split: prod.splits if_splits)
  have "files' j = Some (zero_file bucket_bytes)"
    using c assms(4) create_loop_ok [of _ _ _ _ files' j]
    by (auto simp: create_buckets_def split: if_splits)
  moreover have "Some (bs j) = files' j"
    using o assms(4) open_exist_loop_result [of _ _ _ _ bs j]
    by (auto simp: open_exist_buckets_def split: if_splits)
  ultimately show ?thesis by (simp add: zero_file_def item_zero_bytes)
qed

theorem bucket_array_open_recreates_all_witness:
  "let full = \<lparr>bk_ptr_len = bucket_bytes, bk_item = (\<lambda>_. set_type 1 item_zero)\<rparr>;
       files = (\<lambda>i. if i = 5 then None else Some full) in
   \<exists>bs files'. bucket_array_open [47] (\<lambda>_. True) (\<lambda>_. True) (\<lambda>_. bucket_bytes) (\<lambda>_. True) files
     = (Some bs, files') \<and> bk_item (bs 7) 3 = item_zero"
proof -
  let ?full = "\<lparr>bk_ptr_len = bucket_bytes, bk_item = (\<lambda>_. set_type 1 item_zero)\<rparr>"
  let ?files = "\<lambda>i. if i = (5::nat) then None else Some ?full"
  let ?files' = "\<lambda>j. if j < BUCKET_COUNT then Some (zero_file bucket_bytes) else ?files j"
  have "open_exist_buckets [47] (\<lambda>_. True) ?files = None"
    by (simp add: open_exist_buckets_def width_simps open_exist_loop_fails [of 5])
  moreover have "create_buckets [47] (\<lambda>_. True) (\<lambda>_. bucket_bytes) ?files = (True, ?files')"
    by (simp add: create_buckets_def create_loop_runs)
  moreover obtain bs where "open_exist_buckets [47] (\<lambda>_. True) ?files' = Some bs"
    using open_exist_loop_runs [of "[0..<BUCKET_COUNT]" ?files'] by (auto simp: open_exist_buckets_def)
  ultimately have run: "bucket_array_open [47] (\<lambda>_. True) (\<lambda>_. True) (\<lambda>_. bucket_bytes)
      (\<lambda>_. True) ?files = (Some bs, ?files')"
    by (simp add: bucket_array_open_def)
  have "bk_item (bs 7) 3 = item_zero"
    by (rule bucket_array_open_recreates_all [of 5, OF _ _ run]) (simp_all add: width_simps)
  with run show ?thesis unfolding Let_def by blast
qed

end
