(* ===== verification/Bloom_Filter.thy ===== *)
theory Bloom_Filter
  imports Bucket
begin

text \<open>
  The filter in front of a leveldb instance (\<open>module/kv/leveldb/bloom_filter.cpp\<close>): a
  mapped bit array with one bit per prefix of the MD5 digest, 24 bits for the small
  variant and 28 for the large one.
\<close>

unbundle bit_operations_syntax

section \<open>Bits of a byte array\<close>

datatype md5_bloom_mode_t = MD5_BLOOM_DISABLED | MD5_BLOOM_LARGE | MD5_BLOOM_SMALL

definition SMALL_BITS :: nat where
  "SMALL_BITS = 256 * 256 * 256"

definition SMALL_BYTES :: nat where
  "SMALL_BYTES = SMALL_BITS div 8"

definition LARGE_BITS :: nat where
  "LARGE_BITS = 256 * 256 * 256 * 16"

definition LARGE_BYTES :: nat where
  "LARGE_BYTES = LARGE_BITS div 8"

definition BIT_MASK_MAP :: "byte list" where
  "BIT_MASK_MAP = [0x80, 0x40, 0x20, 0x10, 0x08, 0x04, 0x02, 0x01]"

definition byte_set_bit :: "byte \<Rightarrow> nat \<Rightarrow> bool \<Rightarrow> byte" where
  "byte_set_bit src witch_bit v =
     (if \<not> v then src AND NOT (BIT_MASK_MAP ! witch_bit) else src OR (BIT_MASK_MAP ! witch_bit))"

definition byte_get_bit :: "byte \<Rightarrow> nat \<Rightarrow> bool" where
  "byte_get_bit src witch_bit \<longleftrightarrow> \<not> \<not> (src AND (BIT_MASK_MAP ! witch_bit) \<noteq> 0)"

definition binary_set_bit :: "(nat \<Rightarrow> byte) \<Rightarrow> nat \<Rightarrow> bool \<Rightarrow> (nat \<Rightarrow> byte)" where
  "binary_set_bit src witch_bit v =
     (let byte_off = witch_bit div 8 in
      src(byte_off := byte_set_bit (src byte_off) (witch_bit mod 8) v))"

definition binary_get_bit :: "(nat \<Rightarrow> byte) \<Rightarrow> nat \<Rightarrow> bool" where
  "binary_get_bit src witch_bit = byte_get_bit (src (witch_bit div 8)) (witch_bit mod 8)"

section \<open>The filter\<close>

text \<open>A mapped filter file: its length, its bytes, and the variant it was opened as.\<close>

record md5_bloom_filter_t =
  bf_ptr_len :: nat
  bf_data :: "nat \<Rightarrow> byte"
  bf_type :: md5_bloom_mode_t

definition large_bit_id :: "bytes \<Rightarrow> nat" where
  "large_bit_id md5 =
     (let p3 = drop_bit 4 (md5 ! 0 AND 0xF0);
          p2 = push_bit 4 (md5 ! 0 AND 0x0F) OR drop_bit 4 (md5 ! 1 AND 0xF0);
          p1 = push_bit 4 (md5 ! 1 AND 0x0F) OR drop_bit 4 (md5 ! 2 AND 0xF0);
          p0 = push_bit 4 (md5 ! 2 AND 0x0F) OR drop_bit 4 (md5 ! 3 AND 0xF0)
      in le_val [p0, p1, p2, p3])"

definition small_bit_id :: "bytes \<Rightarrow> nat" where
  "small_bit_id md5 = le_val [md5 ! 2, md5 ! 1, md5 ! 0, 0]"

text \<open>The byte order test of \<open>open\<close>, on a fixed digest.\<close>

definition bloom_self_test :: bool where
  "bloom_self_test \<longleftrightarrow>
     (let md5 = [0xF1, 0x23, 0x45, 0x63] :: bytes;
          p3 = drop_bit 4 (md5 ! 0 AND 0xF0);
          p2 = push_bit 4 (md5 ! 0 AND 0x0F) OR drop_bit 4 (md5 ! 1 AND 0xF0);
          p1 = push_bit 4 (md5 ! 1 AND 0x0F) OR drop_bit 4 (md5 ! 2 AND 0xF0);
          p0 = push_bit 4 (md5 ! 2 AND 0x0F) OR drop_bit 4 (md5 ! 3 AND 0xF0)
      in le_bytes 4 0xF123456 = [0x56, 0x34, 0x12, 0x0F]
         \<and> p0 = 0x56 \<and> p1 = 0x34 \<and> p2 = 0x12 \<and> p3 = 0x0F)"

text \<open>
  \<open>open\<close> takes the length of the path, the filter file found there (length and bytes) and
  the outcomes of \<open>fopen\<close>, \<open>fwrite\<close> and \<open>fmap_open\<close>; it returns the opened filter and the
  file that is on disk afterwards. A new file is all zero bytes.
\<close>

definition bloom_open ::
  "nat \<Rightarrow> md5_bloom_mode_t \<Rightarrow> (nat \<times> (nat \<Rightarrow> byte)) option \<Rightarrow> bool \<Rightarrow> (nat \<Rightarrow> nat) \<Rightarrow> bool
   \<Rightarrow> md5_bloom_filter_t option \<times> (nat \<times> (nat \<Rightarrow> byte)) option" where
  "bloom_open path_len ty file fopen_ok fwritten fmap_ok =
     (if \<not> bloom_self_test then (None, file)
      else if path_len = 0 then (None, file)
      else let (ok, file') =
             (case file of
                Some f \<Rightarrow> (True, file)
              | None \<Rightarrow>
                  if path_len \<ge> 256 then (False, None)
                  else if ty = MD5_BLOOM_DISABLED then (False, None)
                  else let n = (if ty = MD5_BLOOM_LARGE then LARGE_BYTES + 1 else SMALL_BYTES + 1) in
                       if \<not> fopen_ok then (False, None)
                       else (fwritten n = n, Some (fwritten n, \<lambda>_. 0)))
      in case file' of
           None \<Rightarrow> (None, file')
         | Some (len, d) \<Rightarrow>
             if \<not> ok \<or> \<not> fmap_ok then (None, file')
             else if (if ty = MD5_BLOOM_LARGE then LARGE_BYTES + 1 \<noteq> len else SMALL_BYTES + 1 \<noteq> len)
             then (None, file')
             else (Some \<lparr>bf_ptr_len = len, bf_data = d, bf_type = ty\<rparr>, file'))"

definition bloom_not_found :: "md5_bloom_filter_t \<Rightarrow> bytes \<Rightarrow> bool" where
  "bloom_not_found bf md5 =
     (if bf_type bf = MD5_BLOOM_LARGE
      then let bit_id = large_bit_id md5 in
           if bit_id > LARGE_BITS then False else \<not> binary_get_bit (bf_data bf) bit_id
      else let bit_id = small_bit_id md5 in
           if bit_id > SMALL_BITS then False else \<not> binary_get_bit (bf_data bf) bit_id)"

definition bloom_add_key :: "bytes \<Rightarrow> md5_bloom_filter_t \<Rightarrow> md5_bloom_filter_t" where
  "bloom_add_key md5 bf =
     (if bf_type bf = MD5_BLOOM_LARGE
      then let bit_id = large_bit_id md5 in
           if bit_id > LARGE_BITS then bf
           else bf\<lparr>bf_data := binary_set_bit (bf_data bf) bit_id True\<rparr>
      else let bit_id = small_bit_id md5 in
           if bit_id > SMALL_BITS then bf
           else bf\<lparr>bf_data := binary_set_bit (bf_data bf) bit_id True\<rparr>)"

text \<open>The bit of the array that a digest is mapped to.\<close>

definition bloom_bit_id :: "md5_bloom_filter_t \<Rightarrow> bytes \<Rightarrow> nat" where
  "bloom_bit_id bf md5 = (if bf_type bf = MD5_BLOOM_LARGE then large_bit_id md5 else small_bit_id md5)"

text \<open>What the filter stands for: the digests as numbers, cut to the prefix it keeps.\<close>

definition md5_prefix :: "md5_bloom_filter_t \<Rightarrow> bytes \<Rightarrow> nat" where
  "md5_prefix bf md5 =
     (let n = 16777216 * unat (md5 ! 0) + 65536 * unat (md5 ! 1) + 256 * unat (md5 ! 2) + unat (md5 ! 3) in
      if bf_type bf = MD5_BLOOM_LARGE then n div 16 else n div 256)"

section \<open>Lemmas\<close>

lemma bit_mask_exp: "i < 8 \<Longrightarrow> BIT_MASK_MAP ! i = 2 ^ (7 - i)"
proof -
  assume "i < 8"
  then have "i \<in> set [0..<8]" by simp
  then show ?thesis by (auto simp: BIT_MASK_MAP_def upt_rec)
qed

lemma byte_get_bit_iff: "i < 8 \<Longrightarrow> byte_get_bit src i \<longleftrightarrow> bit src (7 - i)"
  by (simp add: byte_get_bit_def bit_mask_exp and_exp_eq_0_iff_not_bit)

lemma byte_get_set:
  "i < 8 \<Longrightarrow> j < 8 \<Longrightarrow> byte_get_bit (byte_set_bit src i True) j \<longleftrightarrow> j = i \<or> byte_get_bit src j"
  by (auto simp: byte_get_bit_iff byte_set_bit_def bit_mask_exp bit_or_iff bit_exp_iff)

lemma binary_get_set:
  "binary_get_bit (binary_set_bit src n True) m \<longleftrightarrow> m = n \<or> binary_get_bit src m"
proof -
  have "m = n" if "m div 8 = n div 8" "m mod 8 = n mod 8"
    using that by (metis div_mult_mod_eq)
  then show ?thesis
    by (auto simp: binary_get_bit_def binary_set_bit_def Let_def byte_get_set)
qed

lemma nibble_sum3:
  fixes a b c d ra qa rb qb rc qc :: nat
  assumes "a = ra + 16 * qa" "b = rb + 16 * qb" "c = rc + 16 * qc"
  shows "16 * rc + d + 256 * (16 * rb + qc) + 65536 * (16 * ra + qb) + 16777216 * qa
    = d + (16 * c + 4096 * b + 1048576 * a)"
  unfolding assms by simp

lemma large_bit_id_eq:
  "large_bit_id k = (16777216 * unat (k ! 0) + 65536 * unat (k ! 1) + 256 * unat (k ! 2) + unat (k ! 3)) div 16"
proof -
  let ?a = "unat (k ! 0)" and ?b = "unat (k ! 1)" and ?c = "unat (k ! 2)" and ?d = "unat (k ! 3)"
  have "large_bit_id k = 16 * (?c mod 16) + ?d div 16 + 256 * (16 * (?b mod 16) + ?c div 16)
      + 65536 * (16 * (?a mod 16) + ?b div 16) + 16777216 * (?a div 16)"
    by (simp only: large_bit_id_def Let_def hi_nibble mid_nibbles le_val.simps) simp
  also have "\<dots> = ?d div 16 + (16 * ?c + 4096 * ?b + 1048576 * ?a)"
    by (rule nibble_sum3) (simp_all only: mod_mult_div_eq)
  also have "\<dots> = (?d + 16 * (16 * ?c + 4096 * ?b + 1048576 * ?a)) div 16"
    by (simp only: div_mult_self2)
  finally show ?thesis by (simp add: algebra_simps)
qed

lemma div_256_sum: "(16777216 * a + 65536 * b + 256 * c + d) div 256 = 65536 * a + 256 * b + c"
  if "d < 256" for a b c d :: nat
proof -
  have "16777216 * a + 65536 * b + 256 * c + d = d + 256 * (65536 * a + 256 * b + c)" by simp
  then show ?thesis using that by (simp only: div_mult_self2)
qed

lemma small_bit_id_eq:
  "small_bit_id k = (16777216 * unat (k ! 0) + 65536 * unat (k ! 1) + 256 * unat (k ! 2) + unat (k ! 3)) div 256"
  unfolding div_256_sum [OF unat_byte_less] by (simp add: small_bit_id_def)

lemma bloom_bit_id_prefix: "bloom_bit_id bf k = md5_prefix bf k"
  by (simp add: bloom_bit_id_def md5_prefix_def large_bit_id_eq small_bit_id_eq Let_def)

lemma bit_id_less: "large_bit_id k < LARGE_BITS" "small_bit_id k < SMALL_BITS"
proof -
  have less: "16777216 * a + 65536 * b + 256 * c + d < 4294967296"
    if "a < 256" "b < 256" "c < 256" "d < 256" for a b c d :: nat using that by linarith
  have "16777216 * unat (k ! 0) + 65536 * unat (k ! 1) + 256 * unat (k ! 2) + unat (k ! 3) < 4294967296"
    by (rule less) simp_all
  then show "large_bit_id k < LARGE_BITS" "small_bit_id k < SMALL_BITS"
    unfolding large_bit_id_eq small_bit_id_eq LARGE_BITS_def SMALL_BITS_def
    by (simp_all add: less_mult_imp_div_less)
qed

lemma bloom_add_key_eq:
  "bloom_add_key k bf = bf\<lparr>bf_data := binary_set_bit (bf_data bf) (bloom_bit_id bf k) True\<rparr>"
  using bit_id_less [of k] by (simp add: bloom_add_key_def bloom_bit_id_def Let_def)

lemma bloom_not_found_eq:
  "bloom_not_found bf k \<longleftrightarrow> \<not> binary_get_bit (bf_data bf) (bloom_bit_id bf k)"
  using bit_id_less [of k] by (simp add: bloom_not_found_def bloom_bit_id_def Let_def)

lemma bloom_add_simps [simp]:
  "bf_type (bloom_add_key k bf) = bf_type bf" "bf_ptr_len (bloom_add_key k bf) = bf_ptr_len bf"
  "bloom_bit_id (bloom_add_key k bf) = bloom_bit_id bf"
  by (simp_all add: bloom_add_key_eq bloom_bit_id_def fun_eq_iff)

lemma bloom_not_found_add:
  "bloom_not_found (bloom_add_key k bf) k' \<longleftrightarrow> bloom_bit_id bf k' \<noteq> bloom_bit_id bf k \<and> bloom_not_found bf k'"
  unfolding bloom_not_found_eq bloom_add_simps by (simp add: bloom_add_key_eq binary_get_set)

lemma bloom_not_found_fold:
  "bloom_not_found (fold bloom_add_key ks bf) k \<longleftrightarrow>
     (\<forall>k'\<in>set ks. bloom_bit_id bf k' \<noteq> bloom_bit_id bf k) \<and> bloom_not_found bf k"
  by (induction ks arbitrary: bf) (auto simp: bloom_not_found_add)

lemma bloom_self_test_passes: bloom_self_test
  by (simp add: bloom_self_test_def byte_of_def le_bytes_numeral)

lemma bloom_open_len:
  assumes "bloom_open n ty file a b c = (Some bf, file')"
  shows "bf_type bf = ty" "bf_ptr_len bf = (if ty = MD5_BLOOM_LARGE then LARGE_BYTES + 1 else SMALL_BYTES + 1)"
  using assms by (auto simp: bloom_open_def Let_def split: if_splits option.splits prod.splits)

lemma bloom_bit_in_range:
  assumes "bf_ptr_len bf = (if bf_type bf = MD5_BLOOM_LARGE then LARGE_BYTES + 1 else SMALL_BYTES + 1)"
  shows "bloom_bit_id bf k div 8 < bf_ptr_len bf"
  using bit_id_less [of k] assms
  by (simp add: bloom_bit_id_def LARGE_BYTES_def SMALL_BYTES_def LARGE_BITS_def SMALL_BITS_def
      less_mult_imp_div_less)

lemma bloom_open_new_data:
  assumes "bloom_open n ty None a b c = (Some bf, file')"
  shows "bf_data bf = (\<lambda>_. 0)"
  using assms by (auto simp: bloom_open_def Let_def split: if_splits)

section \<open>Properties\<close>

text \<open>C21. The filter is exact on prefixes. In a filter created empty, \<open>not_found\<close> answers yes
  for a digest exactly when no digest that was added has the same first 28 bits (large) or
  24 bits (small): it never denies a digest that was added. Every bit that \<open>add_key\<close> and
  \<open>not_found\<close> touch lies inside the mapped file.\<close>

theorem bloom_filter_exact:
  assumes "bloom_open n ty None fopen_ok fwritten fmap_ok = (Some bf, file')"
  shows "(bloom_not_found (fold bloom_add_key added bf) md5 \<longleftrightarrow>
      (\<forall>k\<in>set added. md5_prefix bf k \<noteq> md5_prefix bf md5))
    \<and> (\<forall>k. bloom_bit_id bf k div 8 < bf_ptr_len bf)"
proof -
  have "bloom_not_found bf md5"
    by (simp add: bloom_not_found_eq bloom_open_new_data [OF assms] binary_get_bit_def byte_get_bit_def)
  moreover have "bloom_bit_id bf k div 8 < bf_ptr_len bf" for k
    using bloom_open_len [OF assms] by (intro bloom_bit_in_range) simp
  ultimately show ?thesis
    unfolding bloom_not_found_fold bloom_bit_id_prefix by simp
qed

theorem bloom_filter_exact_witness:
  "\<exists>bf file'. bloom_open 9 MD5_BLOOM_SMALL None True id True = (Some bf, file')
     \<and> \<not> bloom_not_found (fold bloom_add_key [[1, 2, 3, 4], [7, 7, 7, 7]] bf) [1, 2, 3, 9]
     \<and> bloom_not_found (fold bloom_add_key [[1, 2, 3, 4], [7, 7, 7, 7]] bf) [1, 2, 4, 4]"
proof -
  obtain bf file' where op: "bloom_open 9 MD5_BLOOM_SMALL None True id True = (Some bf, file')"
    by (simp add: bloom_open_def bloom_self_test_passes)
  have p: "md5_prefix bf [a, b, c, d] = 65536 * unat a + 256 * unat b + unat c" for a b c d
    using bloom_open_len(1) [OF op] div_256_sum [OF unat_byte_less]
    by (simp add: md5_prefix_def)
  note e = bloom_filter_exact [OF op, of "[[1, 2, 3, 4], [7, 7, 7, 7]]"]
  show ?thesis using op e [of "[1, 2, 3, 9]"] e [of "[1, 2, 4, 4]"] by (auto simp: p)
qed

end
