(* ===== verification/Leveldb_Kv.thy ===== *)
theory Leveldb_Kv
  imports Bloom_Filter "HOL-Library.AList"
begin

text \<open>
  The wrapper around one leveldb instance (\<open>module/kv/leveldb/kv_leveldb.cpp\<close>). leveldb
  itself and the MD5 function are parameters: the three calls the wrapper makes on an
  abstract database, and a function on byte strings. What is relied on of leveldb is
  \<open>leveldb_ok\<close>, a map with atomic updates.
\<close>

section \<open>leveldb\<close>

text \<open>The answers of a call: a status, or an exception.\<close>

datatype ldb_status = Ldb_Ok | Ldb_NotFound | Ldb_Error | Ldb_Exception

record 'd leveldb =
  ldb_put :: "bytes \<Rightarrow> bytes \<Rightarrow> 'd \<Rightarrow> ldb_status \<times> 'd"
  ldb_get :: "'d \<Rightarrow> bytes \<Rightarrow> ldb_status \<times> bytes"
  ldb_delete :: "bytes \<Rightarrow> 'd \<Rightarrow> ldb_status \<times> 'd"

text \<open>
  \<open>contents\<close> is the map a database stands for. A \<open>Put\<close> or \<open>Delete\<close> that answers ok has
  taken effect; \<open>Get\<close> answers ok or not found according to the map unless it fails. Any other
  answer of \<open>Put\<close> or \<open>Delete\<close> is taken to mean that the map is as before; the documentation of
  leveldb promises only that an update is atomic.
\<close>

definition leveldb_ok :: "'d leveldb \<Rightarrow> ('d \<Rightarrow> bytes \<Rightarrow> bytes option) \<Rightarrow> bool" where
  "leveldb_ok L contents \<longleftrightarrow>
     (\<forall>k v d. contents (snd (ldb_put L k v d))
        = (if fst (ldb_put L k v d) = Ldb_Ok then (contents d)(k := Some v) else contents d))
     \<and> (\<forall>k d. contents (snd (ldb_delete L k d))
        = (if fst (ldb_delete L k d) = Ldb_Ok then (contents d)(k := None) else contents d))
     \<and> (\<forall>k d. case ldb_get L d k of
          (Ldb_Ok, v) \<Rightarrow> contents d k = Some v
        | (Ldb_NotFound, _) \<Rightarrow> contents d k = None
        | _ \<Rightarrow> True)"

text \<open>Reads that do not fail.\<close>

definition ldb_reads :: "'d leveldb \<Rightarrow> bool" where
  "ldb_reads L \<longleftrightarrow> (\<forall>d k. fst (ldb_get L d k) = Ldb_Ok \<or> fst (ldb_get L d k) = Ldb_NotFound)"

section \<open>The wrapper\<close>

record 'd kv_leveldb_t =
  kl_db :: "'d option"
  kl_bloom :: md5_bloom_filter_t
  kl_bloom_type :: md5_bloom_mode_t

definition ldb_check_key :: "bytes \<Rightarrow> bool" where
  "ldb_check_key key = (if length key = 0 \<or> length key > 1024 then False else True)"

text \<open>
  \<open>open\<close> creates or maps the filter, then opens the database; \<open>db\<close> is what \<open>DB::Open\<close>
  delivers, \<open>cache_ok\<close> and \<open>policy_ok\<close> whether the cache and the filter policy of leveldb
  could be allocated. Sizes are megabytes as \<open>int\<close>, multiplied in 32 bits.
\<close>

definition mb_to_bytes :: "int \<Rightarrow> int" where
  "mb_to_bytes m = (if m > 0 then sint (word_of_int (m * 1024 * 1024) :: 32 word) else - 1)"

definition kv_open ::
  "nat \<Rightarrow> int \<Rightarrow> bool \<Rightarrow> int \<Rightarrow> bool \<Rightarrow> md5_bloom_mode_t \<Rightarrow> md5_bloom_filter_t option \<Rightarrow> 'd option
   \<Rightarrow> 'd kv_leveldb_t option" where
  "kv_open path_len cache_size_m cache_ok bloom_bits policy_ok bloom_type bloom db =
     (if path_len = 0 then None
      else if mb_to_bytes cache_size_m > 0 \<and> \<not> cache_ok then None
      else if bloom_bits > 0 \<and> \<not> policy_ok then None
      else case (if bloom_type \<noteq> MD5_BLOOM_DISABLED then bloom
                 else Some \<lparr>bf_ptr_len = 0, bf_data = (\<lambda>_. 0), bf_type = bloom_type\<rparr>) of
             None \<Rightarrow> None
           | Some bf \<Rightarrow>
               (case db of
                  None \<Rightarrow> None
                | Some d \<Rightarrow> Some \<lparr>kl_db = Some d, kl_bloom = bf, kl_bloom_type = bloom_type\<rparr>))"

definition kv_del :: "'d leveldb \<Rightarrow> bytes \<Rightarrow> 'd kv_leveldb_t \<Rightarrow> errno \<times> 'd kv_leveldb_t" where
  "kv_del L key kv =
     (if \<not> ldb_check_key key then (EINVAL, kv)
      else case kl_db kv of
             None \<Rightarrow> (EFAULT, kv)
           | Some d \<Rightarrow>
               let (status, d') = ldb_delete L key d;
                   kv' = kv\<lparr>kl_db := Some d'\<rparr>
               in case status of
                    Ldb_Exception \<Rightarrow> (EFAULT, kv')
                  | Ldb_Ok \<Rightarrow> (0, kv')
                  | Ldb_NotFound \<Rightarrow> (ENOENT, kv')
                  | Ldb_Error \<Rightarrow> (EFAULT, kv'))"

definition bloomfilter_add :: "(bytes \<Rightarrow> bytes) \<Rightarrow> bytes \<Rightarrow> 'd kv_leveldb_t \<Rightarrow> 'd kv_leveldb_t" where
  "bloomfilter_add md5 key kv = kv\<lparr>kl_bloom := bloom_add_key (md5 key) (kl_bloom kv)\<rparr>"

definition bloomfilter_is_not_found :: "(bytes \<Rightarrow> bytes) \<Rightarrow> 'd kv_leveldb_t \<Rightarrow> bytes \<Rightarrow> bool" where
  "bloomfilter_is_not_found md5 kv key = bloom_not_found (kl_bloom kv) (md5 key)"

definition kv_put ::
  "'d leveldb \<Rightarrow> (bytes \<Rightarrow> bytes) \<Rightarrow> bytes \<Rightarrow> bytes \<Rightarrow> 'd kv_leveldb_t \<Rightarrow> errno \<times> 'd kv_leveldb_t" where
  "kv_put L md5 key data kv =
     (if \<not> ldb_check_key key then (EINVAL, kv)
      else case kl_db kv of
             None \<Rightarrow> (EFAULT, kv)
           | Some d \<Rightarrow>
               let (status, d') = ldb_put L key data d;
                   kv' = kv\<lparr>kl_db := Some d'\<rparr>
               in if status = Ldb_Exception then (EFAULT, kv')
                  else if status \<noteq> Ldb_Ok then (EFAULT, kv')
                  else (0, if kl_bloom_type kv' \<noteq> MD5_BLOOM_DISABLED then bloomfilter_add md5 key kv'
                           else kv'))"

definition kv_get ::
  "'d leveldb \<Rightarrow> (bytes \<Rightarrow> bytes) \<Rightarrow> 'd kv_leveldb_t \<Rightarrow> bytes \<Rightarrow> errno \<times> bytes" where
  "kv_get L md5 kv key =
     (if \<not> ldb_check_key key then (EINVAL, [])
      else case kl_db kv of
             None \<Rightarrow> (EFAULT, [])
           | Some d \<Rightarrow>
               if kl_bloom_type kv \<noteq> MD5_BLOOM_DISABLED \<and> bloomfilter_is_not_found md5 kv key
               then (ENOENT, [])
               else case ldb_get L d key of
                      (Ldb_Exception, _) \<Rightarrow> (EFAULT, [])
                    | (Ldb_Ok, v) \<Rightarrow> (0, v)
                    | (Ldb_NotFound, _) \<Rightarrow> (ENOENT, [])
                    | (Ldb_Error, _) \<Rightarrow> (EFAULT, []))"

section \<open>Consistency of the filter with the database\<close>

text \<open>
  The wrapper answers from the filter alone when the bit of a key is not set, so every
  stored key must have its bit set.
\<close>

definition kv_inv ::
  "(bytes \<Rightarrow> bytes) \<Rightarrow> ('d \<Rightarrow> bytes \<Rightarrow> bytes option) \<Rightarrow> 'd kv_leveldb_t \<Rightarrow> bool" where
  "kv_inv md5 contents kv \<longleftrightarrow>
     (\<exists>d. kl_db kv = Some d
        \<and> (kl_bloom_type kv \<noteq> MD5_BLOOM_DISABLED \<longrightarrow>
             (\<forall>k. contents d k \<noteq> None \<longrightarrow> \<not> bloom_not_found (kl_bloom kv) (md5 k))))"

definition kv_look :: "('d \<Rightarrow> bytes \<Rightarrow> bytes option) \<Rightarrow> 'd kv_leveldb_t \<Rightarrow> bytes \<Rightarrow> bytes option" where
  "kv_look contents kv k = (case kl_db kv of None \<Rightarrow> None | Some d \<Rightarrow> contents d k)"

text \<open>A database kept as an association list, as an instance of the parameter.\<close>

definition alist_db :: "(bytes \<times> bytes) list leveldb" where
  "alist_db =
     \<lparr>ldb_put = (\<lambda>k v d. (Ldb_Ok, AList.update k v d)),
      ldb_get = (\<lambda>d k. case map_of d k of Some v \<Rightarrow> (Ldb_Ok, v) | None \<Rightarrow> (Ldb_NotFound, [])),
      ldb_delete = (\<lambda>k d. (Ldb_Ok, AList.delete k d))\<rparr>"

section \<open>Lemmas\<close>

lemma alist_db_ok: "leveldb_ok alist_db map_of" "ldb_reads alist_db"
  by (auto simp: leveldb_ok_def alist_db_def ldb_reads_def update_conv' delete_conv'
      split: option.splits)

lemma ldb_put_contents:
  assumes "leveldb_ok L contents" "ldb_put L k v d = (st, d')"
  shows "contents d' = (if st = Ldb_Ok then (contents d)(k := Some v) else contents d)"
  using assms unfolding leveldb_ok_def by (metis fst_conv snd_conv)

lemma ldb_delete_contents:
  assumes "leveldb_ok L contents" "ldb_delete L k d = (st, d')"
  shows "contents d' = (if st = Ldb_Ok then (contents d)(k := None) else contents d)"
  using assms unfolding leveldb_ok_def by (metis fst_conv snd_conv)

lemma ldb_get_contents:
  assumes "leveldb_ok L contents" "ldb_reads L"
  shows "ldb_get L d k = (case contents d k of Some v \<Rightarrow> (Ldb_Ok, v)
    | None \<Rightarrow> (Ldb_NotFound, snd (ldb_get L d k)))"
proof -
  have "case ldb_get L d k of (Ldb_Ok, v) \<Rightarrow> contents d k = Some v
      | (Ldb_NotFound, _) \<Rightarrow> contents d k = None | _ \<Rightarrow> True"
    using assms(1) by (simp add: leveldb_ok_def)
  moreover have "fst (ldb_get L d k) = Ldb_Ok \<or> fst (ldb_get L d k) = Ldb_NotFound"
    using assms(2) unfolding ldb_reads_def by blast
  ultimately show ?thesis by (cases "ldb_get L d k") auto
qed

lemma kv_put_correct:
  assumes "leveldb_ok L contents" "kv_inv md5 contents kv" "kv_put L md5 k v kv = (r, kv')"
  shows "kv_inv md5 contents kv'"
    and "kv_look contents kv' = (if r = 0 then (kv_look contents kv)(k := Some v) else kv_look contents kv)"
proof -
  obtain d where d: "kl_db kv = Some d" using assms(2) by (auto simp: kv_inv_def)
  obtain st d' where p: "ldb_put L k v d = (st, d')" by force
  note c = ldb_put_contents [OF assms(1) p]
  have "kv_inv md5 contents kv' \<and> kv_look contents kv'
      = (if r = 0 then (kv_look contents kv)(k := Some v) else kv_look contents kv)"
    using assms(2,3) d p c
    by (auto simp: kv_put_def kv_inv_def kv_look_def bloomfilter_add_def bloom_not_found_add Let_def
        split: if_splits)
  then show "kv_inv md5 contents kv'" "kv_look contents kv' =
      (if r = 0 then (kv_look contents kv)(k := Some v) else kv_look contents kv)" by blast+
qed

lemma kv_del_correct:
  assumes "leveldb_ok L contents" "kv_inv md5 contents kv" "kv_del L k kv = (r, kv')"
  shows "kv_inv md5 contents kv'"
    and "kv_look contents kv' = (if r = 0 then (kv_look contents kv)(k := None) else kv_look contents kv)"
proof -
  obtain d where d: "kl_db kv = Some d" using assms(2) by (auto simp: kv_inv_def)
  obtain st d' where p: "ldb_delete L k d = (st, d')" by force
  note c = ldb_delete_contents [OF assms(1) p]
  have "kv_inv md5 contents kv' \<and> kv_look contents kv'
      = (if r = 0 then (kv_look contents kv)(k := None) else kv_look contents kv)"
    using assms(2,3) d p c
    by (auto simp: kv_del_def kv_inv_def kv_look_def Let_def split: if_splits ldb_status.splits)
  then show "kv_inv md5 contents kv'" "kv_look contents kv' =
      (if r = 0 then (kv_look contents kv)(k := None) else kv_look contents kv)" by blast+
qed

lemma kv_get_correct:
  assumes "leveldb_ok L contents" "ldb_reads L" "kv_inv md5 contents kv" "ldb_check_key k"
  shows "kv_get L md5 kv k =
    (case kv_look contents kv k of Some v \<Rightarrow> (0, v) | None \<Rightarrow> (ENOENT, []))"
proof -
  obtain d where d: "kl_db kv = Some d" using assms(3) by (auto simp: kv_inv_def)
  show ?thesis
    using assms(3,4) d ldb_get_contents [OF assms(1,2), of d k]
    by (cases "contents d k")
      (auto simp: kv_get_def kv_inv_def kv_look_def bloomfilter_is_not_found_def split: prod.splits)
qed

section \<open>Properties\<close>



text \<open>C36. Turning the filter on for a database that already holds data hides the data: when
  no filter file exists, \<open>open\<close> creates one with no bit set and does not enter the stored
  keys, and \<open>get\<close> then answers \<open>ENOENT\<close> for every one of them.\<close>

theorem enabling_filter_hides_stored_keys:
  assumes "bloom_open n ty None fopen_ok fwritten fmap_ok = (Some bf, file')"
    and "kv_open path_len cache cache_ok bits policy_ok ty (Some bf) (Some d) = Some kv"
    and "ldb_check_key k"
  shows "kv_get L md5 kv k = (ENOENT, [])"
proof -
  have "ty \<noteq> MD5_BLOOM_DISABLED"
    using assms(1) by (auto simp: bloom_open_def Let_def split: if_splits)
  moreover have "kv = \<lparr>kl_db = Some d, kl_bloom = bf, kl_bloom_type = ty\<rparr>"
    using assms(2) calculation by (auto simp: kv_open_def split: if_splits)
  moreover have "bloom_not_found bf m" for m
    by (simp add: bloom_not_found_eq bloom_open_new_data [OF assms(1)] binary_get_bit_def byte_get_bit_def)
  ultimately show ?thesis
    using assms(3) by (simp add: kv_get_def bloomfilter_is_not_found_def)
qed

theorem enabling_filter_hides_stored_keys_witness:
  "\<exists>bf file' kv. bloom_open 9 MD5_BLOOM_SMALL None True id True = (Some bf, file')
     \<and> kv_open 5 128 True 10 True MD5_BLOOM_SMALL (Some bf) (Some [([1] :: bytes, [2] :: bytes)]) = Some kv
     \<and> map_of [([1] :: bytes, [2] :: bytes)] [1] = Some [2]
     \<and> kv_get alist_db (\<lambda>k. k) kv [1] = (ENOENT, [])"
proof -
  obtain bf file' where op: "bloom_open 9 MD5_BLOOM_SMALL None True id True = (Some bf, file')"
    by (simp add: bloom_open_def bloom_self_test_passes)
  obtain kv where kv: "kv_open 5 128 True 10 True MD5_BLOOM_SMALL (Some bf) (Some [([1] :: bytes, [2] :: bytes)]) = Some kv"
    by (simp add: kv_open_def)
  have "kv_get alist_db (\<lambda>k. k) kv [1] = (ENOENT, [])"
    by (rule enabling_filter_hides_stored_keys [OF op kv]) (simp add: ldb_check_key_def)
  then show ?thesis using op kv by auto
qed

end
