(* ===== verification/Key_Index.thy ===== *)
theory Key_Index
  imports Bucket
begin

text \<open>
  The contract of the two stores that resolve slot conflicts for the md5db engine, the
  conflict files (\<open>fast_conflict_array_t\<close>) and the leveldb conflict store
  (\<open>conflict_array_t\<close>): a partial map from keys to block identifiers with versions. A
  version is kept in the 22 bit field of an item, so that what is read back is the
  version that field represents.
\<close>

definition stored_version :: "nat \<Rightarrow> nat" where
  "stored_version v = version (set_version v item_zero)"

datatype index_op = Index_Put bytes block_id_t nat | Index_Del bytes

primrec index_key :: "index_op \<Rightarrow> bytes" where
  "index_key (Index_Put k b v) = k"
| "index_key (Index_Del k) = k"

text \<open>A run of the operations, with the return code of each.\<close>

fun index_run ::
  "(bytes \<Rightarrow> block_id_t \<Rightarrow> nat \<Rightarrow> 's \<Rightarrow> errno \<times> 's) \<Rightarrow> (bytes \<Rightarrow> 's \<Rightarrow> errno \<times> 's)
   \<Rightarrow> index_op list \<Rightarrow> 's \<Rightarrow> errno list \<times> 's" where
  "index_run put del [] s = ([], s)"
| "index_run put del (Index_Put k b v # ops) s =
     (let (r, s1) = put k b v s; (rs, s2) = index_run put del ops s1 in (r # rs, s2))"
| "index_run put del (Index_Del k # ops) s =
     (let (r, s1) = del k s; (rs, s2) = index_run put del ops s1 in (r # rs, s2))"

text \<open>The map the run leaves: the operations that return 0 take effect, the others do not.\<close>

fun index_spec ::
  "index_op list \<Rightarrow> errno list \<Rightarrow> (bytes \<Rightarrow> (block_id_t \<times> nat) option)
   \<Rightarrow> bytes \<Rightarrow> (block_id_t \<times> nat) option" where
  "index_spec (Index_Put k b v # ops) (r # rs) m =
     index_spec ops rs (if r = 0 then m(k := Some (b, stored_version v)) else m)"
| "index_spec (Index_Del k # ops) (r # rs) m =
     index_spec ops rs (if r = 0 then m(k := None) else m)"
| "index_spec _ _ m = m"

lemma version_set_version_stored [simp]: "version (set_version v it) = stored_version v"
  by (simp add: stored_version_def version_set_version)

lemma stored_version_low [simp]: "v < 64 \<Longrightarrow> stored_version v = v"
  by (simp add: stored_version_def del: version_set_version_stored)

text \<open>
  \<open>member\<close> are the keys the store is responsible for, \<open>names k b\<close> says that the block
  identifier \<open>b\<close> belongs to the key \<open>k\<close>.
\<close>

locale key_index =
  fixes look :: "'s \<Rightarrow> bytes \<Rightarrow> (block_id_t \<times> nat) option"
    and put :: "bytes \<Rightarrow> block_id_t \<Rightarrow> nat \<Rightarrow> 's \<Rightarrow> errno \<times> 's"
    and del :: "bytes \<Rightarrow> 's \<Rightarrow> errno \<times> 's"
    and inv :: "'s \<Rightarrow> bool"
    and member :: "bytes \<Rightarrow> bool"
    and names :: "bytes \<Rightarrow> block_id_t \<Rightarrow> bool"
  assumes put_inv: "inv s \<Longrightarrow> member k \<Longrightarrow> names k b \<Longrightarrow> put k b v s = (r, s') \<Longrightarrow> inv s'"
    and put_look: "inv s \<Longrightarrow> member k \<Longrightarrow> names k b \<Longrightarrow> put k b v s = (r, s') \<Longrightarrow> member k' \<Longrightarrow>
      look s' k' = (if r = 0 \<and> k' = k then Some (b, stored_version v) else look s k')"
    and del_inv: "inv s \<Longrightarrow> member k \<Longrightarrow> del k s = (r, s') \<Longrightarrow> inv s'"
    and del_look: "inv s \<Longrightarrow> member k \<Longrightarrow> del k s = (r, s') \<Longrightarrow> member k' \<Longrightarrow>
      look s' k' = (if r = 0 \<and> k' = k then None else look s k')"
begin

lemma run_refines:
  assumes "inv s" and "\<And>op. op \<in> set ops \<Longrightarrow> member (index_key op)"
    and "\<And>k b v. Index_Put k b v \<in> set ops \<Longrightarrow> names k b"
    and "index_run put del ops s = (rs, s')"
    and "\<And>k. member k \<Longrightarrow> m k = look s k"
  shows "inv s' \<and> (\<forall>k. member k \<longrightarrow> look s' k = index_spec ops rs m k)"
  using assms
proof (induction ops arbitrary: s rs m)
  case (Cons op ops)
  show ?case
  proof (cases op)
    case (Index_Put k b v)
    obtain r s1 where p: "put k b v s = (r, s1)" by force
    obtain rs1 where run: "index_run put del ops s1 = (rs1, s')" and rs: "rs = r # rs1"
      using Cons.prems(4) p by (auto simp: Index_Put split: prod.splits)
    have k: "member k" "names k b" using Cons.prems(2) [of op] Cons.prems(3) [of k b v]
      by (simp_all add: Index_Put)
    let ?m = "if r = 0 then m(k := Some (b, stored_version v)) else m"
    have "inv s1" using put_inv [OF Cons.prems(1) k p] .
    moreover have "?m k' = look s1 k'" if "member k'" for k'
      using put_look [OF Cons.prems(1) k p that] Cons.prems(5) that by simp
    moreover have "member (index_key op')" if "op' \<in> set ops" for op'
      using Cons.prems(2) that by simp
    moreover have "names k' b'" if "Index_Put k' b' v' \<in> set ops" for k' b' v'
      using Cons.prems(3) [of k' b' v'] that by simp
    ultimately have "inv s' \<and> (\<forall>k. member k \<longrightarrow> look s' k = index_spec ops rs1 ?m k)"
      by (intro Cons.IH [OF _ _ _ run]) simp_all
    then show ?thesis by (simp add: Index_Put rs)
  next
    case (Index_Del k)
    obtain r s1 where p: "del k s = (r, s1)" by force
    obtain rs1 where run: "index_run put del ops s1 = (rs1, s')" and rs: "rs = r # rs1"
      using Cons.prems(4) p by (auto simp: Index_Del split: prod.splits)
    have k: "member k" using Cons.prems(2) [of op] by (simp add: Index_Del)
    let ?m = "if r = 0 then m(k := None) else m"
    have "inv s1" using del_inv [OF Cons.prems(1) k p] .
    moreover have "?m k' = look s1 k'" if "member k'" for k'
      using del_look [OF Cons.prems(1) k p that] Cons.prems(5) that by simp
    moreover have "member (index_key op')" if "op' \<in> set ops" for op'
      using Cons.prems(2) that by simp
    moreover have "names k' b'" if "Index_Put k' b' v' \<in> set ops" for k' b' v'
      using Cons.prems(3) [of k' b' v'] that by simp
    ultimately have "inv s' \<and> (\<forall>k. member k \<longrightarrow> look s' k = index_spec ops rs1 ?m k)"
      by (intro Cons.IH [OF _ _ _ run]) simp_all
    then show ?thesis by (simp add: Index_Del rs)
  qed
qed simp

end

end
