(* ===== verification/Conflict.thy ===== *)
theory Conflict
  imports Leveldb_Kv Key_Index
begin

text \<open>
  The leveldb store for conflicting keys that do not fit into the conflict files
  (\<open>conflict.cpp\<close>, \<open>conflict_array.cpp\<close>): the 16 byte digest is the key, the value is an
  eight byte slot item with the block identifier and the version. An array of one to ten
  databases is addressed by the first four bytes of the digest.
\<close>

section \<open>One store\<close>

text \<open>A null \<open>m_db\<close> is \<open>None\<close>.\<close>

definition conflict_del :: "'d leveldb \<Rightarrow> bytes \<Rightarrow> 'd kv_leveldb_t \<Rightarrow> errno \<times> 'd kv_leveldb_t" where
  "conflict_del L inner_key m_db = kv_del L inner_key m_db"

definition conflict_put ::
  "'d leveldb \<Rightarrow> (bytes \<Rightarrow> bytes) \<Rightarrow> bytes \<Rightarrow> block_id_t \<Rightarrow> nat \<Rightarrow> 'd kv_leveldb_t
   \<Rightarrow> errno \<times> 'd kv_leveldb_t" where
  "conflict_put L md5 inner_key block_id ver m_db =
     (if length inner_key \<noteq> 16 \<or> ver > BUCKET_DATA_MAX_VERSION then (EINVAL, m_db)
      else let data = (set_version ver item_zero)\<lparr>m_block_id := block_id\<rparr> in
           kv_put L md5 inner_key (item_bytes data) m_db)"

definition conflict_get ::
  "'d leveldb \<Rightarrow> (bytes \<Rightarrow> bytes) \<Rightarrow> 'd kv_leveldb_t option \<Rightarrow> bytes \<Rightarrow> errno \<times> block_id_t \<times> nat" where
  "conflict_get L md5 m_db inner_key =
     (case m_db of
        None \<Rightarrow> (EFAULT, block_id_zero, 0)
      | Some db \<Rightarrow>
          if length inner_key \<noteq> 16 then (EINVAL, block_id_zero, 0)
          else case kv_get L md5 db inner_key of
                 (r, s) \<Rightarrow>
                   if r \<noteq> 0 then (r, block_id_zero, 0)
                   else if 8 \<noteq> length s then (EFAULT, block_id_zero, 0)
                   else let item = item_of_bytes s; ver = version item in
                        if ver > BUCKET_DATA_MAX_VERSION then (EFAULT, m_block_id item, ver)
                        else (0, m_block_id item, ver))"

section \<open>The array\<close>

definition bloom_mode_of :: "string \<Rightarrow> md5_bloom_mode_t option" where
  "bloom_mode_of s =
     (if s = ''none'' then Some MD5_BLOOM_DISABLED
      else if s = ''large'' then Some MD5_BLOOM_LARGE
      else if s = ''small'' then Some MD5_BLOOM_SMALL else None)"

definition CONFLICT_CACHE_M :: int where
  "CONFLICT_CACHE_M = 256"

definition CONFLICT_WRITE_BUFFER_M :: int where
  "CONFLICT_WRITE_BUFFER_M = 256"

record kv_config_t =
  cfg_cache_size_m :: int
  cfg_write_buffer_m :: int
  cfg_ldb_bloom_filter_bits :: int
  cfg_my_bloom_filter_type :: md5_bloom_mode_t
  cfg_is_readonly :: bool
  cfg_disable_compression :: bool

text \<open>\<open>opened\<close> is what opening database \<open>i\<close> with a configuration delivers.\<close>

primrec conflict_open_loop ::
  "(nat \<Rightarrow> kv_config_t \<Rightarrow> 'c option) \<Rightarrow> kv_config_t \<Rightarrow> nat list \<Rightarrow> 'c list \<Rightarrow> 'c list option" where
  "conflict_open_loop opened config [] m_conflicts = Some m_conflicts"
| "conflict_open_loop opened config (i # is) m_conflicts =
     (case opened i config of
        None \<Rightarrow> None
      | Some o' \<Rightarrow> conflict_open_loop opened config is (m_conflicts @ [o']))"

definition conflict_array_open ::
  "(nat \<Rightarrow> kv_config_t \<Rightarrow> 'c option) \<Rightarrow> 'c list \<Rightarrow> bytes \<Rightarrow> int \<Rightarrow> int \<Rightarrow> int \<Rightarrow> int \<Rightarrow> bool
   \<Rightarrow> md5_bloom_mode_t \<Rightarrow> 'c list option" where
  "conflict_array_open opened m_conflicts path count' cache_m write_buffer_m bits no_compr mode =
     (if m_conflicts \<noteq> [] then None
      else if path = [] then None
      else if count' \<le> 0 then None
      else let config =
             \<lparr>cfg_cache_size_m = (if cache_m < 0 then CONFLICT_CACHE_M else cache_m),
              cfg_write_buffer_m = (if write_buffer_m < 0 then CONFLICT_WRITE_BUFFER_M else write_buffer_m),
              cfg_ldb_bloom_filter_bits = (if bits < 0 then 0 else bits),
              cfg_my_bloom_filter_type = mode, cfg_is_readonly = False,
              cfg_disable_compression = no_compr\<rparr>
           in conflict_open_loop opened config [0..<nat count'] m_conflicts)"

text \<open>The variant that reads the section \<open>conflictdb\<close> of the configuration.\<close>

definition conflict_array_open_ini ::
  "(nat \<Rightarrow> kv_config_t \<Rightarrow> 'c option) \<Rightarrow> bytes \<Rightarrow> int \<Rightarrow> int \<Rightarrow> int \<Rightarrow> int \<Rightarrow> bool \<Rightarrow> string option
   \<Rightarrow> 'c list option" where
  "conflict_array_open_ini opened path count' cache_m write_buffer_m bits no_compr filt =
     (if count' \<le> 0 \<or> count' > 10 then None
      else case filt of
             None \<Rightarrow> None
           | Some s \<Rightarrow>
               (case bloom_mode_of s of
                  None \<Rightarrow> None
                | Some mode \<Rightarrow>
                    conflict_array_open opened [] path count' cache_m write_buffer_m bits no_compr mode))"

definition get_conflict :: "'c list \<Rightarrow> bytes \<Rightarrow> nat" where
  "get_conflict m_conflicts inner_key = le_val (take 4 inner_key) mod length m_conflicts"

definition cfa_del ::
  "'d leveldb \<Rightarrow> bytes \<Rightarrow> 'd kv_leveldb_t list \<Rightarrow> errno \<times> 'd kv_leveldb_t list" where
  "cfa_del L inner_key cs =
     (let i = get_conflict cs inner_key; (r, c) = conflict_del L inner_key (cs ! i) in (r, cs[i := c]))"

definition cfa_put ::
  "'d leveldb \<Rightarrow> (bytes \<Rightarrow> bytes) \<Rightarrow> bytes \<Rightarrow> block_id_t \<Rightarrow> nat \<Rightarrow> 'd kv_leveldb_t list
   \<Rightarrow> errno \<times> 'd kv_leveldb_t list" where
  "cfa_put L md5 inner_key block_id ver cs =
     (let i = get_conflict cs inner_key; (r, c) = conflict_put L md5 inner_key block_id ver (cs ! i)
      in (r, cs[i := c]))"

definition cfa_get ::
  "'d leveldb \<Rightarrow> (bytes \<Rightarrow> bytes) \<Rightarrow> 'd kv_leveldb_t list \<Rightarrow> bytes \<Rightarrow> errno \<times> block_id_t \<times> nat" where
  "cfa_get L md5 cs inner_key = conflict_get L md5 (Some (cs ! get_conflict cs inner_key)) inner_key"

section \<open>The store as a map\<close>

definition cfa_inv ::
  "'d leveldb \<Rightarrow> (bytes \<Rightarrow> bytes) \<Rightarrow> ('d \<Rightarrow> bytes \<Rightarrow> bytes option) \<Rightarrow> 'd kv_leveldb_t list \<Rightarrow> bool" where
  "cfa_inv L md5 contents cs \<longleftrightarrow>
     leveldb_ok L contents \<and> ldb_reads L \<and> cs \<noteq> [] \<and> (\<forall>c\<in>set cs. kv_inv md5 contents c)"

definition cfa_look ::
  "'d leveldb \<Rightarrow> (bytes \<Rightarrow> bytes) \<Rightarrow> 'd kv_leveldb_t list \<Rightarrow> bytes \<Rightarrow> (block_id_t \<times> nat) option" where
  "cfa_look L md5 cs k =
     (case cfa_get L md5 cs k of (r, b, v) \<Rightarrow> if r = 0 then Some (b, v) else None)"

definition digest_key :: "bytes \<Rightarrow> bool" where
  "digest_key k \<longleftrightarrow> length k = 16"

definition any_block :: "bytes \<Rightarrow> block_id_t \<Rightarrow> bool" where
  "any_block k b \<longleftrightarrow> block_id_wf b"

text \<open>What the bytes stored for a digest say.\<close>

definition conflict_item :: "bytes option \<Rightarrow> (block_id_t \<times> nat) option" where
  "conflict_item s =
     (case s of
        Some bs \<Rightarrow> if length bs = 8 \<and> version (item_of_bytes bs) \<le> BUCKET_DATA_MAX_VERSION
                  then Some (m_block_id (item_of_bytes bs), version (item_of_bytes bs)) else None
      | None \<Rightarrow> None)"

section \<open>Lemmas\<close>

lemma digest_check_key: "length k = 16 \<Longrightarrow> ldb_check_key k"
  by (simp add: ldb_check_key_def)

lemma get_conflict_less: "cs \<noteq> [] \<Longrightarrow> get_conflict cs k < length cs"
  by (simp add: get_conflict_def)

lemma get_conflict_update [simp]: "get_conflict (cs[i := c]) k = get_conflict cs k"
  by (simp add: get_conflict_def)

lemma cfa_inv_nth: "cfa_inv L md5 contents cs \<Longrightarrow> kv_inv md5 contents (cs ! get_conflict cs k)"
  by (simp add: cfa_inv_def get_conflict_less)

lemma cfa_inv_update:
  "cfa_inv L md5 contents cs \<Longrightarrow> kv_inv md5 contents c \<Longrightarrow> cfa_inv L md5 contents (cs[i := c])"
  by (auto simp: cfa_inv_def dest!: subsetD [OF set_update_subset_insert])

lemma cfa_look_eq:
  assumes "cfa_inv L md5 contents cs" "digest_key k"
  shows "cfa_look L md5 cs k = conflict_item (kv_look contents (cs ! get_conflict cs k) k)"
proof -
  have "leveldb_ok L contents" "ldb_reads L" using assms(1) by (simp_all add: cfa_inv_def)
  from kv_get_correct [OF this cfa_inv_nth [OF assms(1)] digest_check_key] assms(2)
  have "kv_get L md5 (cs ! get_conflict cs k) k =
      (case kv_look contents (cs ! get_conflict cs k) k of Some v \<Rightarrow> (0, v) | None \<Rightarrow> (ENOENT, []))"
    by (simp add: digest_key_def)
  then show ?thesis
    using assms(2)
    by (simp add: cfa_look_def cfa_get_def conflict_get_def conflict_item_def digest_key_def Let_def
        split: option.split)
qed

lemma conflict_item_put:
  assumes "block_id_wf b"
  shows "conflict_item (Some (item_bytes ((set_version v item_zero)\<lparr>m_block_id := b\<rparr>)))
    = Some (b, stored_version v)"
proof -
  let ?d = "(set_version v item_zero)\<lparr>m_block_id := b\<rparr>"
  have wf: "item_wf ?d" using set_version_wf [OF item_zero_simps(2), of v] assms by (simp add: item_wf_def)
  have ver: "version ?d = stored_version v" by (simp add: stored_version_def version_def set_version_def item_zero_def)
  have "(v div 64) mod 64 < 64" "v mod 65536 < 65536" by simp_all
  then have "stored_version v \<le> BUCKET_DATA_MAX_VERSION"
    by (simp add: stored_version_def version_set_version BUCKET_DATA_MAX_VERSION_def del: version_set_version_stored)
  then show ?thesis using item_roundtrip [OF wf] ver by (simp add: conflict_item_def)
qed

text \<open>An operation on the store of \<open>k\<close> that changes the entry of \<open>k\<close> at most.\<close>

lemma cfa_step:
  assumes inv: "cfa_inv L md5 contents cs" and c: "kv_inv md5 contents c"
    and look: "kv_look contents c = (kv_look contents (cs ! get_conflict cs k))(k := x)"
    and k: "digest_key k"
  shows "cfa_inv L md5 contents (cs[get_conflict cs k := c])"
    and "digest_key k' \<Longrightarrow> cfa_look L md5 (cs[get_conflict cs k := c]) k'
      = (if k' = k then conflict_item x else cfa_look L md5 cs k')"
proof -
  show inv': "cfa_inv L md5 contents (cs[get_conflict cs k := c])" by (rule cfa_inv_update [OF inv c])
  show "cfa_look L md5 (cs[get_conflict cs k := c]) k'
      = (if k' = k then conflict_item x else cfa_look L md5 cs k')" if k': "digest_key k'"
    using get_conflict_less [of cs k] inv look
    unfolding cfa_look_eq [OF inv' k'] cfa_look_eq [OF inv k']
    by (cases "get_conflict cs k' = get_conflict cs k") (auto simp: cfa_inv_def)
qed

lemma cfa_put_correct:
  assumes inv: "cfa_inv L md5 contents cs" and k: "digest_key k" and b: "block_id_wf b"
    and put: "cfa_put L md5 k b v cs = (r, cs')"
  shows "cfa_inv L md5 contents cs'"
    and "digest_key k' \<Longrightarrow> cfa_look L md5 cs' k' =
      (if r = 0 \<and> k' = k then Some (b, stored_version v) else cfa_look L md5 cs k')"
proof -
  let ?i = "get_conflict cs k" and ?d = "item_bytes ((set_version v item_zero)\<lparr>m_block_id := b\<rparr>)"
  have L: "leveldb_ok L contents" using inv by (simp add: cfa_inv_def)
  obtain c where c: "conflict_put L md5 k b v (cs ! ?i) = (r, c)" and cs': "cs' = cs[?i := c]"
    using put by (auto simp: cfa_put_def Let_def split: prod.splits)
  have c': "c = cs ! ?i \<and> r \<noteq> 0 \<or> kv_put L md5 k ?d (cs ! ?i) = (r, c)"
    using c by (auto simp: conflict_put_def Let_def split: if_splits)
  have kc: "kv_inv md5 contents c"
    "kv_look contents c = (if r = 0 then (kv_look contents (cs ! ?i))(k := Some ?d) else kv_look contents (cs ! ?i))"
    using c' kv_put_correct [OF L cfa_inv_nth [OF inv]] cfa_inv_nth [OF inv, of k] by auto
  define x where "x = (if r = 0 then Some ?d else kv_look contents (cs ! ?i) k)"
  have "kv_look contents c = (kv_look contents (cs ! ?i))(k := x)" using kc(2) by (auto simp: x_def)
  note st = cfa_step [OF inv kc(1) this k]
  show "cfa_inv L md5 contents cs'" using st(1) by (simp add: cs')
  show "cfa_look L md5 cs' k' = (if r = 0 \<and> k' = k then Some (b, stored_version v) else cfa_look L md5 cs k')"
    if "digest_key k'"
    using st(2) [OF that] conflict_item_put [OF b] cfa_look_eq [OF inv k] by (simp add: cs' x_def)
qed

lemma cfa_del_correct:
  assumes inv: "cfa_inv L md5 contents cs" and k: "digest_key k"
    and del: "cfa_del L k cs = (r, cs')"
  shows "cfa_inv L md5 contents cs'"
    and "digest_key k' \<Longrightarrow> cfa_look L md5 cs' k' = (if r = 0 \<and> k' = k then None else cfa_look L md5 cs k')"
proof -
  let ?i = "get_conflict cs k"
  have L: "leveldb_ok L contents" using inv by (simp add: cfa_inv_def)
  obtain c where c: "kv_del L k (cs ! ?i) = (r, c)" and cs': "cs' = cs[?i := c]"
    using del by (auto simp: cfa_del_def conflict_del_def Let_def split: prod.splits)
  note kc = kv_del_correct [OF L cfa_inv_nth [OF inv] c]
  define x where "x = (if r = 0 then None else kv_look contents (cs ! ?i) k)"
  have "kv_look contents c = (kv_look contents (cs ! ?i))(k := x)" using kc(2) by (auto simp: x_def)
  note st = cfa_step [OF inv kc(1) this k]
  show "cfa_inv L md5 contents cs'" using st(1) by (simp add: cs')
  show "cfa_look L md5 cs' k' = (if r = 0 \<and> k' = k then None else cfa_look L md5 cs k')" if "digest_key k'"
    using st(2) [OF that] cfa_look_eq [OF inv k] by (simp add: cs' x_def conflict_item_def)
qed

interpretation cfidx: key_index "cfa_look L md5" "cfa_put L md5" "cfa_del L" "cfa_inv L md5 contents"
  digest_key any_block for L md5 contents
proof
  show "cfa_inv L md5 contents s \<Longrightarrow> digest_key k \<Longrightarrow> any_block k b \<Longrightarrow> cfa_put L md5 k b v s = (r, s')
      \<Longrightarrow> cfa_inv L md5 contents s'" for s k b v r s'
    by (auto simp: any_block_def dest: cfa_put_correct(1))
  show "cfa_inv L md5 contents s \<Longrightarrow> digest_key k \<Longrightarrow> any_block k b \<Longrightarrow> cfa_put L md5 k b v s = (r, s')
      \<Longrightarrow> digest_key k' \<Longrightarrow> cfa_look L md5 s' k' =
        (if r = 0 \<and> k' = k then Some (b, stored_version v) else cfa_look L md5 s k')" for s k b v r s' k'
    by (auto simp: any_block_def dest: cfa_put_correct(2))
  show "cfa_inv L md5 contents s \<Longrightarrow> digest_key k \<Longrightarrow> cfa_del L k s = (r, s')
      \<Longrightarrow> cfa_inv L md5 contents s'" for s k r s'
    by (rule cfa_del_correct(1))
  show "cfa_inv L md5 contents s \<Longrightarrow> digest_key k \<Longrightarrow> cfa_del L k s = (r, s') \<Longrightarrow> digest_key k'
      \<Longrightarrow> cfa_look L md5 s' k' = (if r = 0 \<and> k' = k then None else cfa_look L md5 s k')" for s k r s' k'
    by (rule cfa_del_correct(2))
qed

section \<open>Properties\<close>



end
