(* ===== verification/Kv_Array.thy ===== *)
theory Kv_Array
  imports Conflict
begin

text \<open>
  The array of leveldb instances behind the md5db engine (\<open>module/kv/kv_array/kv_array.cpp\<close>),
  as far as the engine calls it, and the per-request contexts of \<open>include/i_server_kv.h\<close>.
  The instances after the data files hold the expiry times and the binlog.
\<close>

section \<open>Contexts\<close>

abbreviation (input) NEW_KV :: nat where "NEW_KV \<equiv> 0"
abbreviation (input) ERROR_KV :: nat where "ERROR_KV \<equiv> 3"

record conn_ctxt_t =
  worker_id :: nat
  compress_type :: nat

record kv_data_item_t =
  kd_user_key_len :: nat
  kd_compress_type :: nat
  kd_reserved :: nat
  kd_ttl :: nat
  kd_timestamp :: nat

definition kv_data_zero :: kv_data_item_t where
  "kv_data_zero = \<lparr>kd_user_key_len = 0, kd_compress_type = 0, kd_reserved = 0, kd_ttl = 0, kd_timestamp = 0\<rparr>"

text \<open>The packed layout, twelve bytes.\<close>

definition kv_data_bytes :: "kv_data_item_t \<Rightarrow> bytes" where
  "kv_data_bytes d =
     le_bytes 4 (kd_user_key_len d + 16777216 * kd_compress_type d + 67108864 * kd_reserved d)
     @ le_bytes 4 (kd_ttl d) @ le_bytes 4 (kd_timestamp d)"

definition kv_data_of_bytes :: "bytes \<Rightarrow> kv_data_item_t" where
  "kv_data_of_bytes bs =
     (let w = le_val (take 4 bs) in
      \<lparr>kd_user_key_len = w mod 16777216, kd_compress_type = w div 16777216 mod 4,
       kd_reserved = w div 67108864, kd_ttl = le_val (take 4 (drop 4 bs)),
       kd_timestamp = le_val (take 4 (drop 8 bs))\<rparr>)"

definition kv_data_wf :: "kv_data_item_t \<Rightarrow> bool" where
  "kv_data_wf d \<longleftrightarrow> kd_user_key_len d < 16777216 \<and> kd_compress_type d < 4 \<and> kd_reserved d < 64
     \<and> kd_ttl d < 4294967296 \<and> kd_timestamp d < 4294967296"

record item_ctxt_t =
  ic_key :: bytes
  ic_value :: bytes
  ic_inner_file_id :: int
  ic_user_file_id :: int
  ic_is_version_error :: bool
  ic_kv_type :: nat
  ic_kv_data :: kv_data_item_t

definition item_ctxt_reset :: item_ctxt_t where
  "item_ctxt_reset =
     \<lparr>ic_key = [], ic_value = [], ic_inner_file_id = - 1, ic_user_file_id = - 1,
      ic_is_version_error = False, ic_kv_type = ERROR_KV, ic_kv_data = kv_data_zero\<rparr>"

section \<open>Hashing\<close>

text \<open>\<open>data [i]\<close> is a signed \<open>char\<close>, added to an unsigned number of 32 bits.\<close>

definition hust_hash :: "nat \<Rightarrow> byte \<Rightarrow> nat" where
  "hust_hash key c =
     trunc 32 (key * 31 + (if unat c < 128 then unat c else unat c + UINT32_MOD - 256))"

definition hust_hash_key :: "bytes \<Rightarrow> nat" where
  "hust_hash_key data = foldl hust_hash 0 data"

section \<open>The array\<close>

record 'd kv_array_t =
  ka_ok :: bool
  ka_file_count :: nat
  ka_files :: "nat \<Rightarrow> 'd kv_leveldb_t option"

definition ka_get_file :: "nat \<Rightarrow> 'd kv_array_t \<Rightarrow> 'd kv_leveldb_t option" where
  "ka_get_file file_id ka =
     (if file_id = UINT32_MOD - 1 \<or> file_id \<ge> ka_file_count ka then None else ka_files ka file_id)"

definition hash_with_md5db :: "bytes \<Rightarrow> 'd kv_array_t \<Rightarrow> errno \<times> item_ctxt_t" where
  "hash_with_md5db key ka =
     (let user_file_id = hust_hash_key key mod ka_file_count ka
      in (0, item_ctxt_reset\<lparr>ic_user_file_id := int user_file_id, ic_inner_file_id := int user_file_id\<rparr>))"

text \<open>The key of a record: the block identifier, after the table for the records of a table.\<close>

definition ka_key :: "block_id_t \<Rightarrow> bytes \<Rightarrow> item_ctxt_t \<Rightarrow> bytes \<times> item_ctxt_t" where
  "ka_key block_id table ctxt =
     (if length table \<le> 0 then (block_id_bytes block_id, ctxt)
      else let key = ic_key ctxt @ table @ block_id_bytes block_id in (key, ctxt\<lparr>ic_key := key\<rparr>))"

text \<open>The conversion of the \<open>int\<close> of the context to the \<open>uint32_t\<close> parameter.\<close>

definition file_of_ctxt :: "item_ctxt_t \<Rightarrow> nat" where
  "file_of_ctxt ctxt = nat (ic_inner_file_id ctxt mod int UINT32_MOD)"

definition get_from_md5db ::
  "'d leveldb \<Rightarrow> (bytes \<Rightarrow> bytes) \<Rightarrow> block_id_t \<Rightarrow> nat \<Rightarrow> bytes \<Rightarrow> item_ctxt_t \<Rightarrow> 'd kv_array_t
   \<Rightarrow> errno \<times> bytes option \<times> item_ctxt_t" where
  "get_from_md5db L md5 block_id file_id table ctxt ka =
     (if \<not> ka_ok ka \<or> file_id \<ge> ka_file_count ka then (EINVAL, None, ctxt)
      else case ka_files ka file_id of
             None \<Rightarrow> (EFAULT, None, ctxt)
           | Some kv \<Rightarrow>
               let (key, ctxt1) = ka_key block_id table ctxt;
                   (r, v) = kv_get L md5 kv key
               in if r \<noteq> 0 \<and> r \<noteq> ENOENT then (r, None, ctxt1)
                  else (r, Some v, ctxt1\<lparr>ic_value := v\<rparr>))"

definition put_from_md5db ::
  "'d leveldb \<Rightarrow> (bytes \<Rightarrow> bytes) \<Rightarrow> block_id_t \<Rightarrow> nat \<Rightarrow> bytes \<Rightarrow> bytes \<Rightarrow> nat \<Rightarrow> item_ctxt_t
   \<Rightarrow> 'd kv_array_t \<Rightarrow> errno \<times> item_ctxt_t \<times> 'd kv_array_t" where
  "put_from_md5db L md5 block_id file_id table val ttl ctxt ka =
     (if \<not> ka_ok ka \<or> file_id \<ge> ka_file_count ka then (EINVAL, ctxt, ka)
      else case ka_files ka file_id of
             None \<Rightarrow> (EFAULT, ctxt, ka)
           | Some kv \<Rightarrow>
               let (key, ctxt1) = ka_key block_id table ctxt;
                   (r, kv') = kv_put L md5 key val kv;
                   ka1 = ka\<lparr>ka_files := (ka_files ka)(file_id := Some kv')\<rparr>
               in if r \<noteq> 0 then (r, ctxt1, ka1)
                  else if ttl > 0
                  then (case ka_files ka1 (ka_file_count ka) of
                          None \<Rightarrow> (0, ctxt1, ka1)
                        | Some kv_ttl \<Rightarrow>
                            (0, ctxt1, ka1\<lparr>ka_files := (ka_files ka1)(ka_file_count ka :=
                               Some (snd (kv_put L md5 key (le_bytes 4 ttl @ le_bytes 4 file_id) kv_ttl)))\<rparr>))
                  else (0, ctxt1, ka1))"

definition del_from_md5db ::
  "'d leveldb \<Rightarrow> block_id_t \<Rightarrow> nat \<Rightarrow> bytes \<Rightarrow> item_ctxt_t \<Rightarrow> 'd kv_array_t
   \<Rightarrow> errno \<times> item_ctxt_t \<times> 'd kv_array_t" where
  "del_from_md5db L block_id file_id table ctxt ka =
     (if \<not> ka_ok ka \<or> file_id \<ge> ka_file_count ka then (EINVAL, ctxt, ka)
      else case ka_files ka file_id of
             None \<Rightarrow> (EFAULT, ctxt, ka)
           | Some kv \<Rightarrow>
               let (key, ctxt1) = ka_key block_id table ctxt;
                   (r, kv') = kv_del L key kv
               in (r, ctxt1, ka\<lparr>ka_files := (ka_files ka)(file_id := Some kv')\<rparr>))"

definition put_from_binlog ::
  "'d leveldb \<Rightarrow> (bytes \<Rightarrow> bytes) \<Rightarrow> bytes \<Rightarrow> bytes \<Rightarrow> 'd kv_array_t \<Rightarrow> errno \<times> 'd kv_array_t" where
  "put_from_binlog L md5 key val ka =
     (let bl_file_id = ka_file_count ka + 1 in
      if \<not> ka_ok ka then (EINVAL, ka)
      else case ka_files ka bl_file_id of
             None \<Rightarrow> (EFAULT, ka)
           | Some kv \<Rightarrow>
               let (r, kv') = kv_put L md5 key val kv
               in (r, ka\<lparr>ka_files := (ka_files ka)(bl_file_id := Some kv')\<rparr>))"

definition del_from_binlog ::
  "'d leveldb \<Rightarrow> bytes \<Rightarrow> 'd kv_array_t \<Rightarrow> errno \<times> 'd kv_array_t" where
  "del_from_binlog L key ka =
     (let bl_file_id = ka_file_count ka + 1 in
      if \<not> ka_ok ka then (EINVAL, ka)
      else case ka_files ka bl_file_id of
             None \<Rightarrow> (EFAULT, ka)
           | Some kv \<Rightarrow>
               let (r, kv') = kv_del L key kv
               in (r, ka\<lparr>ka_files := (ka_files ka)(bl_file_id := Some kv')\<rparr>))"

section \<open>Lemmas\<close>

lemma kv_data_length [simp, codec_simps]: "length (kv_data_bytes d) = 12"
  by (simp add: kv_data_bytes_def codec_simps)

lemma kv_data_roundtrip [simp, codec_simps]:
  assumes "kv_data_wf d"
  shows "kv_data_of_bytes (kv_data_bytes d) = d"
proof -
  define u where "u = kd_user_key_len d"
  define r where "r = kd_compress_type d + 4 * kd_reserved d"
  have w: "kd_user_key_len d + 16777216 * kd_compress_type d + 67108864 * kd_reserved d = u + 16777216 * r"
    by (simp add: u_def r_def)
  have b: "u < 16777216" "r < 256" "r mod 4 = kd_compress_type d" "r div 4 = kd_reserved d"
    using assms by (simp_all add: kv_data_wf_def u_def r_def)
  have d: "(u + 16777216 * r) div 16777216 = r" "(u + 16777216 * r) mod 16777216 = u" using b(1) by simp_all
  have "(u + 16777216 * r) div 67108864 = (u + 16777216 * r) div 16777216 div 4"
    by (simp add: div_mult2_eq [symmetric])
  moreover have "u + 16777216 * r < 4294967296" using b by simp
  ultimately show ?thesis
    using assms b(3,4) unfolding kv_data_of_bytes_def kv_data_bytes_def w
    by (simp add: kv_data_wf_def codec_simps Let_def d) (simp add: u_def)
qed

end
