(* ===== verification/Content.thy ===== *)
theory Content
  imports Bucket
begin

text \<open>
  The value files of the md5db engine (\<open>content2.h\<close>, \<open>content2.cpp\<close>). A value file is a
  sequence of pages of 1024 bytes; a value occupies consecutive pages from a page number.
  Freed extents are kept in a second file, a table of \<open>free_block_t\<close> entries of eight
  bytes. Entry 0 is the header, its offset field starts the list of unused entries; the
  entries that describe a free extent are also in a multimap ordered by size, which the
  writer searches for the best fit.

  File contents are functions from the byte position (from the byte position of the entry
  for the table). The multimap is the list of its values in iteration order; its keys are
  the table entries at these positions. Results of \<open>pwrite\<close>, \<open>pread\<close>, \<open>fseek\<close>, \<open>fwrite\<close>
  and \<open>fmap_open\<close> are arguments.
\<close>

section \<open>Constants and state\<close>

definition PAGE :: nat where
  [width_simps]: "PAGE = 1024"

definition FREE_BLOCK_PAGE :: nat where
  [width_simps]: "FREE_BLOCK_PAGE = 8192"

definition FREE_BLOCK_INCR :: nat where
  [width_simps]: "FREE_BLOCK_INCR = 8388608"

definition FREE_BLOCK_FILE_MAX_SIZE :: nat where
  [width_simps]: "FREE_BLOCK_FILE_MAX_SIZE = 2147483648"

definition DATA_FILE_MAX_SIZE :: nat where
  [width_simps]: "DATA_FILE_MAX_SIZE = 274876858368"

record free_block_t =
  fb_offset :: nat
  fb_size :: nat

definition fb_step :: nat where
  [width_simps]: "fb_step = 8"

record content2_t =
  ct_file_id :: int
  ct_bytes :: "nat \<Rightarrow> byte"
  ct_flen :: nat
  ct_data_file_size :: nat
  ct_fb :: "nat \<Rightarrow> free_block_t"
  ct_fb_flen :: nat
  ct_fb_file_size :: nat
  ct_fb_ptr_len :: nat
  ct_fb_max :: nat
  ct_fb_list :: "nat list"

text \<open>
  The answers of the operating system: the value \<open>pwrite\<close> returns for an offset and a
  length, whether \<open>pread\<close> works, and for a growth of the table whether \<open>fseek\<close> works, how
  many pages are appended, and whether the table can be mapped again.
\<close>

record content_io =
  io_pwrite :: "nat \<Rightarrow> nat \<Rightarrow> int"
  io_pread :: bool
  io_fseek :: bool
  io_pages :: nat
  io_fmap :: bool

section \<open>The free extents\<close>

text \<open>Insertion into a multimap puts an element after the ones with an equal key.\<close>

definition mm_insert :: "(nat \<Rightarrow> nat) \<Rightarrow> nat \<Rightarrow> nat list \<Rightarrow> nat list" where
  "mm_insert key i xs =
     takeWhile (\<lambda>j. key j \<le> key i) xs @ i # dropWhile (\<lambda>j. key j \<le> key i) xs"

definition mm_upper_bound :: "(nat \<Rightarrow> nat) \<Rightarrow> nat \<Rightarrow> nat list \<Rightarrow> nat option" where
  "mm_upper_bound key v xs = find (\<lambda>j. v < key j) xs"

definition fb_header :: "(nat \<Rightarrow> free_block_t) \<Rightarrow> nat" where
  "fb_header fb = fb_offset (fb 0)"

definition fb_set_header :: "nat \<Rightarrow> (nat \<Rightarrow> free_block_t) \<Rightarrow> (nat \<Rightarrow> free_block_t)" where
  "fb_set_header v fb = fb(0 := (fb 0)\<lparr>fb_offset := v\<rparr>)"

text \<open>The entry \<open>i\<close> becomes the first unused entry.\<close>

definition fb_release :: "nat \<Rightarrow> (nat \<Rightarrow> free_block_t) \<Rightarrow> (nat \<Rightarrow> free_block_t)" where
  "fb_release i fb = fb_set_header i (fb(i := \<lparr>fb_offset = fb_header fb, fb_size = 0\<rparr>))"

text \<open>First loop of \<open>parse_free_block\<close>: collect the extents, link the blank entries.\<close>

function parse_scan ::
  "nat \<Rightarrow> (nat \<Rightarrow> free_block_t) \<Rightarrow> nat list \<Rightarrow> (nat \<Rightarrow> free_block_t) \<times> nat list" where
  "parse_scan i fb merge =
     (if i < fb_step then (fb, merge)
      else if fb_offset (fb i) > 0 \<and> fb_size (fb i) > 0
      then parse_scan (i - fb_step) fb (mm_insert (\<lambda>j. fb_offset (fb j)) i merge)
      else if fb_offset (fb i) = 0
      then parse_scan (i - fb_step)
             (fb_set_header i (fb(i := (fb i)\<lparr>fb_offset := fb_header fb\<rparr>))) merge
      else parse_scan (i - fb_step) fb merge)"
  by pat_completeness auto
termination by (relation "measure fst") (auto simp: fb_step_def)

declare parse_scan.simps [simp del]

text \<open>Second loop: join an extent with the one that follows it directly.\<close>

fun parse_merge ::
  "nat option \<Rightarrow> nat list \<Rightarrow> (nat \<Rightarrow> free_block_t) \<Rightarrow> nat list \<Rightarrow> (nat \<Rightarrow> free_block_t) \<times> nat list" where
  "parse_merge None [] fb out = (fb, out)"
| "parse_merge (Some p) [] fb out = (fb, mm_insert (\<lambda>j. fb_size (fb j)) p out)"
| "parse_merge None (c # cs) fb out = parse_merge (Some c) cs fb out"
| "parse_merge (Some p) (c # cs) fb out =
     (if trunc 32 (fb_offset (fb p) + fb_size (fb p)) = fb_offset (fb c)
      then parse_merge (Some p) cs
             (fb_release c (fb(p := (fb p)\<lparr>fb_size := trunc 32 (fb_size (fb p) + fb_size (fb c))\<rparr>))) out
      else parse_merge (Some c) cs fb (mm_insert (\<lambda>j. fb_size (fb j)) p out))"

definition parse_free_block :: "content2_t \<Rightarrow> content2_t" where
  "parse_free_block ct =
     (let fb0 = (if fb_header (ct_fb ct) = 0
                 then fb_set_header FREE_BLOCK_FILE_MAX_SIZE (ct_fb ct) else ct_fb ct);
          (fb1, merge) = parse_scan (trunc 32 (ct_fb_file_size ct + UINT32_MOD - fb_step)) fb0 [];
          (fb2, out) = parse_merge None merge fb1 []
      in ct\<lparr>ct_fb := fb2, ct_fb_list := out\<rparr>)"

text \<open>Appending zero bytes to the table makes the entries at these positions blank.\<close>

definition fb_blank :: "nat \<Rightarrow> nat \<Rightarrow> (nat \<Rightarrow> free_block_t) \<Rightarrow> (nat \<Rightarrow> free_block_t)" where
  "fb_blank lo hi fb = (\<lambda>i. if lo \<le> i \<and> i < hi then \<lparr>fb_offset = 0, fb_size = 0\<rparr> else fb i)"

text \<open>
  A failed \<open>fmap_open\<close> leaves the table unmapped (\<open>ct_fb_ptr_len\<close> 0); the code would
  fault at the next access, which is outside the states the theorems speak about.
\<close>

definition incr_free_block_file :: "content_io \<Rightarrow> content2_t \<Rightarrow> bool \<times> content2_t" where
  "incr_free_block_file io ct =
     (if ct_fb_ptr_len ct < FREE_BLOCK_INCR \<or> ct_fb_file_size ct \<ge> FREE_BLOCK_FILE_MAX_SIZE
      then (False, ct)
      else if \<not> io_fseek io then (False, ct)
      else let n = min (io_pages io) FREE_BLOCK_PAGE;
               ct1 = ct\<lparr>ct_fb_flen := ct_fb_flen ct + n * PAGE,
                        ct_fb := fb_blank (ct_fb_flen ct) (ct_fb_flen ct + n * PAGE) (ct_fb ct)\<rparr>
           in if n < FREE_BLOCK_PAGE then (False, ct1)
              else let ct2 = ct1\<lparr>ct_fb_file_size := ct_fb_file_size ct1 + FREE_BLOCK_INCR\<rparr> in
                   if \<not> io_fmap io then (False, ct2\<lparr>ct_fb_ptr_len := 0\<rparr>)
                   else let ct3 = ct2\<lparr>ct_fb_ptr_len := ct_fb_flen ct2\<rparr> in
                        if ct_fb_ptr_len ct3 \<noteq> ct_fb_file_size ct3 then (False, ct3)
                        else (True, parse_free_block ct3))"

definition use_free_block :: "nat \<Rightarrow> content2_t \<Rightarrow> nat option \<times> content2_t" where
  "use_free_block sz ct =
     (if ct_fb_max ct < sz then (None, ct)
      else case mm_upper_bound (\<lambda>j. fb_size (ct_fb ct j)) (trunc 32 (sz + UINT32_MOD - 1))
                  (ct_fb_list ct) of
             None \<Rightarrow> (None, ct)
           | Some i \<Rightarrow>
               let b = ct_fb ct i;
                   fb' = (if sz = fb_size b then fb_release i (ct_fb ct)
                          else (ct_fb ct)(i := \<lparr>fb_offset = trunc 32 (fb_offset b + sz),
                                                fb_size = fb_size b - sz\<rparr>));
                   rest = remove1 i (ct_fb_list ct);
                   list' = (if fb_size (fb' i) > 0 then mm_insert (\<lambda>j. fb_size (fb' j)) i rest
                            else rest);
                   max' = (if list' \<noteq> [] then fb_size (fb' (last list')) else 0)
               in (Some (fb_offset b), ct\<lparr>ct_fb := fb', ct_fb_list := list', ct_fb_max := max'\<rparr>))"

definition add_free_block :: "content_io \<Rightarrow> nat \<Rightarrow> nat \<Rightarrow> content2_t \<Rightarrow> bool \<times> content2_t" where
  "add_free_block io sz offset ct =
     (let (ok, ct1) = (if fb_header (ct_fb ct) = FREE_BLOCK_FILE_MAX_SIZE
                       then incr_free_block_file io ct else (True, ct))
      in if \<not> ok then (False, ct1)
         else let i = fb_header (ct_fb ct1);
                  fb' = (fb_set_header (fb_offset (ct_fb ct1 i)) (ct_fb ct1))
                          (i := \<lparr>fb_offset = offset, fb_size = sz\<rparr>)
              in (True, ct1\<lparr>ct_fb := fb',
                            ct_fb_list := mm_insert (\<lambda>j. fb_size (fb' j)) i (ct_fb_list ct1),
                            ct_fb_max := max (ct_fb_max ct1) sz\<rparr>))"

section \<open>The data file\<close>

definition bytes_put :: "(nat \<Rightarrow> byte) \<Rightarrow> nat \<Rightarrow> bytes \<Rightarrow> (nat \<Rightarrow> byte)" where
  "bytes_put f off data =
     (\<lambda>i. if off \<le> i \<and> i < off + length data then data ! (i - off) else f i)"

definition ct_pwrite :: "content_io \<Rightarrow> bytes \<Rightarrow> nat \<Rightarrow> content2_t \<Rightarrow> nat \<times> content2_t" where
  "ct_pwrite io data off ct =
     (let r = io_pwrite io off (length data);
          n = (if r < 0 then 0 else min (nat r) (length data))
      in (nat (r mod int UINT32_MOD),
          ct\<lparr>ct_bytes := bytes_put (ct_bytes ct) off (take n data),
             ct_flen := (if n = 0 then ct_flen ct else max (ct_flen ct) (off + n))\<rparr>))"

definition page_count :: "nat \<Rightarrow> nat" where
  "page_count data_len = data_len div PAGE + (if data_len mod PAGE > 0 then 1 else 0)"

definition page_tail :: "nat \<Rightarrow> nat" where
  "page_tail data_len = (if data_len mod PAGE > 0 then PAGE - data_len mod PAGE else 0)"

definition ct_write_inner ::
  "content_io \<Rightarrow> bytes \<Rightarrow> nat \<Rightarrow> nat \<Rightarrow> content2_t \<Rightarrow> bool \<times> nat \<times> content2_t" where
  "ct_write_inner io data sz tail ct =
     (case use_free_block sz ct of
        (None, ct1) \<Rightarrow>
          (let offset = trunc 32 (ct_data_file_size ct1 div PAGE);
               (pw, ct2) = ct_pwrite io data (ct_data_file_size ct1) ct1
           in if length data \<noteq> pw then (False, offset, ct2)
              else let ct3 = ct2\<lparr>ct_data_file_size := ct_data_file_size ct2 + length data\<rparr>;
                       (pw', ct4) = ct_pwrite io (replicate tail 0) (ct_data_file_size ct3) ct3
                   in if tail \<noteq> pw' then (False, offset, ct4)
                      else (True, offset, ct4\<lparr>ct_data_file_size := ct_data_file_size ct4 + tail\<rparr>))
      | (Some offset, ct1) \<Rightarrow>
          (let (pw, ct2) = ct_pwrite io data (offset * PAGE) ct1
           in (length data = pw, offset, ct2)))"

definition ct_write :: "content_io \<Rightarrow> bytes \<Rightarrow> content2_t \<Rightarrow> bool \<times> nat \<times> content2_t" where
  "ct_write io data ct =
     (let sz = page_count (length data); tail = page_tail (length data) in
      if ct_data_file_size ct > DATA_FILE_MAX_SIZE \<and> ct_fb_max ct < sz then (False, 0, ct)
      else ct_write_inner io data sz tail ct)"

definition ct_update ::
  "content_io \<Rightarrow> nat \<Rightarrow> nat \<Rightarrow> bytes \<Rightarrow> content2_t \<Rightarrow> bool \<times> nat \<times> content2_t" where
  "ct_update io offset old_data_len data ct =
     (let old_size = page_count old_data_len;
          sz = page_count (length data); tail = page_tail (length data) in
      if old_size \<ge> sz
      then (let (pw, ct1) = ct_pwrite io data (offset * PAGE) ct in
            if length data \<noteq> pw then (False, offset, ct1)
            else if old_size > sz
            then (let (ok, ct2) = add_free_block io (old_size - sz) (trunc 32 (offset + sz)) ct1
                  in (ok, offset, ct2))
            else (True, offset, ct1))
      else if ct_data_file_size ct > DATA_FILE_MAX_SIZE \<and> ct_fb_max ct < sz
      then (False, offset, ct)
      else (let (ok, ct1) = add_free_block io old_size offset ct in
            if \<not> ok then (False, offset, ct1)
            else ct_write_inner io data sz tail ct1))"

text \<open>\<open>pread\<close> returns the bytes up to the end of the file.\<close>

definition ct_get :: "content_io \<Rightarrow> nat \<Rightarrow> nat \<Rightarrow> content2_t \<Rightarrow> bytes option" where
  "ct_get io offset data_len ct =
     (let real_offset = offset * PAGE;
          r = min data_len (ct_flen ct - real_offset)
      in if \<not> io_pread io \<or> data_len \<noteq> r then None
         else Some (map (ct_bytes ct) [real_offset..<real_offset + data_len]))"

definition ct_del :: "content_io \<Rightarrow> nat \<Rightarrow> nat \<Rightarrow> content2_t \<Rightarrow> bool \<times> content2_t" where
  "ct_del io offset data_len ct = add_free_block io (page_count data_len) offset ct"

section \<open>Opening\<close>

text \<open>
  The two files on disk and the answers while opening: \<open>co_fopen\<close> for the four calls of
  \<open>fopen\<close> in order, \<open>co_fwrite\<close> the bytes written of a request, \<open>co_fseek\<close> for the two
  seeks, \<open>co_fmap\<close> for the mapping of the table.
\<close>

record content_disk =
  cd_data :: "((nat \<Rightarrow> byte) \<times> nat) option"
  cd_fb :: "((nat \<Rightarrow> free_block_t) \<times> nat) option"

record content_open_io =
  co_fopen :: "nat \<Rightarrow> bool"
  co_fwrite :: "nat \<Rightarrow> nat"
  co_fseek :: "nat \<Rightarrow> bool"
  co_fmap :: bool

definition open_data_file ::
  "content_open_io \<Rightarrow> ((nat \<Rightarrow> byte) \<times> nat) option \<Rightarrow> bool \<times> ((nat \<Rightarrow> byte) \<times> nat) option" where
  "open_data_file io file =
     (case (case file of
              Some f \<Rightarrow> Some f
            | None \<Rightarrow> if \<not> co_fopen io 0 \<or> co_fwrite io PAGE \<noteq> PAGE then None
                      else Some (\<lambda>_. 0, PAGE)) of
        None \<Rightarrow> (False, None)
      | Some (bs, len) \<Rightarrow>
          if \<not> co_fopen io 1 \<or> \<not> co_fseek io 0 then (False, Some (bs, len))
          else let tail = len mod PAGE in
               if tail > 0
               then let tail' = PAGE - tail; w = min tail' (co_fwrite io tail') in
                    (tail' = w, Some (bytes_put bs len (replicate w 0), len + w))
               else (True, Some (bs, len)))"

definition open_fb_file ::
  "content_open_io \<Rightarrow> ((nat \<Rightarrow> free_block_t) \<times> nat) option
   \<Rightarrow> bool \<times> ((nat \<Rightarrow> free_block_t) \<times> nat) option" where
  "open_fb_file io file =
     (case (case file of
              Some f \<Rightarrow> Some f
            | None \<Rightarrow> if \<not> co_fopen io 2 \<or> co_fwrite io PAGE \<noteq> PAGE then None
                      else Some (\<lambda>_. \<lparr>fb_offset = 0, fb_size = 0\<rparr>, FREE_BLOCK_PAGE * PAGE)) of
        None \<Rightarrow> (False, None)
      | Some (fb, len) \<Rightarrow>
          if \<not> co_fopen io 3 \<or> \<not> co_fseek io 1 then (False, Some (fb, len))
          else let m = len mod FREE_BLOCK_INCR in
               if m > 0
               then let incr = FREE_BLOCK_INCR - m;
                        incr_i = incr div PAGE; incr_j = incr mod PAGE in
                    if incr_i > 0 \<and> co_fwrite io PAGE \<noteq> PAGE
                    then (let w = min PAGE (co_fwrite io PAGE) in
                          (False, Some (fb_blank len (len + w) fb, len + w)))
                    else if incr_j > 0 \<and> incr \<noteq> min incr_j (co_fwrite io incr_j)
                    then (let w = incr_i * PAGE + min incr_j (co_fwrite io incr_j) in
                          (False, Some (fb_blank len (len + w) fb, len + w)))
                    else (True, Some (fb_blank len (len + incr) fb, len + incr))
               else (True, Some (fb, len)))"

text \<open>What the constructor leaves of the object, before the files are opened.\<close>

definition content2_new :: content2_t where
  "content2_new = \<lparr>ct_file_id = -1, ct_bytes = (\<lambda>_. 0), ct_flen = 0, ct_data_file_size = 0, ct_fb = (\<lambda>_. \<lparr>fb_offset = 0, fb_size = 0\<rparr>), ct_fb_flen = 0,
     ct_fb_file_size = 0, ct_fb_ptr_len = 0, ct_fb_max = 0, ct_fb_list = []\<rparr>"

definition content2_open ::
  "bytes \<Rightarrow> int \<Rightarrow> content_open_io \<Rightarrow> content_disk \<Rightarrow> content2_t option \<times> content_disk" where
  "content2_open path file_id io disk =
     (if file_id < 0 \<or> path = [] then (None, disk)
      else let (ok, data) = open_data_file io (cd_data disk); disk1 = disk\<lparr>cd_data := data\<rparr> in
           if \<not> ok then (None, disk1)
           else let (ok', fbf) = open_fb_file io (cd_fb disk1); disk2 = disk1\<lparr>cd_fb := fbf\<rparr> in
                if \<not> ok' \<or> \<not> co_fmap io then (None, disk2)
                else case (data, fbf) of
                       (Some (bs, len), Some (fb, fblen)) \<Rightarrow>
                         (Some (parse_free_block
                            (content2_new\<lparr>ct_file_id := file_id, ct_bytes := bs, ct_flen := len,
                               ct_data_file_size := len, ct_fb := fb, ct_fb_flen := fblen,
                               ct_fb_file_size := fblen, ct_fb_ptr_len := fblen\<rparr>)), disk2)
                     | _ \<Rightarrow> (None, disk2))"

end
