(* ===== verification/Content_Correct.thy ===== *)
theory Content_Correct
  imports Content "HOL-Library.Disjoint_Sets" "HOL-Library.Multiset"
begin

text \<open>
  Correctness of the value files: the table of free extents stays well-formed through
  use, release, growth and coalescing, extents in use never overlap a free one, and
  reading returns what was written.
\<close>

section \<open>Well-formed tables\<close>

text \<open>The list of unused entries: it ends at \<open>FREE_BLOCK_FILE_MAX_SIZE\<close>.\<close>

primrec fb_chain :: "(nat \<Rightarrow> free_block_t) \<Rightarrow> nat \<Rightarrow> nat list \<Rightarrow> bool" where
  "fb_chain fb h [] = (h = FREE_BLOCK_FILE_MAX_SIZE)"
| "fb_chain fb h (x # xs) =
     (h = x \<and> x \<noteq> FREE_BLOCK_FILE_MAX_SIZE \<and> fb_chain fb (fb_offset (fb x)) xs)"

definition ents :: "nat \<Rightarrow> nat set" where
  "ents n = {i. 8 dvd i \<and> 0 < i \<and> i < n}"

definition fb_ext :: "(nat \<Rightarrow> free_block_t) \<Rightarrow> nat \<Rightarrow> nat set" where
  "fb_ext fb i = {fb_offset (fb i)..<fb_offset (fb i) + fb_size (fb i)}"

definition tbl :: "(nat \<Rightarrow> free_block_t) \<Rightarrow> nat \<Rightarrow> nat list \<Rightarrow> nat set \<Rightarrow> nat \<Rightarrow> bool" where
  "tbl fb n fl S p \<longleftrightarrow>
     n \<le> FREE_BLOCK_FILE_MAX_SIZE \<and> 8 dvd n
     \<and> fb_chain fb (fb_header fb) fl \<and> distinct fl \<and> set fl \<inter> S = {} \<and> set fl \<union> S \<subseteq> ents n
     \<and> (\<forall>i\<in>ents n - S. fb_size (fb i) = 0)
     \<and> disjoint_family_on (fb_ext fb) S
     \<and> (\<forall>i\<in>S. 0 < fb_size (fb i) \<longrightarrow> 0 < fb_offset (fb i))
     \<and> (\<forall>i\<in>S. 0 < fb_size (fb i) \<longrightarrow> fb_offset (fb i) + fb_size (fb i) \<le> p)"

definition fb_free :: "(nat \<Rightarrow> free_block_t) \<Rightarrow> nat set \<Rightarrow> nat set" where
  "fb_free fb S = (\<Union>i\<in>S. fb_ext fb i)"

definition ct_pages :: "content2_t \<Rightarrow> nat" where
  "ct_pages ct = ct_data_file_size ct div PAGE"

definition ct_free :: "content2_t \<Rightarrow> nat set" where
  "ct_free ct = fb_free (ct_fb ct) (set (ct_fb_list ct))"

definition ct_alloc :: "content2_t \<Rightarrow> nat set" where
  "ct_alloc ct = {1..<ct_pages ct} - ct_free ct"

definition CT_PAGE_LIMIT :: nat where
  [width_simps]: "CT_PAGE_LIMIT = 536870912"

definition ct_inv :: "content2_t \<Rightarrow> bool" where
  "ct_inv ct \<longleftrightarrow>
     (\<exists>fl. tbl (ct_fb ct) (ct_fb_file_size ct) fl (set (ct_fb_list ct)) (ct_pages ct))
     \<and> distinct (ct_fb_list ct) \<and> sorted (map (\<lambda>i. fb_size (ct_fb ct i)) (ct_fb_list ct))
     \<and> (ct_fb_max ct = 0 \<or> (\<exists>i\<in>set (ct_fb_list ct). ct_fb_max ct \<le> fb_size (ct_fb ct i)))
     \<and> ct_fb_flen ct = ct_fb_file_size ct \<and> ct_fb_ptr_len ct = ct_fb_file_size ct
     \<and> FREE_BLOCK_INCR dvd ct_fb_file_size ct \<and> 0 < ct_fb_file_size ct
     \<and> PAGE dvd ct_data_file_size ct \<and> PAGE \<le> ct_data_file_size ct
     \<and> ct_data_file_size ct \<le> ct_flen ct \<and> ct_pages ct \<le> CT_PAGE_LIMIT"

section \<open>Lists of unused entries\<close>

lemma fb_chain_cong:
  "(\<And>x. x \<in> set xs \<Longrightarrow> fb_offset (fb x) = fb_offset (fb' x)) \<Longrightarrow> fb_chain fb h xs = fb_chain fb' h xs"
  by (induction xs arbitrary: h) auto

lemma fb_chain_offset:
  "fb_chain fb h xs \<Longrightarrow> x \<in> set xs \<Longrightarrow> 0 \<notin> set xs \<Longrightarrow> 0 < fb_offset (fb x)"
proof (induction xs arbitrary: h)
  case (Cons y ys)
  then show ?case
    by (cases ys) (auto simp: FREE_BLOCK_FILE_MAX_SIZE_def)
qed simp

lemma ents_bounds: "i \<in> ents n \<Longrightarrow> 0 < i \<and> i < n \<and> 8 dvd i"
  by (simp add: ents_def)

lemma zero_not_ent [simp]: "0 \<notin> ents n"
  by (simp add: ents_def)

lemma ents_nonzero: "i \<in> S \<Longrightarrow> S \<subseteq> ents n \<Longrightarrow> i \<noteq> 0"
  by (auto simp: ents_def)

lemma fb_header_simps [simp]:
  "fb_header (fb_set_header v fb) = v" "i \<noteq> 0 \<Longrightarrow> fb_set_header v fb i = fb i"
  "fb_size (fb_set_header v fb i) = fb_size (fb i)"
  "i \<noteq> 0 \<Longrightarrow> fb_header (fb(i := b)) = fb_header fb"
  by (simp_all add: fb_header_def fb_set_header_def)

lemma fb_release_simps [simp]:
  "i \<noteq> 0 \<Longrightarrow> fb_header (fb_release i fb) = i"
  "i \<noteq> 0 \<Longrightarrow> fb_release i fb i = \<lparr>fb_offset = fb_header fb, fb_size = 0\<rparr>"
  "j \<noteq> 0 \<Longrightarrow> j \<noteq> i \<Longrightarrow> fb_release i fb j = fb j"
  by (simp_all add: fb_release_def)

lemma fb_ext_cong: "fb i = fb' i \<Longrightarrow> fb_ext fb i = fb_ext fb' i"
  by (simp add: fb_ext_def)

lemma fb_free_cong: "(\<And>i. i \<in> S \<Longrightarrow> fb i = fb' i) \<Longrightarrow> fb_free fb S = fb_free fb' S"
  by (simp add: fb_free_def fb_ext_def)

lemma fb_free_insert: "fb_free fb (insert i S) = fb_ext fb i \<union> fb_free fb S"
  by (simp add: fb_free_def)

lemma tblD:
  assumes "tbl fb n fl S p"
  shows "n \<le> FREE_BLOCK_FILE_MAX_SIZE" "8 dvd n" "fb_chain fb (fb_header fb) fl" "distinct fl"
    "set fl \<inter> S = {}" "set fl \<subseteq> ents n" "S \<subseteq> ents n"
    "\<And>i. i \<in> ents n \<Longrightarrow> i \<notin> S \<Longrightarrow> fb_size (fb i) = 0"
    "disjoint_family_on (fb_ext fb) S"
    "\<And>i. i \<in> S \<Longrightarrow> 0 < fb_size (fb i) \<Longrightarrow> 0 < fb_offset (fb i)"
    "\<And>i. i \<in> S \<Longrightarrow> 0 < fb_size (fb i) \<Longrightarrow> fb_offset (fb i) + fb_size (fb i) \<le> p"
  using assms by (auto simp: tbl_def)

lemma ent_neq_max: "tbl fb n fl S p \<Longrightarrow> i \<in> ents n \<Longrightarrow> i \<noteq> FREE_BLOCK_FILE_MAX_SIZE"
  using tblD(1) by (fastforce simp: ents_def)

lemma disjoint_family_on_ext_cong:
  assumes "disjoint_family_on (fb_ext fb) S" "\<And>i. i \<in> T \<Longrightarrow> i \<in> S \<and> fb_ext fb' i \<subseteq> fb_ext fb i"
  shows "disjoint_family_on (fb_ext fb') T"
  using assms unfolding disjoint_family_on_def by blast

lemma tbl_release:
  assumes t: "tbl fb n fl S p" and i: "i \<in> S"
  shows "tbl (fb_release i fb) n (i # fl) (S - {i}) p"
proof -
  note d = tblD [OF t]
  have i0: "i \<noteq> 0" "i \<in> ents n" using d(7) i by (auto intro: ccontr)
  have same: "fb_release i fb j = fb j" if "j \<in> set fl \<union> S" "j \<noteq> i" for j
    using that ents_nonzero [of j "set fl \<union> S" n] d(6,7) by (intro fb_release_simps(3)) auto
  have "i \<notin> set fl" using d(5) i by blast
  then have "fb_offset (fb_release i fb j) = fb_offset (fb j)" if "j \<in> set fl" for j
    using that same [of j] by (cases "j = i") auto
  then have "fb_chain (fb_release i fb) (fb_header fb) fl"
    using d(3) fb_chain_cong by metis
  moreover have "disjoint_family_on (fb_ext (fb_release i fb)) (S - {i})"
    using d(9) same by (elim disjoint_family_on_ext_cong) (auto simp: fb_ext_def)
  moreover have "fb_size (fb_release i fb j) = 0" if "j \<in> ents n - (S - {i})" for j
    using that d(8) i0 by (cases "j = i") (auto simp: ents_def)
  ultimately show ?thesis
    using d i i0 same ent_neq_max [OF t i0(2)] unfolding tbl_def by auto
qed

section \<open>Multimaps\<close>

lemma mm_insert_mset: "mset (mm_insert key i xs) = add_mset i (mset xs)"
proof -
  have "mset (takeWhile P xs) + mset (dropWhile P xs) = mset xs" for P
    by (metis mset_append takeWhile_dropWhile_id)
  then show ?thesis by (simp add: mm_insert_def)
qed

lemma mm_insert_set [simp]: "set (mm_insert key i xs) = insert i (set xs)"
  by (metis mm_insert_mset set_mset_add_mset_insert set_mset_mset)

lemma mm_insert_distinct [simp]: "distinct (mm_insert key i xs) \<longleftrightarrow> distinct (i # xs)"
  by (metis mm_insert_mset mset.simps(2) mset_eq_imp_distinct_iff)

lemma sorted_mid:
  assumes "sorted (map key (t @ d))" "\<forall>j\<in>set t. key j \<le> key i" "\<forall>j\<in>set d. key i \<le> key j"
  shows "sorted (map key (t @ i # d))"
  using assms by (auto simp: sorted_append)

lemma sorted_dropWhile_above:
  assumes "sorted (map key xs)" "j \<in> set (dropWhile (\<lambda>j. key j \<le> v) xs)"
  shows "(v :: nat) < key j"
  using assms
proof (induction xs)
  case (Cons x xs)
  then show ?case by (auto split: if_splits)
qed simp

lemma mm_insert_sorted:
  assumes "sorted (map key xs)"
  shows "sorted (map key (mm_insert key i xs))"
  unfolding mm_insert_def
proof (rule sorted_mid)
  show "sorted (map key (takeWhile (\<lambda>j. key j \<le> key i) xs @ dropWhile (\<lambda>j. key j \<le> key i) xs))"
    using assms by (simp only: takeWhile_dropWhile_id)
  show "\<forall>j\<in>set (takeWhile (\<lambda>j. key j \<le> key i) xs). key j \<le> key i" by (meson set_takeWhileD)
  show "\<forall>j\<in>set (dropWhile (\<lambda>j. key j \<le> key i) xs). key i \<le> key j"
    using sorted_dropWhile_above [OF assms] less_imp_le by blast
qed

lemma mm_upper_bound_best:
  assumes "sorted (map key xs)" "mm_upper_bound key v xs = Some i"
  shows "i \<in> set xs" "v < key i" "\<And>j. j \<in> set xs \<Longrightarrow> v < key j \<Longrightarrow> key i \<le> key j"
proof -
  obtain k where k: "k < length xs" "v < key (xs ! k)" "i = xs ! k" "\<forall>j<k. \<not> v < key (xs ! j)"
    using assms(2) unfolding mm_upper_bound_def find_Some_iff by blast
  then show "i \<in> set xs" "v < key i" by simp_all
  fix j assume "j \<in> set xs" "v < key j"
  then obtain l where "l < length xs" "j = xs ! l" by (auto simp: in_set_conv_nth)
  with k \<open>v < key j\<close> have "k \<le> l" by (metis not_le)
  then show "key i \<le> key j"
    using assms(1) k \<open>l < _\<close> \<open>j = _\<close> sorted_nth_mono [of "map key xs" k l] by simp
qed

lemma mm_upper_bound_None: "mm_upper_bound key v xs = None \<longleftrightarrow> (\<forall>j\<in>set xs. key j \<le> v)"
  by (auto simp: mm_upper_bound_def find_None_iff not_less)

lemma sorted_remove1_map: "sorted (map key xs) \<Longrightarrow> sorted (map key (remove1 i xs))"
proof (induction xs)
  case (Cons x xs)
  then show ?case by (auto dest: notin_set_remove1)
qed simp

section \<open>Coalescing\<close>

lemma parse_scan_correct:
  assumes "n \<le> FREE_BLOCK_FILE_MAX_SIZE" "8 dvd i" "i < n"
    and "fb_chain fb (fb_header fb) fl" "distinct fl" "set fl \<subseteq> ents n"
    and "\<forall>j\<in>ents n. 0 < fb_size (fb j) \<longrightarrow> 0 < fb_offset (fb j)" "\<forall>j\<in>set fl. fb_size (fb j) = 0"
    and "set M = {j \<in> ents n. i < j \<and> 0 < fb_size (fb j)}" "distinct M"
    and "parse_scan i fb M = (fb', M')"
  shows "\<exists>fl'. fb_chain fb' (fb_header fb') fl' \<and> distinct fl' \<and> set fl' \<subseteq> ents n
    \<and> (\<forall>j\<in>set fl'. fb_size (fb' j) = 0)
    \<and> (\<forall>j\<in>ents n. fb_size (fb' j) = fb_size (fb j) \<and> (0 < fb_size (fb j) \<longrightarrow> fb' j = fb j))
    \<and> set M' = {j \<in> ents n. 0 < fb_size (fb j)} \<and> distinct M'"
  using assms(2-)
proof (induction i fb M arbitrary: fl rule: parse_scan.induct)
  case (1 i fb M)
  show ?case
  proof (cases "i < fb_step")
    case True
    then have "i = 0" using 1(4) by (auto simp: fb_step_def elim!: dvdE)
    then have "{j \<in> ents n. i < j \<and> 0 < fb_size (fb j)} = {j \<in> ents n. 0 < fb_size (fb j)}"
      by (auto simp: ents_def)
    then show ?thesis using True 1(6-) by (auto simp: parse_scan.simps [of i])
  next
    case False
    note step = 1(13) [unfolded parse_scan.simps [of i]]
    have e: "i \<in> ents n" using False 1(4,5) by (auto simp: ents_def fb_step_def)
    have i8: "8 dvd i - fb_step" "i - fb_step < n" using 1(4,5) by (auto simp: fb_step_def dvd_diff_nat)
    have up: "{j \<in> ents n. i - fb_step < j \<and> P j} = {j \<in> ents n. i < j \<and> P j} \<union> {j. j = i \<and> P j}" for P
      using e 1(4) False by (auto simp: ents_def fb_step_def elim!: dvdE)
    have iM: "i \<notin> set M" using 1(11) by simp
    consider (ext) "0 < fb_offset (fb i)" "0 < fb_size (fb i)" | (blank) "fb_offset (fb i) = 0" "fb_size (fb i) = 0"
      | (used) "0 < fb_offset (fb i)" "fb_size (fb i) = 0"
      using 1(9) e by fastforce
    then show ?thesis
    proof cases
      case ext
      let ?M = "mm_insert (\<lambda>j. fb_offset (fb j)) i M"
      have "set ?M = {j \<in> ents n. i - fb_step < j \<and> 0 < fb_size (fb j)}" "distinct ?M"
        using 1(11,12) up ext iM by auto
      moreover have "parse_scan (i - fb_step) fb ?M = (fb', M')" using step False ext by simp
      ultimately show ?thesis using 1(1) [OF False conjI [OF ext] i8 1(6-10)] by simp
    next
      case blank
      let ?fb = "fb_set_header i (fb(i := (fb i)\<lparr>fb_offset := fb_header fb\<rparr>))"
      have single: "{j. j = i \<and> 0 < fb_size (fb j)} = {}" using blank by auto
      have i0: "i \<noteq> 0" using e by (auto simp: ents_def)
      have nfl: "i \<notin> set fl"
        using fb_chain_offset [OF 1(6), of i] ents_nonzero [OF _ 1(8)] blank(1) by force
      have sz: "fb_size (?fb j) = fb_size (fb j)" for j by simp
      have ch: "fb_chain ?fb (fb_header ?fb) (i # fl)"
      proof -
        have "fb_chain ?fb (fb_header fb) fl"
          using 1(6,8) nfl by (subst fb_chain_cong [where fb' = fb]) (auto simp: fb_set_header_def ents_def)
        then show ?thesis using i0 e assms(1) by (simp add: ents_def)
      qed
      have off: "\<forall>j\<in>ents n. 0 < fb_size (?fb j) \<longrightarrow> 0 < fb_offset (?fb j)"
        using 1(9) blank by (auto simp: fb_set_header_def)
      have m: "set M = {j \<in> ents n. i - fb_step < j \<and> 0 < fb_size (?fb j)}"
        unfolding sz up single by (simp only: 1(11) Un_empty_right)
      have run: "parse_scan (i - fb_step) ?fb M = (fb', M')" using step False blank by simp
      have fl': "distinct (i # fl)" "set (i # fl) \<subseteq> ents n" "\<forall>j\<in>set (i # fl). fb_size (?fb j) = 0"
        using 1(7,8,10) nfl e blank by auto
      have keep: "0 < fb_size (fb j) \<Longrightarrow> j \<in> ents n \<Longrightarrow> ?fb j = fb j" for j
        using blank by (auto simp: fb_set_header_def)
      have nx: "\<not> (0 < fb_offset (fb i) \<and> 0 < fb_size (fb i))" using blank by simp
      obtain fl2 where "fb_chain fb' (fb_header fb') fl2 \<and> distinct fl2 \<and> set fl2 \<subseteq> ents n
          \<and> (\<forall>j\<in>set fl2. fb_size (fb' j) = 0)
          \<and> (\<forall>j\<in>ents n. fb_size (fb' j) = fb_size (?fb j) \<and> (0 < fb_size (?fb j) \<longrightarrow> fb' j = ?fb j))
          \<and> set M' = {j \<in> ents n. 0 < fb_size (?fb j)} \<and> distinct M'"
        using 1(2) [OF False nx blank(1) i8 ch fl'(1,2) off fl'(3) m 1(12) run] by blast
      then show ?thesis using keep unfolding sz by (intro exI [of _ fl2]) auto
    next
      case used
      have single: "{j. j = i \<and> 0 < fb_size (fb j)} = {}" using used by auto
      have "set M = {j \<in> ents n. i - fb_step < j \<and> 0 < fb_size (fb j)}"
        unfolding up single by (simp only: 1(11) Un_empty_right)
      moreover have "parse_scan (i - fb_step) fb M = (fb', M')" using step False used by simp
      ultimately show ?thesis using 1(3) [OF False _ _ i8 1(6-10)] 1(12) used by simp
    qed
  qed
qed

text \<open>Changing the extent of an entry that describes one.\<close>

lemma tbl_update:
  assumes t: "tbl fb n fl S p" and i: "i \<in> S"
    and ext: "fb_ext (fb(i := b)) i \<inter> (\<Union>j\<in>S - {i}. fb_ext fb j) = {}"
    and b: "0 < fb_size b \<Longrightarrow> 0 < fb_offset b \<and> fb_offset b + fb_size b \<le> p"
  shows "tbl (fb(i := b)) n fl S p"
proof -
  note d = tblD [OF t]
  have i0: "i \<noteq> 0" "i \<notin> set fl" using ents_nonzero [OF i d(7)] d(5) i by blast+
  have "fb_chain (fb(i := b)) (fb_header fb) fl"
    using d(3) i0(2) fb_chain_cong [of fl "fb(i := b)" fb] by (metis fun_upd_other)
  moreover have "disjoint_family_on (fb_ext (fb(i := b))) S"
    unfolding disjoint_family_on_def
  proof (intro ballI impI)
    fix j k assume jk: "j \<in> S" "k \<in> S" "j \<noteq> k"
    have "fb_ext (fb(i := b)) l = fb_ext fb l" if "l \<noteq> i" for l using that by (simp add: fb_ext_def)
    then show "fb_ext (fb(i := b)) j \<inter> fb_ext (fb(i := b)) k = {}"
      using jk d(9) ext unfolding disjoint_family_on_def by (cases "j = i"; cases "k = i") auto
  qed
  ultimately show ?thesis using d i i0 b unfolding tbl_def by auto
qed

lemma tbl_mono: "tbl fb n fl S p \<Longrightarrow> p \<le> q \<Longrightarrow> tbl fb n fl S q"
  unfolding tbl_def by fastforce

lemma fb_ext_disjoint_rest:
  assumes "disjoint_family_on (fb_ext fb) S" "i \<in> S"
  shows "fb_ext fb i \<inter> (\<Union>j\<in>S - {i}. fb_ext fb j) = {}"
  using assms unfolding disjoint_family_on_def by auto

text \<open>Joining the extent of \<open>c\<close> to the one of \<open>q\<close> that ends where it starts.\<close>

lemma tbl_join:
  assumes t: "tbl fb n fl S p" and q: "q \<in> S" "c \<in> S" "q \<noteq> c"
    and pos: "0 < fb_size (fb q)" "0 < fb_size (fb c)"
    and adj: "fb_offset (fb q) + fb_size (fb q) = fb_offset (fb c)"
    and fb': "fb' = fb_release c (fb(q := (fb q)\<lparr>fb_size := fb_size (fb q) + fb_size (fb c)\<rparr>))"
  shows "tbl fb' n (c # fl) (S - {c}) p" "fb_free fb' (S - {c}) = fb_free fb S"
    "\<And>j. j \<in> S - {c, q} \<Longrightarrow> fb' j = fb j" "fb_size (fb' q) = fb_size (fb q) + fb_size (fb c)"
proof -
  note d = tblD [OF t]
  let ?b = "(fb q)\<lparr>fb_size := fb_size (fb q) + fb_size (fb c)\<rparr>"
  let ?fb = "fb(q := ?b)"
  have nz: "j \<in> S \<Longrightarrow> j \<noteq> 0" for j using ents_nonzero d(7) by blast
  have eq: "fb_ext ?fb q = fb_ext fb q \<union> fb_ext fb c" using adj by (auto simp: fb_ext_def)
  have r: "tbl (fb_release c fb) n (c # fl) (S - {c}) p" by (rule tbl_release [OF t q(2)])
  have comm: "fb' = (fb_release c fb)(q := ?b)"
    using q nz by (auto simp: fb' fb_release_def fb_set_header_def fb_header_def fun_eq_iff)
  have o: "fb_release c fb j = fb j" if "j \<in> S - {c}" for j using that nz by simp
  have "fb_ext fb' q = fb_ext fb q \<union> fb_ext fb c"
    using eq by (simp add: comm fb_ext_def)
  moreover have "(\<Union>j\<in>S - {c} - {q}. fb_ext (fb_release c fb) j) = (\<Union>j\<in>S - {c} - {q}. fb_ext fb j)"
    using o by (simp add: fb_ext_def)
  moreover have "(fb_ext fb q \<union> fb_ext fb c) \<inter> (\<Union>j\<in>S - {c} - {q}. fb_ext fb j) = {}"
    using d(9) q unfolding disjoint_family_on_def by blast
  ultimately have dis: "fb_ext fb' q \<inter> (\<Union>j\<in>S - {c} - {q}. fb_ext (fb_release c fb) j) = {}" by simp
  have "fb_offset ?b + fb_size ?b \<le> p" "0 < fb_offset ?b"
    using d(11) [OF q(2) pos(2)] d(10) [OF q(1) pos(1)] adj by simp_all
  then show "tbl fb' n (c # fl) (S - {c}) p"
    using tbl_update [OF r, of q ?b] q dis unfolding comm by auto
  show fr: "\<And>j. j \<in> S - {c, q} \<Longrightarrow> fb' j = fb j" using o by (simp add: comm)
  show "fb_size (fb' q) = fb_size (fb q) + fb_size (fb c)" by (simp add: comm)
  have "fb_free fb' (S - {c}) = fb_ext fb' q \<union> (\<Union>j\<in>S - {c, q}. fb_ext fb' j)"
    using q by (auto simp: fb_free_def)
  also have "(\<Union>j\<in>S - {c, q}. fb_ext fb' j) = (\<Union>j\<in>S - {c, q}. fb_ext fb j)"
    using fr by (simp add: fb_ext_def)
  finally show "fb_free fb' (S - {c}) = fb_free fb S"
    using q \<open>fb_ext fb' q = _\<close> by (auto simp: fb_free_def)
qed

lemma parse_merge_correct:
  assumes "tbl fb n fl (set out \<union> set_option pr \<union> set cs) p"
    and "distinct (out @ (case pr of None \<Rightarrow> [] | Some q \<Rightarrow> [q]) @ cs)"
    and "sorted (map (\<lambda>i. fb_size (fb i)) out)"
    and "\<forall>i \<in> set out \<union> set_option pr \<union> set cs. 0 < fb_size (fb i)"
    and "p < 4294967296" and "parse_merge pr cs fb out = (fb', out')"
  shows "(\<exists>fl'. tbl fb' n fl' (set out') p) \<and> distinct out'
    \<and> sorted (map (\<lambda>i. fb_size (fb' i)) out')
    \<and> fb_free fb' (set out') = fb_free fb (set out \<union> set_option pr \<union> set cs)
    \<and> (\<forall>i \<in> set out \<union> set_option pr \<union> set cs. \<exists>j\<in>set out'. fb_size (fb i) \<le> fb_size (fb' j))"
  using assms
proof (induction pr cs fb out arbitrary: fl rule: parse_merge.induct)
  case (1 fb out)
  then show ?case by auto
next
  case (2 q fb out)
  have "sorted (map (\<lambda>j. fb_size (fb j)) (mm_insert (\<lambda>j. fb_size (fb j)) q out))"
    by (rule mm_insert_sorted) (use 2 in simp)
  then show ?case using 2 by auto
next
  case (3 c cs fb out)
  then show ?case by simp
next
  case (4 q c cs fb out)
  let ?S = "set out \<union> {q} \<union> set (c # cs)"
  note t = 4(3) [simplified option.set]
  have pos: "0 < fb_size (fb q)" "0 < fb_size (fb c)" using 4(6) by auto
  have "fb_offset (fb q) + fb_size (fb q) \<le> p" using tblD(11) [OF t, of q] pos by simp
  then have tr: "trunc 32 (fb_offset (fb q) + fb_size (fb q)) = fb_offset (fb q) + fb_size (fb q)"
    using 4(7) by simp
  show ?case
  proof (cases "fb_offset (fb q) + fb_size (fb q) = fb_offset (fb c)")
    case adj: True
    have "fb_offset (fb c) + fb_size (fb c) \<le> p" using tblD(11) [OF t, of c] pos by simp
    then have tr2: "trunc 32 (fb_size (fb q) + fb_size (fb c)) = fb_size (fb q) + fb_size (fb c)"
      using 4(7) adj by (intro trunc_id) simp
    define fb1 where "fb1 = fb_release c (fb(q := (fb q)\<lparr>fb_size := fb_size (fb q) + fb_size (fb c)\<rparr>))"
    have S': "?S - {c} = set out \<union> set_option (Some q) \<union> set cs" using 4(4) by auto
    have qS: "q \<in> ?S" "c \<in> ?S" "q \<noteq> c" using 4(4) by auto
    have t': "tbl fb n fl ?S p" using t by (simp add: insert_commute)
    note j = tbl_join [OF t' qS pos adj fb1_def]
    have same: "fb1 i = fb i" if "i \<in> set out \<union> set cs" for i
      using that 4(4) by (intro j(3)) auto
    have run: "parse_merge (Some q) cs fb1 out = (fb', out')"
      using 4(8) adj tr tr2 by (simp add: fb1_def)
    have so: "sorted (map (\<lambda>i. fb_size (fb1 i)) out)"
      using 4(5) same by (simp cong: map_cong)
    have ps: "\<forall>i\<in>set out \<union> set_option (Some q) \<union> set cs. 0 < fb_size (fb1 i)"
      using 4(6) same j(4) pos by auto
    have di: "distinct (out @ (case Some q of None \<Rightarrow> [] | Some q \<Rightarrow> [q]) @ cs)" using 4(4) by auto
    have guard: "trunc 32 (fb_offset (fb q) + fb_size (fb q)) = fb_offset (fb c)" using adj tr by simp
    have IH: "(\<exists>fl'. tbl fb' n fl' (set out') p) \<and> distinct out'
      \<and> sorted (map (\<lambda>i. fb_size (fb' i)) out')
      \<and> fb_free fb' (set out') = fb_free fb1 (set out \<union> set_option (Some q) \<union> set cs)
      \<and> (\<forall>i \<in> set out \<union> set_option (Some q) \<union> set cs. \<exists>j\<in>set out'. fb_size (fb1 i) \<le> fb_size (fb' j))"
      by (rule 4(1) [OF guard, unfolded tr2, folded fb1_def, OF j(1) [unfolded S'] di so ps 4(7) run])
    have "\<forall>i\<in>set out \<union> set_option (Some q) \<union> set (c # cs). \<exists>j\<in>set out'. fb_size (fb i) \<le> fb_size (fb' j)"
    proof
      fix i assume i: "i \<in> set out \<union> set_option (Some q) \<union> set (c # cs)"
      let ?k = "if i = c then q else i"
      have "?k \<in> set out \<union> set_option (Some q) \<union> set cs" using i by auto
      then obtain l where l: "l \<in> set out'" "fb_size (fb1 ?k) \<le> fb_size (fb' l)" using IH by blast
      have "fb_size (fb i) \<le> fb_size (fb1 ?k)" using i j(4) same by auto
      with l show "\<exists>j\<in>set out'. fb_size (fb i) \<le> fb_size (fb' j)" by (meson order_trans)
    qed
    moreover have "fb_free fb' (set out') = fb_free fb (set out \<union> set_option (Some q) \<union> set (c # cs))"
      using IH j(2) S' by simp
    ultimately show ?thesis using IH by blast
  next
    case False
    let ?out = "mm_insert (\<lambda>j. fb_size (fb j)) q out"
    have "parse_merge (Some c) cs fb ?out = (fb', out')" using 4(8) False tr by simp
    moreover have "sorted (map (\<lambda>i. fb_size (fb i)) ?out)" by (rule mm_insert_sorted) (rule 4(5))
    moreover have "set ?out \<union> set_option (Some c) \<union> set cs = set out \<union> set_option (Some q) \<union> set (c # cs)"
      by auto
    ultimately show ?thesis using 4(2) [of fl] 4(3,4,6,7) False tr by auto
  qed
qed

text \<open>What \<open>parse_free_block\<close> relies on when it reads a table.\<close>

definition pre_parse :: "(nat \<Rightarrow> free_block_t) \<Rightarrow> nat \<Rightarrow> nat list \<Rightarrow> nat \<Rightarrow> bool" where
  "pre_parse fb n fl p \<longleftrightarrow>
     fb_step \<le> n \<and> n \<le> FREE_BLOCK_FILE_MAX_SIZE \<and> 8 dvd n
     \<and> (fb_header fb = 0 \<and> fl = [] \<or> fb_header fb \<noteq> 0 \<and> fb_chain fb (fb_header fb) fl)
     \<and> distinct fl \<and> set fl \<subseteq> ents n \<and> (\<forall>j\<in>set fl. fb_size (fb j) = 0)
     \<and> (\<forall>j\<in>ents n. 0 < fb_size (fb j) \<longrightarrow> 0 < fb_offset (fb j) \<and> fb_offset (fb j) + fb_size (fb j) \<le> p)
     \<and> disjoint_family_on (fb_ext fb) {j \<in> ents n. 0 < fb_size (fb j)}"

lemma parse_free_block_correct:
  assumes pre: "pre_parse (ct_fb ct) (ct_fb_file_size ct) fl p" and p: "p < 4294967296"
    and run: "parse_free_block ct = ct'"
  shows "\<exists>fb' out. ct' = ct\<lparr>ct_fb := fb', ct_fb_list := out\<rparr>
    \<and> (\<exists>fl'. tbl fb' (ct_fb_file_size ct) fl' (set out) p)
    \<and> distinct out \<and> sorted (map (\<lambda>i. fb_size (fb' i)) out)
    \<and> fb_free fb' (set out) = fb_free (ct_fb ct) {j \<in> ents (ct_fb_file_size ct). 0 < fb_size (ct_fb ct j)}
    \<and> (\<forall>i\<in>ents (ct_fb_file_size ct). 0 < fb_size (ct_fb ct i) \<longrightarrow>
         (\<exists>j\<in>set out. fb_size (ct_fb ct i) \<le> fb_size (fb' j)))"
proof -
  let ?n = "ct_fb_file_size ct" and ?fb = "ct_fb ct"
  define fb0 where "fb0 = (if fb_header ?fb = 0 then fb_set_header FREE_BLOCK_FILE_MAX_SIZE ?fb else ?fb)"
  have n: "fb_step \<le> ?n" "?n \<le> FREE_BLOCK_FILE_MAX_SIZE" "8 dvd ?n"
    using pre by (simp_all add: pre_parse_def)
  have start: "trunc 32 (?n + UINT32_MOD - fb_step) = ?n - fb_step"
    using n by (simp add: trunc_def width_simps le_mod_geq)
  have fb0: "fb0 j = ?fb j" if "j \<in> ents ?n" for j
    using that by (auto simp: fb0_def ents_def)
  have ch: "fb_chain fb0 (fb_header fb0) fl"
    using pre by (auto simp: pre_parse_def fb0_def FREE_BLOCK_FILE_MAX_SIZE_def)
  obtain fb1 M where sc: "parse_scan (?n - fb_step) fb0 [] = (fb1, M)" by force
  have "\<exists>fl'. fb_chain fb1 (fb_header fb1) fl' \<and> distinct fl' \<and> set fl' \<subseteq> ents ?n
    \<and> (\<forall>j\<in>set fl'. fb_size (fb1 j) = 0)
    \<and> (\<forall>j\<in>ents ?n. fb_size (fb1 j) = fb_size (fb0 j) \<and> (0 < fb_size (fb0 j) \<longrightarrow> fb1 j = fb0 j))
    \<and> set M = {j \<in> ents ?n. 0 < fb_size (fb0 j)} \<and> distinct M"
  proof (rule parse_scan_correct [OF n(2) _ _ ch _ _ _ _ _ _ sc])
    show "8 dvd ?n - fb_step" "?n - fb_step < ?n" using n by (auto simp: fb_step_def dvd_diff_nat)
    show "distinct fl" "set fl \<subseteq> ents ?n" using pre by (simp_all add: pre_parse_def)
    show "\<forall>j\<in>ents ?n. 0 < fb_size (fb0 j) \<longrightarrow> 0 < fb_offset (fb0 j)" "\<forall>j\<in>set fl. fb_size (fb0 j) = 0"
      using pre fb0 unfolding pre_parse_def by (simp, metis subsetD)
    have "\<not> ?n - fb_step < j" if "j \<in> ents ?n" for j
      using that n by (auto simp: ents_def fb_step_def elim!: dvdE)
    then show "set [] = {j \<in> ents ?n. ?n - fb_step < j \<and> 0 < fb_size (fb0 j)}" by auto
  qed simp
  then obtain fl1 where f1: "fb_chain fb1 (fb_header fb1) fl1" "distinct fl1" "set fl1 \<subseteq> ents ?n"
    "\<forall>j\<in>set fl1. fb_size (fb1 j) = 0"
    "\<forall>j\<in>ents ?n. fb_size (fb1 j) = fb_size (?fb j) \<and> (0 < fb_size (?fb j) \<longrightarrow> fb1 j = ?fb j)"
    "set M = {j \<in> ents ?n. 0 < fb_size (?fb j)}" "distinct M"
    using fb0 by (auto cong: conj_cong)
  have M: "fb1 j = ?fb j" if "j \<in> set M" for j using that f1(5,6) by blast
  have "disjoint_family_on (fb_ext ?fb) (set M)" using pre unfolding pre_parse_def f1(6) by blast
  then have "disjoint_family_on (fb_ext fb1) (set M)"
    using M by (elim disjoint_family_on_ext_cong) (simp add: fb_ext_def)
  moreover have "set fl1 \<inter> set M = {}" using f1(4) M f1(6) by fastforce
  moreover have "fb_size (fb1 i) = 0" if "i \<in> ents ?n - set M" for i using that f1(5,6) by simp
  moreover have "0 < fb_offset (fb1 i) \<and> fb_offset (fb1 i) + fb_size (fb1 i) \<le> p" if "i \<in> set M" for i
    using that M [OF that] pre f1(6) unfolding pre_parse_def by auto
  moreover have "set M \<subseteq> ents ?n" using f1(6) by auto
  ultimately have t: "tbl fb1 ?n fl1 (set M) p"
    using n f1(1-3) unfolding tbl_def by blast
  obtain fb2 out where mg: "parse_merge None M fb1 [] = (fb2, out)" by force
  have pos: "\<forall>i\<in>set M. 0 < fb_size (fb1 i)" using M f1(6) by auto
  have "(\<exists>fl'. tbl fb2 ?n fl' (set out) p) \<and> distinct out \<and> sorted (map (\<lambda>i. fb_size (fb2 i)) out)
    \<and> fb_free fb2 (set out) = fb_free fb1 (set M)
    \<and> (\<forall>i\<in>set M. \<exists>j\<in>set out. fb_size (fb1 i) \<le> fb_size (fb2 j))"
    using parse_merge_correct [where pr = None and out = "[]", OF _ _ _ _ p mg] t f1(7) pos by simp
  moreover have "fb_free fb1 (set M) = fb_free ?fb {j \<in> ents ?n. 0 < fb_size (?fb j)}"
    using fb_free_cong [of "set M" fb1 ?fb] M f1(6) by simp
  moreover have "ct' = ct\<lparr>ct_fb := fb2, ct_fb_list := out\<rparr>"
    using run sc mg start by (simp add: parse_free_block_def fb0_def [symmetric])
  moreover have "fb_size (fb1 i) = fb_size (?fb i)" if "i \<in> set M" for i using M [OF that] by simp
  ultimately show ?thesis using f1(6) by (intro exI [of _ fb2] exI [of _ out]) auto
qed

lemma parse_scan_header:
  assumes "parse_scan i fb M = (fb', M')" "i < FREE_BLOCK_FILE_MAX_SIZE"
    "fb_header fb \<noteq> FREE_BLOCK_FILE_MAX_SIZE"
  shows "fb_header fb' \<noteq> FREE_BLOCK_FILE_MAX_SIZE"
  using assms
proof (induction i fb M rule: parse_scan.induct)
  case (1 i fb M)
  note step = 1(4) [unfolded parse_scan.simps [of i]]
  have "i - fb_step < FREE_BLOCK_FILE_MAX_SIZE" using 1(5) by simp
  then show ?case using 1(1-3,5,6) step by (auto split: if_splits)
qed

lemma parse_scan_range:
  assumes "parse_scan i fb M = (fb', M')" "c \<in> set M'"
  shows "c \<in> set M \<or> 0 < c \<and> c \<le> i"
  using assms
proof (induction i fb M rule: parse_scan.induct)
  case (1 i fb M)
  note step = 1(4) [unfolded parse_scan.simps [of i]]
  show ?case
  proof (cases "i < fb_step")
    case False
    then have "0 < i" by (simp add: fb_step_def)
    then show ?thesis using 1(1-3) [OF False] step False 1(5) by (auto split: if_splits)
  qed (use step 1(5) in simp)
qed

lemma parse_merge_header:
  assumes "parse_merge pr cs fb out = (fb', out')"
    "\<forall>c \<in> set_option pr \<union> set cs. c \<noteq> 0 \<and> c \<noteq> FREE_BLOCK_FILE_MAX_SIZE"
    "fb_header fb \<noteq> FREE_BLOCK_FILE_MAX_SIZE"
  shows "fb_header fb' \<noteq> FREE_BLOCK_FILE_MAX_SIZE"
  using assms
proof (induction pr cs fb out rule: parse_merge.induct)
  case (4 q c cs fb out)
  then show ?case by (auto split: if_splits)
qed auto

section \<open>Growing the table, taking and returning extents\<close>

text \<open>An append of the table is all or nothing, and a completed one can be mapped.\<close>

definition table_io_ok :: "content_io \<Rightarrow> bool" where
  "table_io_ok io \<longleftrightarrow> io_pages io = 0 \<or> FREE_BLOCK_PAGE \<le> io_pages io \<and> io_fmap io"

definition same_data :: "content2_t \<Rightarrow> content2_t \<Rightarrow> bool" where
  "same_data ct ct' \<longleftrightarrow> ct_bytes ct' = ct_bytes ct \<and> ct_flen ct' = ct_flen ct
     \<and> ct_data_file_size ct' = ct_data_file_size ct"

lemma same_data_refl [simp]: "same_data ct ct"
  by (simp add: same_data_def)

lemma same_data_pages: "same_data ct ct' \<Longrightarrow> ct_pages ct' = ct_pages ct"
  by (simp add: same_data_def ct_pages_def)

lemma ct_invD:
  assumes "ct_inv ct"
  shows "\<exists>fl. tbl (ct_fb ct) (ct_fb_file_size ct) fl (set (ct_fb_list ct)) (ct_pages ct)"
    "distinct (ct_fb_list ct)" "sorted (map (\<lambda>i. fb_size (ct_fb ct i)) (ct_fb_list ct))"
    "ct_fb_max ct = 0 \<or> (\<exists>i\<in>set (ct_fb_list ct). ct_fb_max ct \<le> fb_size (ct_fb ct i))"
    "ct_fb_flen ct = ct_fb_file_size ct" "ct_fb_ptr_len ct = ct_fb_file_size ct"
    "FREE_BLOCK_INCR dvd ct_fb_file_size ct" "0 < ct_fb_file_size ct"
    "PAGE dvd ct_data_file_size ct" "PAGE \<le> ct_data_file_size ct"
    "ct_data_file_size ct \<le> ct_flen ct" "ct_pages ct \<le> CT_PAGE_LIMIT"
  using assms unfolding ct_inv_def by blast+

lemma ct_invI:
  assumes "ct_inv ct" "same_data ct ct'" "ct_fb_file_size ct' = ct_fb_file_size ct"
    "ct_fb_flen ct' = ct_fb_flen ct" "ct_fb_ptr_len ct' = ct_fb_ptr_len ct"
    "\<exists>fl. tbl (ct_fb ct') (ct_fb_file_size ct') fl (set (ct_fb_list ct')) (ct_pages ct')"
    "distinct (ct_fb_list ct')" "sorted (map (\<lambda>i. fb_size (ct_fb ct' i)) (ct_fb_list ct'))"
    "ct_fb_max ct' = 0 \<or> (\<exists>i\<in>set (ct_fb_list ct'). ct_fb_max ct' \<le> fb_size (ct_fb ct' i))"
  shows "ct_inv ct'"
  using assms same_data_pages [OF assms(2)] unfolding ct_inv_def same_data_def by auto

lemma incr_size_step:
  assumes "FREE_BLOCK_INCR dvd n" "n < FREE_BLOCK_FILE_MAX_SIZE"
  shows "n + FREE_BLOCK_INCR \<le> FREE_BLOCK_FILE_MAX_SIZE"
  using assms by (auto simp: width_simps elim!: dvdE)

lemma blank_pre_parse:
  assumes t: "tbl fb n [] S p" and n: "FREE_BLOCK_INCR dvd n" "0 < n" "n < FREE_BLOCK_FILE_MAX_SIZE"
  shows "pre_parse (fb_blank n (n + FREE_BLOCK_INCR) fb) (n + FREE_BLOCK_INCR) [] p"
    and "{j \<in> ents (n + FREE_BLOCK_INCR). 0 < fb_size (fb_blank n (n + FREE_BLOCK_INCR) fb j)}
       = {j \<in> S. 0 < fb_size (fb j)}"
    and "\<And>j. j \<in> S \<Longrightarrow> fb_blank n (n + FREE_BLOCK_INCR) fb j = fb j"
proof -
  let ?m = "n + FREE_BLOCK_INCR" and ?fb = "fb_blank n (n + FREE_BLOCK_INCR) fb"
  note d = tblD [OF t]
  have old: "?fb j = fb j" if "j < n" for j using that by (simp add: fb_blank_def)
  show keep: "?fb j = fb j" if "j \<in> S" for j using that d(7) old by (auto simp: ents_def)
  show S: "{j \<in> ents ?m. 0 < fb_size (?fb j)} = {j \<in> S. 0 < fb_size (fb j)}" (is "?A = ?B")
  proof
    show "?A \<subseteq> ?B"
    proof
      fix j assume j: "j \<in> ?A"
      then have "j < n" by (auto simp: fb_blank_def ents_def split: if_splits)
      then show "j \<in> ?B" using j d(8) [of j] old by (auto simp: ents_def)
    qed
    show "?B \<subseteq> ?A" using d(7) keep by (auto simp: ents_def)
  qed
  have e: "0 < fb_offset (?fb j) \<and> fb_offset (?fb j) + fb_size (?fb j) \<le> p"
    if "j \<in> ents ?m" "0 < fb_size (?fb j)" for j
  proof -
    have "j \<in> S" "0 < fb_size (fb j)" using S that by auto
    then show ?thesis using d(10,11) keep by simp
  qed
  have "disjoint_family_on (fb_ext ?fb) ?A"
    unfolding S using d(9) keep by (elim disjoint_family_on_ext_cong) (auto simp: fb_ext_def)
  moreover have "fb_step \<le> ?m" "8 dvd ?m"
    using d(2) by (simp_all add: width_simps)
  moreover have "fb_header ?fb = FREE_BLOCK_FILE_MAX_SIZE"
    using d(3) n(2) by (simp add: fb_header_def fb_blank_def)
  ultimately show "pre_parse ?fb ?m [] p"
    using incr_size_step [OF n(1,3)] e by (simp add: pre_parse_def) (simp add: width_simps)
qed

lemma parse_header_grown:
  assumes "fb_blank n (n + FREE_BLOCK_INCR) fb = ct_fb ct" "ct_fb_file_size ct = n + FREE_BLOCK_INCR"
    "n + FREE_BLOCK_INCR \<le> FREE_BLOCK_FILE_MAX_SIZE"
  shows "fb_header (ct_fb (parse_free_block ct)) \<noteq> FREE_BLOCK_FILE_MAX_SIZE"
proof -
  let ?m = "n + FREE_BLOCK_INCR"
  let ?i = "?m - fb_step"
  define fb0 where "fb0 = (if fb_header (ct_fb ct) = 0 then fb_set_header FREE_BLOCK_FILE_MAX_SIZE (ct_fb ct) else ct_fb ct)"
  have i: "\<not> ?i < fb_step" "?i \<noteq> 0" "?i < FREE_BLOCK_FILE_MAX_SIZE" "n \<le> ?i" "?i < ?m"
    using assms(3) by (auto simp: width_simps)
  have blank: "fb0 ?i = \<lparr>fb_offset = 0, fb_size = 0\<rparr>"
    using i unfolding fb0_def assms(1) [symmetric] by (simp add: fb_blank_def)
  obtain fb1 M where sc: "parse_scan ?i fb0 [] = (fb1, M)" by force
  let ?fb = "fb_set_header ?i (fb0(?i := (fb0 ?i)\<lparr>fb_offset := fb_header fb0\<rparr>))"
  have sc': "parse_scan (?i - fb_step) ?fb [] = (fb1, M)"
    using sc i blank unfolding parse_scan.simps [of ?i] by simp
  have h1: "fb_header fb1 \<noteq> FREE_BLOCK_FILE_MAX_SIZE"
    using parse_scan_header [OF sc'] i by simp
  obtain fb2 out where mg: "parse_merge None M fb1 [] = (fb2, out)" by force
  have start: "trunc 32 (?m + UINT32_MOD - fb_step) = ?i"
    using assms(3) i by (simp add: trunc_def width_simps le_mod_geq)
  have "\<forall>c\<in>set M. c \<noteq> 0 \<and> c \<noteq> FREE_BLOCK_FILE_MAX_SIZE"
    using parse_scan_range [OF sc] i(3) by fastforce
  then have "fb_header fb2 \<noteq> FREE_BLOCK_FILE_MAX_SIZE"
    using parse_merge_header [OF mg _ h1] by simp
  then show ?thesis using sc mg start assms(2) by (simp add: parse_free_block_def fb0_def [symmetric])
qed

lemma fb_blank_none [simp]: "fb_blank n n fb = fb"
  by (simp add: fb_blank_def fun_eq_iff)

lemma incr_free_block_file_correct:
  assumes inv: "ct_inv ct" and full: "fb_header (ct_fb ct) = FREE_BLOCK_FILE_MAX_SIZE"
    and io: "table_io_ok io" and run: "incr_free_block_file io ct = (ok, ct')"
  shows "if ok then ct_inv ct' \<and> same_data ct ct' \<and> ct_free ct' = ct_free ct
      \<and> ct_fb_max ct' = ct_fb_max ct \<and> fb_header (ct_fb ct') \<noteq> FREE_BLOCK_FILE_MAX_SIZE
    else ct' = ct"
proof (cases ok)
  case False
  then show ?thesis
    using run io ct_invD(5,6) [OF inv]
    by (cases ct) (auto simp: incr_free_block_file_def Let_def table_io_ok_def FREE_BLOCK_PAGE_def
        FREE_BLOCK_INCR_def PAGE_def split: if_splits)
next
  case ok: True
  note d = ct_invD [OF inv]
  let ?n = "ct_fb_file_size ct" and ?S = "set (ct_fb_list ct)"
  let ?fb = "fb_blank ?n (?n + FREE_BLOCK_INCR) (ct_fb ct)"
  let ?ct = "ct\<lparr>ct_fb_flen := ?n + FREE_BLOCK_INCR, ct_fb := ?fb,
      ct_fb_file_size := ?n + FREE_BLOCK_INCR, ct_fb_ptr_len := ?n + FREE_BLOCK_INCR\<rparr>"
  have n: "?n < FREE_BLOCK_FILE_MAX_SIZE" and p: "ct' = parse_free_block ?ct"
    using run ok d(5,6) by (auto simp: incr_free_block_file_def Let_def FREE_BLOCK_PAGE_def
        FREE_BLOCK_INCR_def PAGE_def min_def split: if_splits)
  obtain fl where t: "tbl (ct_fb ct) ?n fl ?S (ct_pages ct)" using d(1) by blast
  have "fl = []" using tblD(3) [OF t] full by (cases fl) auto
  note b = blank_pre_parse [OF t [unfolded this] d(7,8) n]
  have lim: "ct_pages ct < 4294967296" using d(12) by (simp add: CT_PAGE_LIMIT_def)
  obtain fb' out fl' where r: "ct' = ?ct\<lparr>ct_fb := fb', ct_fb_list := out\<rparr>"
    "tbl fb' (?n + FREE_BLOCK_INCR) fl' (set out) (ct_pages ct)" "distinct out"
    "sorted (map (\<lambda>i. fb_size (fb' i)) out)" "fb_free fb' (set out) = fb_free ?fb {j \<in> ?S. 0 < fb_size (ct_fb ct j)}"
    "\<forall>i\<in>ents (?n + FREE_BLOCK_INCR). 0 < fb_size (?fb i) \<longrightarrow> (\<exists>j\<in>set out. fb_size (?fb i) \<le> fb_size (fb' j))"
    using parse_free_block_correct [of ?ct "[]" "ct_pages ct", OF _ lim p [symmetric]] b(1,2) by auto
  have "fb_free ?fb {j \<in> ?S. 0 < fb_size (ct_fb ct j)} = fb_free (ct_fb ct) ?S"
    using b(3) by (auto simp: fb_free_def fb_ext_def)
  then have free: "ct_free ct' = ct_free ct" using r(1,5) by (simp add: ct_free_def)
  have "ct_fb_max ct = 0 \<or> (\<exists>j\<in>set out. ct_fb_max ct \<le> fb_size (fb' j))"
  proof (cases "ct_fb_max ct = 0")
    case False
    then obtain i where i: "i \<in> ?S" "ct_fb_max ct \<le> fb_size (ct_fb ct i)" using d(4) by auto
    have "i \<in> ents (?n + FREE_BLOCK_INCR)" using i(1) tblD(7) [OF t] by (auto simp: ents_def)
    moreover have "fb_size (?fb i) = fb_size (ct_fb ct i)" using b(3) [OF i(1)] by simp
    ultimately show ?thesis using r(6) i(2) False by fastforce
  qed simp
  then have "ct_inv ct'"
    unfolding ct_inv_def using r(1-4) d(7-12) ct_pages_def by (auto simp: ct_pages_def)
  moreover have "fb_header (ct_fb ct') \<noteq> FREE_BLOCK_FILE_MAX_SIZE"
    unfolding p by (rule parse_header_grown [OF _ _ incr_size_step [OF d(7) n]]) simp_all
  moreover have "same_data ct ct'" "ct_fb_max ct' = ct_fb_max ct" using r(1) by (simp_all add: same_data_def)
  ultimately show ?thesis using ok free by simp
qed

lemma tbl_take:
  assumes t: "tbl fb n (i # fl) S p"
    and b: "{fb_offset b..<fb_offset b + fb_size b} \<subseteq> {1..<p} - fb_free fb S"
    and fb': "fb' = (fb_set_header (fb_offset (fb i)) fb)(i := b)"
  shows "tbl fb' n fl (insert i S) p" "fb_free fb' (insert i S) = fb_free fb S \<union> {fb_offset b..<fb_offset b + fb_size b}"
proof -
  note d = tblD [OF t]
  have i: "i \<in> ents n" "i \<notin> S" "i \<notin> set fl" using d(4-6) by auto
  have o: "fb' j = fb j" if "j \<in> set fl \<union> S" for j
    using that i ents_nonzero [of j "set fl \<union> S" n] d(6,7) by (auto simp: fb')
  have hd: "fb_header fb' = fb_offset (fb i)" using i(1) by (simp add: fb' ents_def)
  have "fb_chain fb' (fb_offset (fb i)) fl"
    using d(3) o by (subst fb_chain_cong [of fl fb' fb]) auto
  moreover have "disjoint_family_on (fb_ext fb') (insert i S)"
    unfolding disjoint_family_on_def
  proof (intro ballI impI)
    fix j k assume jk: "j \<in> insert i S" "k \<in> insert i S" "j \<noteq> k"
    have e: "fb_ext fb' l = fb_ext fb l" if "l \<in> S" for l using that o by (simp add: fb_ext_def)
    have "fb_ext fb' i \<inter> fb_ext fb l = {}" if "l \<in> S" for l
    proof -
      have "fb_ext fb' i = {fb_offset b..<fb_offset b + fb_size b}" by (simp add: fb_ext_def fb')
      then show ?thesis using b that unfolding fb_free_def by blast
    qed
    then show "fb_ext fb' j \<inter> fb_ext fb' k = {}"
      using jk e d(9) unfolding disjoint_family_on_def by (cases "j = i"; cases "k = i") auto
  qed
  moreover have "0 < fb_offset b \<and> fb_offset b + fb_size b \<le> p" if "0 < fb_size b"
  proof -
    have "fb_offset b \<in> {fb_offset b..<fb_offset b + fb_size b}"
      "fb_offset b + fb_size b - 1 \<in> {fb_offset b..<fb_offset b + fb_size b}"
      using that by auto
    then have "fb_offset b \<in> {1..<p}" "fb_offset b + fb_size b - 1 \<in> {1..<p}" using b by blast+
    then show ?thesis by auto
  qed
  moreover have "fb_size (fb' j) = 0" if "j \<in> ents n - insert i S" for j
    using that d(8) by (auto simp: fb')
  moreover have "fb' i = b" by (simp add: fb')
  ultimately show "tbl fb' n fl (insert i S) p"
    using d i o hd unfolding tbl_def by auto
  show "fb_free fb' (insert i S) = fb_free fb S \<union> {fb_offset b..<fb_offset b + fb_size b}"
    using o \<open>fb' i = b\<close> by (auto simp: fb_free_def fb_ext_def)
qed

lemma add_free_block_correct:
  assumes inv: "ct_inv ct" and io: "table_io_ok io"
    and ext: "{off..<off + sz} \<subseteq> ct_alloc ct"
    and run: "add_free_block io sz off ct = (ok, ct')"
  shows "if ok then ct_inv ct' \<and> same_data ct ct' \<and> ct_free ct' = ct_free ct \<union> {off..<off + sz}
    else ct' = ct"
proof -
  let ?full = "fb_header (ct_fb ct) = FREE_BLOCK_FILE_MAX_SIZE"
  obtain ok1 ct1 where i: "(if ?full then incr_free_block_file io ct else (True, ct)) = (ok1, ct1)" by force
  have pre: "if ok1 then ct_inv ct1 \<and> same_data ct ct1 \<and> ct_free ct1 = ct_free ct
      \<and> fb_header (ct_fb ct1) \<noteq> FREE_BLOCK_FILE_MAX_SIZE else ct1 = ct"
    using i inv incr_free_block_file_correct [OF inv _ io] by (cases ?full) (force split: if_splits)+
  show ?thesis
  proof (cases ok1)
    case False
    then show ?thesis using run i pre by (simp add: add_free_block_def Let_def)
  next
    case True
    then have inv1: "ct_inv ct1" and sd: "same_data ct ct1" and free: "ct_free ct1 = ct_free ct"
      and hd: "fb_header (ct_fb ct1) \<noteq> FREE_BLOCK_FILE_MAX_SIZE" using pre by simp_all
    note d = ct_invD [OF inv1]
    let ?i = "fb_header (ct_fb ct1)" and ?L = "ct_fb_list ct1" and ?b = "\<lparr>fb_offset = off, fb_size = sz\<rparr>"
    obtain fl0 where t0: "tbl (ct_fb ct1) (ct_fb_file_size ct1) fl0 (set ?L) (ct_pages ct1)"
      using d(1) by blast
    then obtain fl where t: "tbl (ct_fb ct1) (ct_fb_file_size ct1) (?i # fl) (set ?L) (ct_pages ct1)"
      using tblD(3) [OF t0] hd by (cases fl0) auto
    define fb' where "fb' = (fb_set_header (fb_offset (ct_fb ct1 ?i)) (ct_fb ct1))(?i := ?b)"
    have "{fb_offset ?b..<fb_offset ?b + fb_size ?b} \<subseteq> {1..<ct_pages ct1} - fb_free (ct_fb ct1) (set ?L)"
      using ext free same_data_pages [OF sd] by (simp add: ct_alloc_def ct_free_def)
    note tk = tbl_take [OF t this fb'_def]
    have ni: "?i \<notin> set ?L" using tblD(5) [OF t] by auto
    have same: "fb' j = ct_fb ct1 j" if "j \<in> set ?L" for j
      using that ni ents_nonzero [OF that tblD(7) [OF t]] by (auto simp: fb'_def)
    have res: "ok" "ct' = ct1\<lparr>ct_fb := fb', ct_fb_list := mm_insert (\<lambda>j. fb_size (fb' j)) ?i ?L,
        ct_fb_max := max (ct_fb_max ct1) sz\<rparr>"
      using run i True by (auto simp: add_free_block_def Let_def fb'_def)
    have "sorted (map (\<lambda>j. fb_size (fb' j)) ?L)" using d(3) same by (simp cong: map_cong)
    then have "sorted (map (\<lambda>j. fb_size (fb' j)) (mm_insert (\<lambda>j. fb_size (fb' j)) ?i ?L))"
      by (rule mm_insert_sorted)
    moreover have "\<exists>j\<in>insert ?i (set ?L). max (ct_fb_max ct1) sz \<le> fb_size (fb' j)"
    proof (cases "ct_fb_max ct1 \<le> sz")
      case False
      then obtain j where "j \<in> set ?L" "ct_fb_max ct1 \<le> fb_size (ct_fb ct1 j)" using d(4) by auto
      then show ?thesis using False same by (intro bexI [of _ j]) auto
    qed (simp add: fb'_def)
    moreover have "same_data ct1 ct'" by (simp add: res same_data_def)
    ultimately have "ct_inv ct'"
      using tk(1) d(2) ni same_data_pages [of ct1 ct']
      by (intro ct_invI [OF inv1]) (auto simp: res)
    moreover have "ct_free ct' = ct_free ct \<union> {off..<off + sz}"
      using tk(2) free by (simp add: res ct_free_def)
    ultimately show ?thesis using sd res by (simp add: same_data_def)
  qed
qed

lemma use_free_block_None:
  assumes "ct_inv ct" "0 < sz" "sz < 4294967296" "use_free_block sz ct = (None, ct')"
  shows "ct' = ct" "ct_fb_max ct < sz"
proof -
  have tr: "trunc 32 (sz + UINT32_MOD - 1) = sz - 1"
    using assms(2,3) by (simp add: trunc_def width_simps le_mod_geq)
  show "ct' = ct" using assms(4) by (auto simp: use_free_block_def Let_def split: if_splits option.splits)
  show "ct_fb_max ct < sz"
  proof (rule ccontr)
    assume c: "\<not> ct_fb_max ct < sz"
    then obtain i where "i \<in> set (ct_fb_list ct)" "sz - 1 < fb_size (ct_fb ct i)"
      using ct_invD(4) [OF assms(1)] assms(2) by (metis diff_less_mono2 le_trans less_le_trans not_le
          zero_less_one diff_less bot_nat_0.not_eq_extremum)
    then show False
      using assms(4) c by (auto simp: use_free_block_def Let_def tr [simplified] mm_upper_bound_None not_le
          split: option.splits)
  qed
qed

lemma use_free_block_Some:
  assumes inv: "ct_inv ct" and sz: "0 < sz" "sz < 4294967296"
    and run: "use_free_block sz ct = (Some off, ct')"
  shows "ct_inv ct'" "same_data ct ct'" "{off..<off + sz} \<subseteq> ct_free ct"
    "ct_free ct' = ct_free ct - {off..<off + sz}"
    "\<exists>i\<in>set (ct_fb_list ct). off = fb_offset (ct_fb ct i) \<and> sz \<le> fb_size (ct_fb ct i)
       \<and> (\<forall>j\<in>set (ct_fb_list ct). sz \<le> fb_size (ct_fb ct j) \<longrightarrow> fb_size (ct_fb ct i) \<le> fb_size (ct_fb ct j))"
proof -
  note d = ct_invD [OF inv]
  let ?fb = "ct_fb ct" and ?L = "ct_fb_list ct" and ?n = "ct_fb_file_size ct"
  have tr: "trunc 32 (sz + UINT32_MOD - 1) = sz - 1"
    using sz by (simp add: trunc_def width_simps le_mod_geq)
  obtain i where ub: "mm_upper_bound (\<lambda>j. fb_size (?fb j)) (sz - 1) ?L = Some i"
    using run by (auto simp: use_free_block_def Let_def tr [simplified] split: if_splits option.splits)
  note best = mm_upper_bound_best [OF d(3) ub]
  have i: "i \<in> set ?L" "sz \<le> fb_size (?fb i)" using best(1,2) by auto
  obtain fl where t: "tbl ?fb ?n fl (set ?L) (ct_pages ct)" using d(1) by blast
  note td = tblD [OF t]
  have bi: "0 < fb_offset (?fb i)" "fb_offset (?fb i) + fb_size (?fb i) \<le> ct_pages ct"
    using td(10,11) [OF i(1)] i(2) sz(1) by auto
  have tr2: "trunc 32 (fb_offset (?fb i) + sz) = fb_offset (?fb i) + sz"
    using bi(2) i(2) d(12) by (intro trunc_id) (simp add: CT_PAGE_LIMIT_def)
  define b where "b = \<lparr>fb_offset = fb_offset (?fb i) + sz, fb_size = fb_size (?fb i) - sz\<rparr>"
  define fb' where "fb' = (if sz = fb_size (?fb i) then fb_release i ?fb else ?fb(i := b))"
  define rest where "rest = remove1 i ?L"
  define L' where "L' = (if 0 < fb_size (fb' i) then mm_insert (\<lambda>j. fb_size (fb' j)) i rest else rest)"
  have res: "off = fb_offset (?fb i)" "ct' = ct\<lparr>ct_fb := fb', ct_fb_list := L',
      ct_fb_max := (if L' \<noteq> [] then fb_size (fb' (last L')) else 0)\<rparr>"
  proof -
    have nm: "(ct_fb_max ct < sz) = False" using run by (auto simp: use_free_block_def)
    show "off = fb_offset (?fb i)" "ct' = ct\<lparr>ct_fb := fb', ct_fb_list := L',
        ct_fb_max := (if L' \<noteq> [] then fb_size (fb' (last L')) else 0)\<rparr>"
      using run unfolding use_free_block_def Let_def tr nm ub option.case if_False tr2
        L'_def fb'_def b_def rest_def by blast+
  qed
  have i0: "i \<noteq> 0" using ents_nonzero [OF i(1) td(7)] .
  have same: "fb' j = ?fb j" if "j \<in> set ?L - {i}" for j
    using that ents_nonzero [of j, OF _ td(7)] by (auto simp: fb'_def)
  have rs: "set rest = set ?L - {i}" "distinct rest" using d(2) by (simp_all add: rest_def)
  have sr: "sorted (map (\<lambda>j. fb_size (fb' j)) rest)"
  proof -
    have "map (\<lambda>j. fb_size (fb' j)) rest = map (\<lambda>j. fb_size (?fb j)) rest"
      using same unfolding rs(1) [symmetric] by simp
    then show ?thesis using sorted_remove1_map [OF d(3), of i] unfolding rest_def by metis
  qed
  have ext: "fb_ext ?fb i = {off..<off + sz} \<union> {off + sz..<off + fb_size (?fb i)}"
    using i(2) res(1) by (auto simp: fb_ext_def)
  have others: "fb_ext ?fb i \<inter> (\<Union>j\<in>set ?L - {i}. fb_ext ?fb j) = {}"
    by (rule fb_ext_disjoint_rest [OF td(9) i(1)])
  have fr: "ct_free ct = fb_ext ?fb i \<union> (\<Union>j\<in>set ?L - {i}. fb_ext ?fb j)"
    using i(1) by (auto simp: ct_free_def fb_free_def)
  have oe: "(\<Union>j\<in>set ?L - {i}. fb_ext fb' j) = (\<Union>j\<in>set ?L - {i}. fb_ext ?fb j)"
    using same by (simp add: fb_ext_def)
  have "(\<exists>fl. tbl fb' ?n fl (set L') (ct_pages ct)) \<and> distinct L' \<and> sorted (map (\<lambda>j. fb_size (fb' j)) L')
      \<and> fb_free fb' (set L') = ct_free ct - {off..<off + sz}"
  proof (cases "sz = fb_size (?fb i)")
    case True
    then have "L' = rest" "fb' = fb_release i ?fb" using i0 by (simp_all add: fb'_def L'_def)
    moreover have "fb_free fb' (set ?L - {i}) = ct_free ct - {off..<off + sz}"
      using fr oe ext others True unfolding fb_free_def by auto
    ultimately show ?thesis using tbl_release [OF t i(1)] rs sr by auto
  next
    case False
    then have fb': "fb' = ?fb(i := b)" and pos: "0 < fb_size (fb' i)" and L': "set L' = set ?L" "distinct L'"
      using i rs by (auto simp: fb'_def L'_def b_def)
    have e: "fb_ext (?fb(i := b)) i = {off + sz..<off + fb_size (?fb i)}"
      using i(2) res(1) by (simp add: fb_ext_def b_def)
    have "tbl fb' ?n fl (set ?L) (ct_pages ct)"
      unfolding fb' by (rule tbl_update [OF t i(1)]) (use e ext others bi i in \<open>auto simp: b_def\<close>)
    moreover have "fb_free fb' (set ?L) = {off + sz..<off + fb_size (?fb i)} \<union> (\<Union>j\<in>set ?L - {i}. fb_ext ?fb j)"
      using oe e i(1) unfolding fb' fb_free_def by auto
    then have "fb_free fb' (set ?L) = ct_free ct - {off..<off + sz}"
      using fr ext others by auto
    moreover have "sorted (map (\<lambda>j. fb_size (fb' j)) L')"
      using sr pos by (simp add: L'_def mm_insert_sorted)
    ultimately show ?thesis using L' by auto
  qed
  note main = this
  show sd: "same_data ct ct'" by (simp add: res same_data_def)
  show "ct_inv ct'"
    by (rule ct_invI [OF inv sd]) (use main same_data_pages [OF sd] in \<open>auto simp: res\<close>)
  show "{off..<off + sz} \<subseteq> ct_free ct" using ext fr by blast
  show "ct_free ct' = ct_free ct - {off..<off + sz}" using main by (simp add: res ct_free_def)
  show "\<exists>i\<in>set ?L. off = fb_offset (?fb i) \<and> sz \<le> fb_size (?fb i)
       \<and> (\<forall>j\<in>set ?L. sz \<le> fb_size (?fb j) \<longrightarrow> fb_size (?fb i) \<le> fb_size (?fb j))"
    using i res(1) best(3) sz(1) by (intro bexI [of _ i]) auto
qed

end
