(* ===== verification/Content_Store.thy ===== *)
theory Content_Store
  imports Content_Correct
begin

text \<open>
  The value files as a store of values: what a client holds, by page number, is neither
  overlapped nor changed by any operation on other values, and is read back as written.
\<close>

section \<open>What a client holds\<close>

definition pgs :: "nat \<Rightarrow> nat \<Rightarrow> nat set" where
  "pgs off len = {off..<off + page_count len}"

definition ct_holds :: "content2_t \<Rightarrow> nat \<Rightarrow> bytes \<Rightarrow> bool" where
  "ct_holds ct off d \<longleftrightarrow>
     off * PAGE + length d \<le> ct_flen ct
     \<and> map (ct_bytes ct) [off * PAGE..<off * PAGE + length d] = d"

definition ct_owns :: "content2_t \<Rightarrow> (nat \<rightharpoonup> bytes) \<Rightarrow> bool" where
  "ct_owns ct m \<longleftrightarrow>
     (\<forall>o1 d. m o1 = Some d \<longrightarrow>
        d \<noteq> [] \<and> length d < 268435456 \<and> pgs o1 (length d) \<subseteq> ct_alloc ct \<and> ct_holds ct o1 d)
     \<and> (\<forall>o1 o2 d1 d2. m o1 = Some d1 \<longrightarrow> m o2 = Some d2 \<longrightarrow> o1 \<noteq> o2 \<longrightarrow>
          pgs o1 (length d1) \<inter> pgs o2 (length d2) = {})"

text \<open>
  \<open>pwrite\<close> completes or fails as a whole, the same way for the calls of one operation.
\<close>

definition content_io_ok :: "content_io \<Rightarrow> bool" where
  "content_io_ok io \<longleftrightarrow>
     table_io_ok io
     \<and> ((\<forall>off n. io_pwrite io off n = int n) \<or> (\<forall>off n. io_pwrite io off n = -1))"

section \<open>Pages and bytes\<close>

lemma page_count_pos [simp]: "0 < n \<Longrightarrow> 0 < page_count n"
  by (auto simp: page_count_def PAGE_def div_greater_zero_iff)

lemma page_round: "n + page_tail n = page_count n * PAGE"
proof -
  have "n mod PAGE < PAGE" by (simp add: PAGE_def)
  moreover have "q * PAGE + r + (if 0 < r then PAGE - r else 0) = (q + (if 0 < r then 1 else 0)) * PAGE"
    if "r < PAGE" for q r
    using that by (simp add: add_mult_distrib)
  ultimately have "n div PAGE * PAGE + n mod PAGE + page_tail n = page_count n * PAGE"
    unfolding page_count_def page_tail_def by blast
  then show ?thesis by simp
qed

lemma page_tail_le: "page_tail n \<le> PAGE"
  by (simp add: page_tail_def)

lemma page_count_bytes: "n \<le> page_count n * PAGE"
  using page_round [of n] by simp

lemma page_count_bound: "n < 268435456 \<Longrightarrow> page_count n \<le> 262144"
proof -
  assume n: "n < 268435456"
  then have "n div PAGE < 262144" by (simp add: PAGE_def less_mult_imp_div_less)
  then show ?thesis by (simp add: page_count_def)
qed

lemma pgs_last: "0 < n \<Longrightarrow> off + page_count n - 1 \<in> pgs off n"
  unfolding pgs_def atLeastLessThan_iff using page_count_pos [of n] by linarith

lemma intervals_disjoint:
  fixes a b c d :: nat
  assumes "{a..<a + b} \<inter> {c..<c + d} = {}" "0 < b" "0 < d"
  shows "a + b \<le> c \<or> c + d \<le> a"
proof (rule ccontr)
  assume "\<not> ?thesis"
  then have "max a c \<in> {a..<a + b} \<inter> {c..<c + d}" using assms(2,3) by auto
  then show False using assms(1) by blast
qed

lemma page_bytes_disjoint:
  assumes "pgs a n \<inter> pgs b k = {}" "0 < n" "0 < k"
  shows "a * PAGE + n \<le> b * PAGE \<or> b * PAGE + k \<le> a * PAGE"
proof -
  have "a + page_count n \<le> b \<or> b + page_count k \<le> a"
    using intervals_disjoint [OF assms(1) [unfolded pgs_def]] assms(2,3) by simp
  then show ?thesis
  proof
    assume "a + page_count n \<le> b"
    then have "(a + page_count n) * PAGE \<le> b * PAGE" by (rule mult_le_mono1)
    then show ?thesis using page_count_bytes [of n] by (simp add: add_mult_distrib)
  next
    assume "b + page_count k \<le> a"
    then have "(b + page_count k) * PAGE \<le> a * PAGE" by (rule mult_le_mono1)
    then show ?thesis using page_count_bytes [of k] by (simp add: add_mult_distrib)
  qed
qed

lemma map_upt_put: "map (bytes_put f o1 d) [o1..<o1 + length d] = d"
  by (rule nth_equalityI) (simp_all add: bytes_put_def)

lemma map_upt_put_other:
  assumes "o1 + length d \<le> o2 \<or> o2 + n \<le> o1"
  shows "map (bytes_put f o1 d) [o2..<o2 + n] = map f [o2..<o2 + n]"
  using assms by (auto simp: bytes_put_def)

lemma ct_get_holds:
  "ct_holds ct off d \<Longrightarrow> ct_get io off (length d) ct = (if io_pread io then Some d else None)"
  by (auto simp: ct_get_def ct_holds_def Let_def)

section \<open>Writing bytes\<close>

lemma ct_pwrite_full:
  assumes "io_pwrite io off (length d) = int (length d)" "length d < 4294967296"
  shows "ct_pwrite io d off ct = (length d, ct\<lparr>ct_bytes := bytes_put (ct_bytes ct) off d,
    ct_flen := (if d = [] then ct_flen ct else max (ct_flen ct) (off + length d))\<rparr>)"
  using assms by (simp add: ct_pwrite_def Let_def UINT32_MOD_def)

lemma bytes_put_empty [simp]: "bytes_put f off [] = f"
  by (rule ext) (auto simp: bytes_put_def)

lemma ct_pwrite_fail:
  assumes "io_pwrite io off (length d) = -1"
  shows "ct_pwrite io d off ct = (4294967295, ct)"
  using assms by (simp add: ct_pwrite_def Let_def UINT32_MOD_def)

text \<open>Bytes outside a value's range and a growing file keep the value.\<close>

lemma ct_holds_frame:
  assumes "ct_holds ct o2 e" "off + length d \<le> o2 * PAGE \<or> o2 * PAGE + length e \<le> off"
    "ct_bytes ct' = bytes_put (ct_bytes ct) off d" "ct_flen ct \<le> ct_flen ct'"
  shows "ct_holds ct' o2 e"
  using assms map_upt_put_other [of off d "o2 * PAGE" "length e" "ct_bytes ct"]
  by (simp add: ct_holds_def)

lemma ct_holds_same: "same_data ct ct' \<Longrightarrow> ct_holds ct' off d = ct_holds ct off d"
  by (simp add: ct_holds_def same_data_def)

lemma ct_ownsD:
  assumes "ct_owns ct m" "m o1 = Some d"
  shows "d \<noteq> []" "length d < 268435456" "pgs o1 (length d) \<subseteq> ct_alloc ct" "ct_holds ct o1 d"
    "\<And>o2 e. m o2 = Some e \<Longrightarrow> o1 \<noteq> o2 \<Longrightarrow> pgs o1 (length d) \<inter> pgs o2 (length e) = {}"
proof -
  note o = assms(1) [unfolded ct_owns_def]
  show "d \<noteq> []" "length d < 268435456" "pgs o1 (length d) \<subseteq> ct_alloc ct" "ct_holds ct o1 d"
    using conjunct1 [OF o, rule_format, OF assms(2)] by simp_all
  show "pgs o1 (length d) \<inter> pgs o2 (length e) = {}" if "m o2 = Some e" "o1 \<noteq> o2" for o2 e
    by (rule conjunct2 [OF o, rule_format, OF assms(2) that])
qed

lemma ct_owns_mono:
  assumes "ct_owns ct m" "\<And>o1 d. m' o1 = Some d \<Longrightarrow> m o1 = Some d"
    "\<And>o1 d. m' o1 = Some d \<Longrightarrow> pgs o1 (length d) \<subseteq> ct_alloc ct'"
    "\<And>o1 d. m' o1 = Some d \<Longrightarrow> ct_holds ct' o1 d"
  shows "ct_owns ct' m'"
  unfolding ct_owns_def
proof (intro conjI allI impI)
  fix o1 d assume m': "m' o1 = Some d"
  note m = assms(2) [OF m']
  show "d \<noteq> []" "length d < 268435456" "pgs o1 (length d) \<subseteq> ct_alloc ct'" "ct_holds ct' o1 d"
    using ct_ownsD(1,2) [OF assms(1) m] assms(3,4) [OF m'] by simp_all
  fix o2 e assume "m' o2 = Some e" "o1 \<noteq> o2"
  then show "pgs o1 (length d) \<inter> pgs o2 (length e) = {}"
    by (intro ct_ownsD(5) [OF assms(1) m] assms(2))
qed

lemma ct_owns_add:
  assumes "ct_owns ct m" "d \<noteq> []" "length d < 268435456"
    "pgs off (length d) \<subseteq> ct_alloc ct" "ct_holds ct off d"
    "\<And>o2 e. m o2 = Some e \<Longrightarrow> pgs off (length d) \<inter> pgs o2 (length e) = {}"
  shows "m off = None" "ct_owns ct (m(off \<mapsto> d))"
proof -
  show "m off = None"
  proof (cases "m off")
    case (Some e)
    then have "off \<in> pgs off (length d) \<inter> pgs off (length e)"
      using assms(2) ct_ownsD(1) [OF assms(1) Some] by (simp add: pgs_def)
    then show ?thesis using assms(6) [OF Some] by simp
  qed
  show "ct_owns ct (m(off \<mapsto> d))"
    using assms unfolding ct_owns_def by (auto simp: Int_commute)
qed

lemma ct_alloc_free_disjoint: "ct_alloc ct \<inter> ct_free ct = {}"
  by (auto simp: ct_alloc_def)

lemma ct_free_bound: "ct_inv ct \<Longrightarrow> ct_free ct \<subseteq> {1..<ct_pages ct}"
proof
  fix x assume inv: "ct_inv ct" and x: "x \<in> ct_free ct"
  obtain fl where t: "tbl (ct_fb ct) (ct_fb_file_size ct) fl (set (ct_fb_list ct)) (ct_pages ct)"
    using ct_invD(1) [OF inv] by blast
  obtain i where i: "i \<in> set (ct_fb_list ct)" "x \<in> fb_ext (ct_fb ct) i"
    using x by (auto simp: ct_free_def fb_free_def)
  then have "0 < fb_size (ct_fb ct i)" by (auto simp: fb_ext_def)
  then show "x \<in> {1..<ct_pages ct}"
    using tblD(10,11) [OF t i(1)] i(2) by (auto simp: fb_ext_def)
qed

lemma ct_inv_bytes:
  "ct_inv ct \<Longrightarrow> ct_flen ct \<le> n \<Longrightarrow> ct_inv (ct\<lparr>ct_bytes := b, ct_flen := n\<rparr>)"
  unfolding ct_inv_def ct_pages_def by auto

lemma ct_regions_bytes [simp]:
  "ct_free (ct\<lparr>ct_bytes := b, ct_flen := n\<rparr>) = ct_free ct"
  "ct_alloc (ct\<lparr>ct_bytes := b, ct_flen := n\<rparr>) = ct_alloc ct"
  "ct_pages (ct\<lparr>ct_bytes := b, ct_flen := n\<rparr>) = ct_pages ct"
  by (simp_all add: ct_free_def ct_alloc_def ct_pages_def)

text \<open>Appending whole pages to the data file.\<close>

lemma ct_append_pages:
  assumes inv: "ct_inv ct" and k: "ct_pages ct + k \<le> CT_PAGE_LIMIT"
    and n: "ct_data_file_size ct + k * PAGE \<le> n" "ct_flen ct \<le> n"
    and ct': "ct' = ct\<lparr>ct_bytes := b, ct_flen := n, ct_data_file_size := ct_data_file_size ct + k * PAGE\<rparr>"
  shows "ct_inv ct'" "ct_alloc ct' = ct_alloc ct \<union> {ct_pages ct..<ct_pages ct + k}"
proof -
  have p: "ct_pages ct' = ct_pages ct + k" by (simp add: ct' ct_pages_def PAGE_def)
  obtain fl where "tbl (ct_fb ct) (ct_fb_file_size ct) fl (set (ct_fb_list ct)) (ct_pages ct)"
    using ct_invD(1) [OF inv] by blast
  then have "tbl (ct_fb ct') (ct_fb_file_size ct') fl (set (ct_fb_list ct')) (ct_pages ct')"
    using tbl_mono p by (simp add: ct')
  then show "ct_inv ct'" using inv k n p unfolding ct_inv_def by (auto simp: ct')
  have "ct_free ct' = ct_free ct" by (simp add: ct' ct_free_def)
  moreover have "1 \<le> ct_pages ct"
    using ct_invD(9,10) [OF inv] by (auto simp: ct_pages_def PAGE_def elim!: dvdE)
  ultimately show "ct_alloc ct' = ct_alloc ct \<union> {ct_pages ct..<ct_pages ct + k}"
    using ct_free_bound [OF inv] p unfolding ct_alloc_def by auto
qed

lemma data_limit_pages:
  assumes "ct_data_file_size ct \<le> DATA_FILE_MAX_SIZE"
  shows "ct_pages ct \<le> 268434432"
  using div_le_mono [OF assms, of PAGE] by (simp add: ct_pages_def width_simps)

text \<open>A value written into an extent that no held value uses.\<close>

lemma ct_owns_written:
  assumes own: "ct_owns ct m" and d: "d \<noteq> []" "length d < 268435456"
    and new: "pgs off (length d) \<inter> ct_alloc ct = {}"
    and alloc: "ct_alloc ct \<subseteq> ct_alloc ct'" "pgs off (length d) \<subseteq> ct_alloc ct'"
    and bytes: "\<And>o2 e. m o2 = Some e \<Longrightarrow> ct_holds ct' o2 e" "ct_holds ct' off d"
  shows "m off = None \<and> ct_owns ct' (m(off \<mapsto> d))"
proof -
  have own': "ct_owns ct' m"
    by (rule ct_owns_mono [OF own]) (use alloc(1) ct_ownsD(3) [OF own] bytes(1) in blast)+
  have "pgs off (length d) \<inter> pgs o2 (length e) = {}" if "m o2 = Some e" for o2 e
    using new ct_ownsD(3) [OF own that] by blast
  then show ?thesis using ct_owns_add [OF own' d alloc(2) bytes(2)] by blast
qed

lemma ct_holds_other_extent:
  assumes own: "ct_owns ct m" "m o2 = Some e" and d: "d \<noteq> []"
    and new: "pgs off (length d) \<inter> ct_alloc ct = {}"
  shows "off * PAGE + length d \<le> o2 * PAGE \<or> o2 * PAGE + length e \<le> off * PAGE"
proof -
  have "pgs off (length d) \<inter> pgs o2 (length e) = {}" using new ct_ownsD(3) [OF own] by blast
  then show ?thesis using page_bytes_disjoint d ct_ownsD(1) [OF own] by simp
qed

lemma write_inner_append:
  assumes inv: "ct_inv ct" and own: "ct_owns ct m" and d: "d \<noteq> []" "length d < 268435456"
    and lim: "ct_data_file_size ct \<le> DATA_FILE_MAX_SIZE"
    and n: "n = max (ct_flen ct) (ct_data_file_size ct + page_count (length d) * PAGE)"
    and ct': "ct' = ct\<lparr>ct_bytes := bytes_put (bytes_put (ct_bytes ct) (ct_data_file_size ct) d)
                  (ct_data_file_size ct + length d) (replicate (page_tail (length d)) 0),
      ct_flen := n, ct_data_file_size := ct_data_file_size ct + page_count (length d) * PAGE\<rparr>"
  shows "ct_inv ct'" "m (ct_pages ct) = None \<and> ct_owns ct' (m(ct_pages ct \<mapsto> d))"
    "0 < ct_pages ct" "ct_pages ct < 268435456"
proof -
  let ?k = "page_count (length d)" and ?P = "ct_pages ct"
  have P: "?P \<le> 268434432" using data_limit_pages [OF lim] .
  have k: "?k \<le> 262144" using page_count_bound [OF d(2)] .
  have dfs: "ct_data_file_size ct = ?P * PAGE" using ct_invD(9) [OF inv] by (simp add: ct_pages_def)
  show "0 < ?P" using ct_invD(10) [OF inv] dfs by (cases ?P) (auto simp: PAGE_def)
  show "?P < 268435456" using P by simp
  have lim': "?P + ?k \<le> CT_PAGE_LIMIT" using P k by (simp add: CT_PAGE_LIMIT_def)
  note ap = ct_append_pages [OF inv lim' _ _ ct']
  have n': "ct_data_file_size ct + ?k * PAGE \<le> n" "ct_flen ct \<le> n" using n by simp_all
  show "ct_inv ct'" using ap(1) n' by simp
  have al: "ct_alloc ct' = ct_alloc ct \<union> pgs ?P (length d)" using ap(2) n' by (simp add: pgs_def)
  have new: "pgs ?P (length d) \<inter> ct_alloc ct = {}" by (auto simp: pgs_def ct_alloc_def)
  let ?b1 = "bytes_put (ct_bytes ct) (?P * PAGE) d"
  have hd: "ct_holds ct' ?P d"
    using n' map_upt_put [of "ct_bytes ct" "?P * PAGE" d] page_count_bytes [of "length d"]
      map_upt_put_other [of "?P * PAGE + length d" "replicate (page_tail (length d)) 0" "?P * PAGE" "length d" ?b1]
    by (simp add: ct_holds_def ct' dfs)
  have "ct_holds ct' o2 e" if "m o2 = Some e" for o2 e
  proof -
    have h: "ct_holds ct o2 e" using ct_ownsD(4) [OF own that] .
    have "pgs o2 (length e) \<subseteq> {1..<?P}" using ct_ownsD(3) [OF own that] by (auto simp: ct_alloc_def)
    moreover have "o2 + page_count (length e) - 1 \<in> pgs o2 (length e)"
      using ct_ownsD(1) [OF own that] by (intro pgs_last) simp
    ultimately have "o2 + page_count (length e) - 1 \<in> {1..<?P}" by blast
    then have "o2 + page_count (length e) \<le> ?P" by auto
    then have "(o2 + page_count (length e)) * PAGE \<le> ?P * PAGE" by (rule mult_le_mono1)
    then have le: "o2 * PAGE + length e \<le> ?P * PAGE"
      using page_count_bytes [of "length e"] by (simp add: add_mult_distrib)
    then have "map (ct_bytes ct') [o2 * PAGE..<o2 * PAGE + length e] = map (ct_bytes ct) [o2 * PAGE..<o2 * PAGE + length e]"
      by (simp add: ct' dfs map_upt_put_other)
    moreover have "ct_flen ct' = n" by (simp add: ct')
    ultimately show ?thesis using h n'(2) unfolding ct_holds_def by (metis le_trans)
  qed
  then show "m ?P = None \<and> ct_owns ct' (m(?P \<mapsto> d))"
    using ct_owns_written [OF own d new _ _ _ hd] al by auto
qed

lemma write_inner_reuse:
  assumes inv: "ct_inv ct" and own: "ct_owns ct m" and d: "d \<noteq> []" "length d < 268435456"
    and use: "use_free_block (page_count (length d)) ct = (Some off, ct1)"
    and ct': "ct' = ct1\<lparr>ct_bytes := bytes_put (ct_bytes ct1) (off * PAGE) d,
      ct_flen := max (ct_flen ct1) (off * PAGE + length d)\<rparr>"
  shows "ct_inv ct'" "m off = None \<and> ct_owns ct' (m(off \<mapsto> d))" "0 < off"
    "ct_inv ct1" "ct_owns ct1 m"
proof -
  have k: "0 < page_count (length d)" "page_count (length d) < 4294967296"
    using d page_count_bound [OF d(2)] by simp_all
  note u = use_free_block_Some [OF inv k use]
  have al: "ct_alloc ct1 = ct_alloc ct \<union> pgs off (length d)"
    using u(3,4) ct_free_bound [OF inv] same_data_pages [OF u(2)] by (auto simp: ct_alloc_def pgs_def)
  have new: "pgs off (length d) \<inter> ct_alloc ct = {}"
    using u(3) by (auto simp: pgs_def ct_alloc_def)
  show "0 < off" using u(3) ct_free_bound [OF inv] k(1) by (auto simp: subset_iff)
  show "ct_inv ct1" using u(1) .
  show "ct_inv ct'" unfolding ct' by (rule ct_inv_bytes [OF u(1)]) simp
  show "ct_owns ct1 m"
    by (rule ct_owns_mono [OF own])
      (use al ct_ownsD(3,4) [OF own] ct_holds_same [OF u(2)] in auto)
  have hd: "ct_holds ct' off d" by (simp add: ct_holds_def ct' map_upt_put)
  have "ct_holds ct' o2 e" if "m o2 = Some e" for o2 e
    by (rule ct_holds_frame [of ct1 _ _ "off * PAGE" d])
      (use ct_holds_other_extent [OF own that d(1) new] ct_ownsD(4) [OF own that] ct_holds_same [OF u(2)]
        in \<open>auto simp: ct'\<close>)
  then show "m off = None \<and> ct_owns ct' (m(off \<mapsto> d))"
    using ct_owns_written [OF own d new _ _ _ hd] al by (simp add: ct')
qed

section \<open>The operations\<close>

lemma write_inner_correct:
  assumes inv: "ct_inv ct" and own: "ct_owns ct m" and d: "d \<noteq> []" "length d < 268435456"
    and io: "content_io_ok io"
    and lim: "ct_data_file_size ct \<le> DATA_FILE_MAX_SIZE \<or> page_count (length d) \<le> ct_fb_max ct"
    and run: "ct_write_inner io d (page_count (length d)) (page_tail (length d)) ct = (ok, off, ct')"
  shows "ct_inv ct' \<and> (if ok then 0 < off \<and> m off = None \<and> ct_owns ct' (m(off \<mapsto> d)) else ct_owns ct' m)"
proof -
  have k: "0 < page_count (length d)" "page_count (length d) < 4294967296"
    using d page_count_bound [OF d(2)] by simp_all
  have len: "length d < 4294967296" "page_tail (length d) < 4294967296"
    using d(2) page_tail_le [of "length d"] by (simp_all add: PAGE_def)
  obtain r ct1 where use: "use_free_block (page_count (length d)) ct = (r, ct1)" by force
  show ?thesis
  proof (cases r)
    case None
    have ct1: "ct1 = ct" and max: "ct_fb_max ct < page_count (length d)"
      using use_free_block_None [OF inv k] use None by simp_all
    then have dl: "ct_data_file_size ct \<le> DATA_FILE_MAX_SIZE" using lim by simp
    have off: "trunc 32 (ct_data_file_size ct div PAGE) = ct_pages ct"
      using data_limit_pages [OF dl] by (simp add: ct_pages_def)
    show ?thesis
    proof (cases "\<forall>off n. io_pwrite io off n = int n")
      case True
      define ct2 where "ct2 = ct\<lparr>ct_bytes := bytes_put (bytes_put (ct_bytes ct) (ct_data_file_size ct) d)
          (ct_data_file_size ct + length d) (replicate (page_tail (length d)) 0),
        ct_flen := max (ct_flen ct) (ct_data_file_size ct + page_count (length d) * PAGE),
        ct_data_file_size := ct_data_file_size ct + page_count (length d) * PAGE\<rparr>"
      have "ok \<and> off = ct_pages ct \<and> ct' = ct2"
        using run use None ct1 off True len d(1) page_round [of "length d", symmetric]
        by (auto simp: ct_write_inner_def Let_def ct_pwrite_full ct2_def add.assoc max.assoc)
      then show ?thesis using write_inner_append [OF inv own d dl refl ct2_def] by simp
    next
      case False
      then have "io_pwrite io o1 n = -1" for o1 n using io by (auto simp: content_io_ok_def)
      then show ?thesis using run use None ct1 d inv own len
        by (auto simp: ct_write_inner_def Let_def ct_pwrite_fail)
    qed
  next
    case (Some o1)
    note ru = write_inner_reuse [OF inv own d use [unfolded Some] refl]
    show ?thesis
    proof (cases "\<forall>off n. io_pwrite io off n = int n")
      case True
      then show ?thesis
        using run use Some ru len d(1) by (auto simp: ct_write_inner_def Let_def ct_pwrite_full)
    next
      case False
      then have "io_pwrite io o1 n = -1" for o1 n using io by (auto simp: content_io_ok_def)
      then show ?thesis using run use Some ru d
        by (auto simp: ct_write_inner_def Let_def ct_pwrite_fail)
    qed
  qed
qed

lemma ct_write_correct:
  assumes "ct_inv ct" "ct_owns ct m" "d \<noteq> []" "length d < 268435456" "content_io_ok io"
    and "ct_write io d ct = (ok, off, ct')"
  shows "ct_inv ct' \<and> (if ok then 0 < off \<and> m off = None \<and> ct_owns ct' (m(off \<mapsto> d)) else ct_owns ct' m)"
  using assms write_inner_correct [OF assms(1-5)]
  by (auto simp: ct_write_def Let_def not_less split: if_splits)

lemma ct_owns_without:
  assumes "ct_owns ct m" "m off = Some e" "ct_alloc ct - pgs off (length e) \<subseteq> ct_alloc ct'" "same_data ct ct'"
  shows "ct_owns ct' (m(off := None))"
proof (rule ct_owns_mono [OF assms(1)])
  fix o1 d assume m': "(m(off := None)) o1 = Some d"
  then have m: "m o1 = Some d" "o1 \<noteq> off" by (auto split: if_splits)
  show "m o1 = Some d" using m(1) .
  have "pgs o1 (length d) \<inter> pgs off (length e) = {}" using ct_ownsD(5) [OF assms(1) m(1) assms(2) m(2)] .
  then show "pgs o1 (length d) \<subseteq> ct_alloc ct'" using ct_ownsD(3) [OF assms(1) m(1)] assms(3) by blast
  show "ct_holds ct' o1 d" using ct_ownsD(4) [OF assms(1) m(1)] ct_holds_same [OF assms(4)] by simp
qed

lemma ct_del_correct:
  assumes inv: "ct_inv ct" and own: "ct_owns ct m" and e: "m off = Some e" and io: "content_io_ok io"
    and run: "ct_del io off (length e) ct = (ok, ct')"
  shows "ct_inv ct' \<and> (if ok then ct_owns ct' (m(off := None)) else ct' = ct)"
proof -
  have ext: "{off..<off + page_count (length e)} \<subseteq> ct_alloc ct"
    using ct_ownsD(3) [OF own e] by (simp add: pgs_def)
  have t: "table_io_ok io" using io by (simp add: content_io_ok_def)
  note a = add_free_block_correct [OF inv t ext run [unfolded ct_del_def]]
  show ?thesis
  proof (cases ok)
    case True
    have "ct_alloc ct - pgs off (length e) \<subseteq> ct_alloc ct'"
      using a True same_data_pages [of ct ct'] by (auto simp: ct_alloc_def pgs_def)
    then show ?thesis using a True ct_owns_without [OF own e] by auto
  qed (use a inv in auto)
qed

text \<open>Updating in place: the value keeps its first pages and returns the others.\<close>

lemma ct_overwrite:
  assumes inv: "ct_inv ct" and own: "ct_owns ct m" and e: "m off = Some e"
    and d: "d \<noteq> []" "length d < 268435456" "page_count (length d) \<le> page_count (length e)"
    and ct': "ct' = ct\<lparr>ct_bytes := bytes_put (ct_bytes ct) (off * PAGE) d,
      ct_flen := max (ct_flen ct) (off * PAGE + length d)\<rparr>"
  shows "ct_inv ct'" "ct_owns ct' (m(off \<mapsto> d))"
proof -
  have sub: "pgs off (length d) \<subseteq> pgs off (length e)" using d(3) by (auto simp: pgs_def)
  show "ct_inv ct'" unfolding ct' by (rule ct_inv_bytes [OF inv]) simp
  have rest: "ct_owns ct' (m(off := None))"
  proof (rule ct_owns_mono [OF own])
    fix o1 x assume "(m(off := None)) o1 = Some x"
    then have m: "m o1 = Some x" "off \<noteq> o1" by (auto split: if_splits)
    show "m o1 = Some x" using m(1) .
    show "pgs o1 (length x) \<subseteq> ct_alloc ct'" using ct_ownsD(3) [OF own m(1)] by (simp add: ct')
    have "pgs off (length d) \<inter> pgs o1 (length x) = {}" using ct_ownsD(5) [OF own e m] sub by blast
    then have "off * PAGE + length d \<le> o1 * PAGE \<or> o1 * PAGE + length x \<le> off * PAGE"
      using page_bytes_disjoint d(1) ct_ownsD(1) [OF own m(1)] by simp
    then show "ct_holds ct' o1 x"
      by (rule ct_holds_frame [OF ct_ownsD(4) [OF own m(1)]]) (simp_all add: ct')
  qed
  have "pgs off (length d) \<inter> pgs o1 (length x) = {}" if "(m(off := None)) o1 = Some x" for o1 x
    using that ct_ownsD(5) [OF own e, of o1 x] sub by (auto split: if_splits)
  moreover have "ct_holds ct' off d" by (simp add: ct_holds_def ct' map_upt_put)
  moreover have "pgs off (length d) \<subseteq> ct_alloc ct'" using ct_ownsD(3) [OF own e] sub by (simp add: ct')
  ultimately have "ct_owns ct' ((m(off := None))(off \<mapsto> d))"
    using ct_owns_add(2) [OF rest d(1,2)] by blast
  then show "ct_owns ct' (m(off \<mapsto> d))" by simp
qed

lemma ct_owns_shrink:
  assumes own: "ct_owns ct m" and d: "m off = Some d" and sd: "same_data ct ct'"
    and al: "ct_alloc ct - X \<subseteq> ct_alloc ct'" and X: "\<And>o1 x. m o1 = Some x \<Longrightarrow> pgs o1 (length x) \<inter> X = {}"
  shows "ct_owns ct' m"
proof (rule ct_owns_mono [OF own])
  fix o1 x assume m: "m o1 = Some x"
  show "m o1 = Some x" by (rule m)
  show "pgs o1 (length x) \<subseteq> ct_alloc ct'" using ct_ownsD(3) [OF own m] X [OF m] al by blast
  show "ct_holds ct' o1 x" using ct_ownsD(4) [OF own m] ct_holds_same [OF sd] by simp
qed

lemma parse_free_block_max [simp]: "ct_fb_max (parse_free_block ct) = ct_fb_max ct"
  by (simp add: parse_free_block_def Let_def split: prod.splits)

lemma add_free_block_max: "add_free_block io sz off ct = (True, ct') \<Longrightarrow> ct_fb_max ct \<le> ct_fb_max ct'"
  by (auto simp: add_free_block_def incr_free_block_file_def Let_def split: if_splits prod.splits)

lemma ct_owns_forget: "ct_owns ct m \<Longrightarrow> ct_owns ct (m(off := None))"
  by (rule ct_owns_mono [of ct m]) (auto dest: ct_ownsD split: if_splits)

lemma ct_update_in_place:
  assumes inv: "ct_inv ct" and own: "ct_owns ct m" and e: "m off = Some e" and io: "content_io_ok io"
    and d: "d \<noteq> []" "length d < 268435456" "page_count (length d) \<le> page_count (length e)"
    and run: "ct_update io off (length e) d ct = (ok, off', ct')"
  shows "off' = off \<and> ct_inv ct' \<and> (if ok then ct_owns ct' (m(off \<mapsto> d)) else ct_owns ct' (m(off := None)))"
proof (cases "\<forall>off n. io_pwrite io off n = int n")
  case False
  then have "io_pwrite io o1 n = -1" for o1 n using io by (auto simp: content_io_ok_def)
  then show ?thesis
    using run inv ct_owns_forget [OF own] d by (auto simp: ct_update_def Let_def ct_pwrite_fail split: if_splits)
next
  case True
  let ?k = "page_count (length d)" and ?j = "page_count (length e)"
  define ct1 where "ct1 = ct\<lparr>ct_bytes := bytes_put (ct_bytes ct) (off * PAGE) d,
    ct_flen := max (ct_flen ct) (off * PAGE + length d)\<rparr>"
  note ow = ct_overwrite [OF inv own e d ct1_def]
  have pw: "ct_pwrite io d (off * PAGE) ct = (length d, ct1)"
    using ct_pwrite_full [of io "off * PAGE" d ct] True d by (simp add: ct1_def)
  show ?thesis
  proof (cases "?k = ?j")
    case eq: True
    then show ?thesis using run pw ow by (simp add: ct_update_def Let_def)
  next
    case False
    have sub: "{off + ?k..<off + ?j} \<subseteq> ct_alloc ct1"
      using ct_ownsD(3) [OF own e] by (auto simp: pgs_def ct1_def)
    have "off + ?j - 1 \<in> ct_alloc ct"
      using ct_ownsD(1) [OF own e] by (intro subsetD [OF ct_ownsD(3) [OF own e]] pgs_last) simp
    then have "off + ?j \<le> CT_PAGE_LIMIT" using ct_invD(12) [OF inv] by (auto simp: ct_alloc_def)
    then have tr: "trunc 32 (off + ?k) = off + ?k"
      using d(3) by (intro trunc_id) (simp add: CT_PAGE_LIMIT_def)
    have eq: "off + ?k + (?j - ?k) = off + ?j" using d(3) by simp
    obtain ok2 ct2 where ad: "add_free_block io (?j - ?k) (off + ?k) ct1 = (ok2, ct2)" by force
    have res: "ok = ok2" "off' = off" "ct' = ct2"
      using run pw False d(3) tr ad by (simp_all add: ct_update_def Let_def)
    have t: "table_io_ok io" using io by (simp add: content_io_ok_def)
    note a = add_free_block_correct [OF ow(1) t _ ad, unfolded eq, OF sub]
    show ?thesis
    proof (cases ok2)
      case True
      let ?X = "{off + ?k..<off + ?j}"
      have al: "ct_alloc ct1 - ?X \<subseteq> ct_alloc ct2"
        using a True same_data_pages [of ct1 ct2] by (auto simp: ct_alloc_def)
      have X: "pgs o1 (length x) \<inter> ?X = {}" if "(m(off \<mapsto> d)) o1 = Some x" for o1 x
      proof (cases "o1 = off")
        case False
        then have "pgs off (length e) \<inter> pgs o1 (length x) = {}" using ct_ownsD(5) [OF own e, of o1 x] that by simp
        then show ?thesis by (auto simp: pgs_def)
      qed (use that in \<open>auto simp: pgs_def\<close>)
      have "ct_owns ct2 (m(off \<mapsto> d))"
        by (rule ct_owns_shrink [OF ow(2) _ _ al X]) (use a True in auto)
      then show ?thesis using a True res by simp
    next
      case False
      then show ?thesis using a res ow ct_owns_forget [OF ow(2), of off] by simp
    qed
  qed
qed

lemma ct_update_move:
  assumes inv: "ct_inv ct" and own: "ct_owns ct m" and e: "m off = Some e" and io: "content_io_ok io"
    and d: "d \<noteq> []" "length d < 268435456" "\<not> page_count (length d) \<le> page_count (length e)"
    and run: "ct_update io off (length e) d ct = (ok, off', ct')"
  shows "ct_inv ct' \<and> (if ok then 0 < off' \<and> (m(off := None)) off' = None
      \<and> ct_owns ct' ((m(off := None))(off' \<mapsto> d)) else ct_owns ct' (m(off := None)))"
proof (cases "ct_data_file_size ct > DATA_FILE_MAX_SIZE \<and> ct_fb_max ct < page_count (length d)")
  case True
  then show ?thesis using run inv ct_owns_forget [OF own] d(3) by (auto simp: ct_update_def Let_def)
next
  case False
  let ?k = "page_count (length d)"
  obtain ok1 ct1 where ad: "add_free_block io (page_count (length e)) off ct = (ok1, ct1)" by force
  have del: "ct_inv ct1 \<and> (if ok1 then ct_owns ct1 (m(off := None)) else ct1 = ct)"
    using ct_del_correct [OF inv own e io, of ok1 ct1] ad by (simp add: ct_del_def)
  show ?thesis
  proof (cases ok1)
    case True
    have wr: "ct_write_inner io d ?k (page_tail (length d)) ct1 = (ok, off', ct')"
      using run False d(3) ad True by (simp add: ct_update_def Let_def)
    have ext: "{off..<off + page_count (length e)} \<subseteq> ct_alloc ct"
      using ct_ownsD(3) [OF own e] by (simp add: pgs_def)
    have "same_data ct ct1"
      using add_free_block_correct [OF inv _ ext ad] True io by (simp add: content_io_ok_def)
    then have lim: "ct_data_file_size ct1 \<le> DATA_FILE_MAX_SIZE \<or> ?k \<le> ct_fb_max ct1"
      using False add_free_block_max [of io _ off ct ct1] ad True by (fastforce simp: same_data_def)
    have "ct_inv ct1" "ct_owns ct1 (m(off := None))" using del True by simp_all
    then show ?thesis by (rule write_inner_correct [OF _ _ d(1,2) io lim wr])
  next
    case False
    then show ?thesis
      using run \<open>\<not> (_ \<and> _)\<close> d(3) ad del inv ct_owns_forget [OF own] by (auto simp: ct_update_def Let_def)
  qed
qed

lemma ct_update_correct:
  assumes "ct_inv ct" "ct_owns ct m" "m off = Some e" "content_io_ok io" "d \<noteq> []" "length d < 268435456"
    and run: "ct_update io off (length e) d ct = (ok, off', ct')"
  shows "ct_inv ct' \<and> (if ok then (off' = off \<or> 0 < off') \<and> (off' = off \<or> m off' = None)
      \<and> ct_owns ct' ((m(off := None))(off' \<mapsto> d)) else ct_owns ct' (m(off := None)))"
proof (cases "page_count (length d) \<le> page_count (length e)")
  case True
  show ?thesis using ct_update_in_place [OF assms(1-6) True run] by simp
next
  case False
  show ?thesis using ct_update_move [OF assms(1-6) False run] by (auto split: if_splits)
qed

end
