(* ===== verification/Content_Array.thy ===== *)
theory Content_Array
  imports Content_Store
begin

text \<open>
  The set of value files (\<open>content_array.cpp\<close>): writes go round robin over the files and
  try the next one after a failure. The store of values is an interface, a locale, with
  what a client that keeps handles can rely on; the array is its provider.
\<close>

section \<open>The array\<close>

text \<open>
  The pointers of \<open>m_contents\<close> are never null: only opened files are pushed.
\<close>

record content_array_t =
  ca_ok :: bool
  ca_token :: nat
  ca_contents :: "content2_t list"

text \<open>\<open>opened\<close> gives, per file number, what \<open>make_dir\<close> and \<open>content2_t::open\<close> answer.\<close>

primrec content_array_open_loop ::
  "(nat \<Rightarrow> bool) \<Rightarrow> (nat \<Rightarrow> content2_t option) \<Rightarrow> nat list \<Rightarrow> content2_t list \<Rightarrow> content2_t list option" where
  "content_array_open_loop dir_ok opened [] cs = Some cs"
| "content_array_open_loop dir_ok opened (i # is) cs =
     (if \<not> dir_ok i then None
      else case opened i of
             None \<Rightarrow> None
           | Some ct \<Rightarrow> content_array_open_loop dir_ok opened is (cs @ [ct]))"

definition content_array_open ::
  "bytes \<Rightarrow> int \<Rightarrow> (nat \<Rightarrow> bool) \<Rightarrow> (nat \<Rightarrow> content2_t option) \<Rightarrow> content_array_t
   \<Rightarrow> content_array_t option" where
  "content_array_open path cnt dir_ok opened ca =
     (if ca_contents ca \<noteq> [] \<or> path = [] \<or> cnt \<le> 0 \<or> cnt > 256 then None
      else case content_array_open_loop dir_ok opened [0..<nat cnt] [] of
             None \<Rightarrow> None
           | Some cs \<Rightarrow> Some (ca\<lparr>ca_contents := cs, ca_ok := True\<rparr>))"

definition ca_update ::
  "(nat \<Rightarrow> content_io) \<Rightarrow> nat \<Rightarrow> nat \<Rightarrow> nat \<Rightarrow> bytes \<Rightarrow> content_array_t \<Rightarrow> bool \<times> nat \<times> content_array_t" where
  "ca_update io file_id data_id old_data_len data ca =
     (if \<not> ca_ok ca \<or> file_id \<ge> length (ca_contents ca) then (False, data_id, ca)
      else let (ok, off, ct) = ct_update (io file_id) data_id old_data_len data (ca_contents ca ! file_id)
           in (ok, off, ca\<lparr>ca_contents := (ca_contents ca)[file_id := ct]\<rparr>))"

fun ca_write_loop ::
  "(nat \<Rightarrow> content_io) \<Rightarrow> nat \<Rightarrow> bytes \<Rightarrow> content_array_t \<Rightarrow> (nat \<times> nat) option \<times> content_array_t" where
  "ca_write_loop io 0 data ca = (None, ca)"
| "ca_write_loop io (Suc n) data ca =
     (let token = trunc 32 (ca_token ca + 1);
          file_id = token mod length (ca_contents ca);
          (ok, off, ct) = ct_write (io file_id) data (ca_contents ca ! file_id);
          ca' = ca\<lparr>ca_token := token, ca_contents := (ca_contents ca)[file_id := ct]\<rparr>
      in if ok then (Some (file_id, off), ca') else ca_write_loop io n data ca')"

definition ca_write ::
  "(nat \<Rightarrow> content_io) \<Rightarrow> bytes \<Rightarrow> content_array_t \<Rightarrow> (nat \<times> nat) option \<times> content_array_t" where
  "ca_write io data ca =
     (if \<not> ca_ok ca then (None, ca) else ca_write_loop io (length (ca_contents ca)) data ca)"

definition ca_get ::
  "(nat \<Rightarrow> content_io) \<Rightarrow> nat \<Rightarrow> nat \<Rightarrow> nat \<Rightarrow> content_array_t \<Rightarrow> bytes option" where
  "ca_get io file_id data_id data_len ca =
     (if \<not> ca_ok ca \<or> file_id \<ge> length (ca_contents ca) then None
      else ct_get (io file_id) data_id data_len (ca_contents ca ! file_id))"

definition ca_del ::
  "(nat \<Rightarrow> content_io) \<Rightarrow> nat \<Rightarrow> nat \<Rightarrow> nat \<Rightarrow> content_array_t \<Rightarrow> bool \<times> content_array_t" where
  "ca_del io file_id data_id data_len ca =
     (if \<not> ca_ok ca \<or> file_id \<ge> length (ca_contents ca) then (False, ca)
      else let (ok, ct) = ct_del (io file_id) data_id data_len (ca_contents ca ! file_id)
           in (ok, ca\<lparr>ca_contents := (ca_contents ca)[file_id := ct]\<rparr>))"

section \<open>The interface of a store of values\<close>

text \<open>
  A client names values by keys and remembers a handle and a length per key, the way the
  engine keeps \<open>content_id_t\<close> in the key record: the first value of a key is written, a
  later one updates it. A client that gets an error for an update forgets the key.
\<close>

datatype 'k store_op = Put 'k bytes | Remove 'k

type_synonym ('k, 'h) table = "'k \<rightharpoonup> 'h \<times> bytes"

text \<open>
  The interface: \<open>wr\<close> stores a value and returns a handle, \<open>up\<close> replaces the value of a
  handle, \<open>rd\<close> reads by handle and length, \<open>dl\<close> frees. \<open>owns s m\<close> says that \<open>s\<close> is
  well-formed and holds the values \<open>m\<close>.
\<close>

locale value_store =
  fixes wr :: "'io \<Rightarrow> bytes \<Rightarrow> 's \<Rightarrow> 'h option \<times> 's"
    and up :: "'io \<Rightarrow> 'h \<Rightarrow> nat \<Rightarrow> bytes \<Rightarrow> 's \<Rightarrow> 'h option \<times> 's"
    and rd :: "'io \<Rightarrow> 'h \<Rightarrow> nat \<Rightarrow> 's \<Rightarrow> bytes option"
    and dl :: "'io \<Rightarrow> 'h \<Rightarrow> nat \<Rightarrow> 's \<Rightarrow> bool \<times> 's"
    and io_ok :: "'io \<Rightarrow> bool" and rd_ok :: "'io \<Rightarrow> bool" and value_ok :: "bytes \<Rightarrow> bool"
    and owns :: "'s \<Rightarrow> ('h \<rightharpoonup> bytes) \<Rightarrow> bool"
  assumes wr_some: "owns s m \<Longrightarrow> io_ok io \<Longrightarrow> value_ok d \<Longrightarrow> wr io d s = (Some h, s') \<Longrightarrow>
      m h = None \<and> owns s' (m(h \<mapsto> d))"
    and wr_none: "owns s m \<Longrightarrow> io_ok io \<Longrightarrow> value_ok d \<Longrightarrow> wr io d s = (None, s') \<Longrightarrow> owns s' m"
    and up_some: "owns s m \<Longrightarrow> io_ok io \<Longrightarrow> value_ok d \<Longrightarrow> m h = Some e \<Longrightarrow>
      up io h (length e) d s = (Some h', s') \<Longrightarrow>
      (m(h := None)) h' = None \<and> owns s' ((m(h := None))(h' \<mapsto> d))"
    and up_none: "owns s m \<Longrightarrow> io_ok io \<Longrightarrow> value_ok d \<Longrightarrow> m h = Some e \<Longrightarrow>
      up io h (length e) d s = (None, s') \<Longrightarrow> owns s' (m(h := None))"
    and rd_owned: "owns s m \<Longrightarrow> m h = Some e \<Longrightarrow> rd_ok io \<Longrightarrow> rd io h (length e) s = Some e"
    and dl_true: "owns s m \<Longrightarrow> io_ok io \<Longrightarrow> m h = Some e \<Longrightarrow> dl io h (length e) s = (True, s') \<Longrightarrow>
      owns s' (m(h := None))"
    and dl_false: "owns s m \<Longrightarrow> io_ok io \<Longrightarrow> m h = Some e \<Longrightarrow> dl io h (length e) s = (False, s') \<Longrightarrow>
      owns s' m"

text \<open>One client operation. The table also records the value, which is the specification.\<close>

fun store_step ::
  "('io \<Rightarrow> bytes \<Rightarrow> 's \<Rightarrow> 'h option \<times> 's) \<Rightarrow> ('io \<Rightarrow> 'h \<Rightarrow> nat \<Rightarrow> bytes \<Rightarrow> 's \<Rightarrow> 'h option \<times> 's)
   \<Rightarrow> ('io \<Rightarrow> 'h \<Rightarrow> nat \<Rightarrow> 's \<Rightarrow> bool \<times> 's)
   \<Rightarrow> 'io \<times> 'k store_op \<Rightarrow> ('k, 'h) table \<times> 's \<Rightarrow> ('k, 'h) table \<times> 's" where
  "store_step wr up dl (io, Put k d) (t, s) =
     (case t k of
        None \<Rightarrow> (case wr io d s of (None, s') \<Rightarrow> (t, s') | (Some h, s') \<Rightarrow> (t(k \<mapsto> (h, d)), s'))
      | Some (h, e) \<Rightarrow>
          (case up io h (length e) d s of
             (None, s') \<Rightarrow> (t(k := None), s') | (Some h', s') \<Rightarrow> (t(k \<mapsto> (h', d)), s')))"
| "store_step wr up dl (io, Remove k) (t, s) =
     (case t k of
        None \<Rightarrow> (t, s)
      | Some (h, e) \<Rightarrow> (case dl io h (length e) s of (_, s') \<Rightarrow> (t(k := None), s')))"

definition store_run where
  "store_run wr up dl ops ts = fold (store_step wr up dl) ops ts"

text \<open>The table and the store agree: handles are not shared, and each names its value.\<close>

definition table_owned :: "('s \<Rightarrow> ('h \<rightharpoonup> bytes) \<Rightarrow> bool) \<Rightarrow> ('k, 'h) table \<Rightarrow> 's \<Rightarrow> bool" where
  "table_owned owns t s \<longleftrightarrow>
     (\<exists>m. owns s m \<and> (\<forall>k h d. t k = Some (h, d) \<longrightarrow> m h = Some d)
        \<and> (\<forall>k l h d e. t k = Some (h, d) \<longrightarrow> t l = Some (h, e) \<longrightarrow> k = l))"

context value_store
begin

lemma step_put:
  assumes t: "table_owned owns t s" and io: "io_ok io" "value_ok d"
    and st: "store_step wr up dl (io, Put k d) (t, s) = (t', s')"
  shows "table_owned owns t' s'"
proof -
  obtain m where m: "owns s m" "\<And>k h d. t k = Some (h, d) \<Longrightarrow> m h = Some d"
    "\<And>k l h d e. t k = Some (h, d) \<Longrightarrow> t l = Some (h, e) \<Longrightarrow> k = l"
    using t unfolding table_owned_def by metis
  show ?thesis
  proof (cases "t k")
    case None
    obtain r s1 where w: "wr io d s = (r, s1)" by force
    show ?thesis
    proof (cases r)
      case (Some h)
      have h: "m h = None" "owns s1 (m(h \<mapsto> d))" using wr_some [OF m(1) io w [unfolded Some]] by auto
      have "t l \<noteq> Some (h, e)" for l e using m(2) h(1) by fastforce
      moreover have "t' = t(k \<mapsto> (h, d))" "s' = s1" using st None w Some by auto
      ultimately show ?thesis
        unfolding table_owned_def using h m(2,3) None by (intro exI [of _ "m(h \<mapsto> d)"]) (auto split: if_splits)
    next
      case None': None
      then have "owns s1 m" "t' = t" "s' = s1" using wr_none [OF m(1) io] st None w by auto
      then show ?thesis unfolding table_owned_def using m(2,3) by blast
    qed
  next
    case (Some a)
    then obtain h e where he: "t k = Some (h, e)" by force
    obtain r s1 where u: "up io h (length e) d s = (r, s1)" by force
    have mh: "m h = Some e" using m(2) he by blast
    have others: "h' \<noteq> h" if "t l = Some (h', x)" "l \<noteq> k" for l h' x using m(3) [OF he] that by blast
    show ?thesis
    proof (cases r)
      case (Some h')
      have h': "(m(h := None)) h' = None" "owns s1 ((m(h := None))(h' \<mapsto> d))"
        using up_some [OF m(1) io mh u [unfolded Some]] by auto
      have ne: "t l \<noteq> Some (h', x)" if "l \<noteq> k" for l x
        using others [of l h' x] m(2) [of l h' x] h'(1) that by (auto split: if_splits)
      have "t' = t(k \<mapsto> (h', d))" "s' = s1" using st he u Some by auto
      then show ?thesis
        unfolding table_owned_def
        using h'(2) m(2,3) others ne by (intro exI [of _ "(m(h := None))(h' \<mapsto> d)"]) (auto split: if_splits)
    next
      case None
      have "owns s1 (m(h := None))" using up_none [OF m(1) io mh u [unfolded None]] .
      moreover have "t' = t(k := None)" "s' = s1" using st he u None by auto
      ultimately show ?thesis
        unfolding table_owned_def using m(2,3) others by (intro exI [of _ "m(h := None)"]) (auto split: if_splits)
    qed
  qed
qed

lemma step_remove:
  assumes t: "table_owned owns t s" and io: "io_ok io"
    and st: "store_step wr up dl (io, Remove k) (t, s) = (t', s')"
  shows "table_owned owns t' s'"
proof -
  obtain m where m: "owns s m" "\<And>k h d. t k = Some (h, d) \<Longrightarrow> m h = Some d"
    "\<And>k l h d e. t k = Some (h, d) \<Longrightarrow> t l = Some (h, e) \<Longrightarrow> k = l"
    using t unfolding table_owned_def by metis
  show ?thesis
  proof (cases "t k")
    case None
    then show ?thesis using st t by auto
  next
    case (Some a)
    then obtain h e where he: "t k = Some (h, e)" by force
    obtain r s1 where u: "dl io h (length e) s = (r, s1)" by force
    have mh: "m h = Some e" using m(2) he by blast
    have others: "h' \<noteq> h" if "t l = Some (h', x)" "l \<noteq> k" for l h' x using m(3) [OF he] that by blast
    obtain m' where "owns s1 m'" "\<And>h'. h' \<noteq> h \<Longrightarrow> m' h' = m h'"
      using dl_true [OF m(1) io mh] dl_false [OF m(1) io mh] u by (cases r) fastforce+
    moreover have "t' = t(k := None)" "s' = s1" using st he u by auto
    ultimately show ?thesis
      unfolding table_owned_def using m(2,3) others by (intro exI [of _ m']) (auto split: if_splits)
  qed
qed

lemma run_owned:
  assumes "table_owned owns t s"
    and "\<forall>(io, op)\<in>set ops. io_ok io \<and> (\<forall>k d. op = Put k d \<longrightarrow> value_ok d)"
    and "store_run wr up dl ops (t, s) = (t', s')"
  shows "table_owned owns t' s'"
  using assms
proof (induction ops arbitrary: t s)
  case (Cons a ops)
  obtain io op where a: "a = (io, op)" by force
  obtain t1 s1 where st: "store_step wr up dl (io, op) (t, s) = (t1, s1)" by force
  have "table_owned owns t1 s1"
    using Cons.prems(1,2) st step_put step_remove unfolding a by (cases op) auto
  then show ?case using Cons.IH Cons.prems(2,3) st unfolding a store_run_def by simp
qed (simp add: store_run_def)

lemma run_reads:
  assumes "table_owned owns t s"
    and "\<forall>(io, op)\<in>set ops. io_ok io \<and> (\<forall>k d. op = Put k d \<longrightarrow> value_ok d)"
    and "store_run wr up dl ops (t, s) = (t', s')" and "t' k = Some (h, d)" and "rd_ok io"
  shows "rd io h (length d) s' = Some d"
  using run_owned [OF assms(1-3)] rd_owned assms(4,5) unfolding table_owned_def by metis

end

section \<open>The array provides the interface\<close>

text \<open>Handles are pairs of a file number and a page number.\<close>

fun ca_up :: "(nat \<Rightarrow> content_io) \<Rightarrow> nat \<times> nat \<Rightarrow> nat \<Rightarrow> bytes \<Rightarrow> content_array_t
    \<Rightarrow> (nat \<times> nat) option \<times> content_array_t" where
  "ca_up io (f, p) len d ca =
     (case ca_update io f p len d ca of (ok, q, ca') \<Rightarrow> (if ok then Some (f, q) else None, ca'))"

fun ca_rd :: "(nat \<Rightarrow> content_io) \<Rightarrow> nat \<times> nat \<Rightarrow> nat \<Rightarrow> content_array_t \<Rightarrow> bytes option" where
  "ca_rd io (f, p) len ca = ca_get io f p len ca"

fun ca_dl :: "(nat \<Rightarrow> content_io) \<Rightarrow> nat \<times> nat \<Rightarrow> nat \<Rightarrow> content_array_t \<Rightarrow> bool \<times> content_array_t" where
  "ca_dl io (f, p) len ca = ca_del io f p len ca"

definition ca_owns :: "content_array_t \<Rightarrow> (nat \<times> nat \<rightharpoonup> bytes) \<Rightarrow> bool" where
  "ca_owns ca m \<longleftrightarrow>
     ca_ok ca \<and> 0 < length (ca_contents ca)
     \<and> (\<forall>i<length (ca_contents ca). ct_inv (ca_contents ca ! i) \<and> ct_owns (ca_contents ca ! i) (\<lambda>p. m (i, p)))
     \<and> (\<forall>i\<ge>length (ca_contents ca). \<forall>p. m (i, p) = None)"

definition value_ok :: "bytes \<Rightarrow> bool" where
  "value_ok d \<longleftrightarrow> d \<noteq> [] \<and> length d < 268435456"

definition ca_io_ok :: "(nat \<Rightarrow> content_io) \<Rightarrow> bool" where
  "ca_io_ok io \<longleftrightarrow> (\<forall>i. content_io_ok (io i))"

definition ca_rd_ok :: "(nat \<Rightarrow> content_io) \<Rightarrow> bool" where
  "ca_rd_ok io \<longleftrightarrow> (\<forall>i. io_pread (io i))"

lemma ca_owns_set:
  assumes own: "ca_owns ca m" and i: "i < length (ca_contents ca)"
    and ct: "ct_inv ct" "ct_owns ct (\<lambda>p. m' (i, p))"
    and m': "\<And>j p. j \<noteq> i \<Longrightarrow> m' (j, p) = m (j, p)"
  shows "ca_owns (ca\<lparr>ca_token := tk, ca_contents := (ca_contents ca)[i := ct]\<rparr>) m'"
proof -
  have "(\<lambda>p. m' (j, p)) = (\<lambda>p. m (j, p))" if "j \<noteq> i" for j using m' that by (simp add: fun_eq_iff)
  then show ?thesis using own i ct m' unfolding ca_owns_def by (auto simp: nth_list_update)
qed

lemma ca_ownsD:
  assumes "ca_owns ca m" "i < length (ca_contents ca)"
  shows "ct_inv (ca_contents ca ! i)" "ct_owns (ca_contents ca ! i) (\<lambda>p. m (i, p))"
  using assms unfolding ca_owns_def by simp_all

lemma ca_owns_file: "ca_owns ca m \<Longrightarrow> m (i, p) = Some d \<Longrightarrow> i < length (ca_contents ca)"
  unfolding ca_owns_def by (metis not_le option.distinct(1))

lemma ca_no_token: "ca\<lparr>ca_contents := cs\<rparr> = ca\<lparr>ca_token := ca_token ca, ca_contents := cs\<rparr>"
  by simp

lemma ca_write_loop_correct:
  assumes "ca_owns ca m" "ca_io_ok io" "value_ok d" "ca_write_loop io n d ca = (r, ca')"
  shows "case r of None \<Rightarrow> ca_owns ca' m | Some h \<Rightarrow> m h = None \<and> ca_owns ca' (m(h \<mapsto> d))"
  using assms
proof (induction n arbitrary: ca)
  case (Suc n)
  define tk where "tk = trunc 32 (ca_token ca + 1)"
  define f where "f = tk mod length (ca_contents ca)"
  have f: "f < length (ca_contents ca)" using Suc.prems(1) by (simp add: ca_owns_def f_def)
  obtain ok off ct where w: "ct_write (io f) d (ca_contents ca ! f) = (ok, off, ct)" by (metis prod.exhaust)
  let ?ca = "ca\<lparr>ca_token := tk, ca_contents := (ca_contents ca)[f := ct]\<rparr>"
  have step: "(if ok then (Some (f, off), ?ca) else ca_write_loop io n d ?ca) = (r, ca')"
    using Suc.prems(4) w unfolding ca_write_loop.simps Let_def tk_def [symmetric] f_def [symmetric] by simp
  have wc: "ct_inv ct \<and> (if ok then 0 < off \<and> m (f, off) = None \<and> ct_owns ct ((\<lambda>p. m (f, p))(off \<mapsto> d))
      else ct_owns ct (\<lambda>p. m (f, p)))"
    using ct_write_correct [OF ca_ownsD [OF Suc.prems(1) f] _ _ _ w] Suc.prems(2,3)
    by (simp add: ca_io_ok_def value_ok_def)
  show ?case
  proof (cases ok)
    case True
    have "(\<lambda>p. (m((f, off) \<mapsto> d)) (f, p)) = (\<lambda>p. m (f, p))(off \<mapsto> d)" by (auto simp: fun_eq_iff)
    then have "ca_owns ?ca (m((f, off) \<mapsto> d))"
      using wc True by (intro ca_owns_set [OF Suc.prems(1) f]) auto
    then show ?thesis using step True wc by auto
  next
    case False
    have "ca_owns ?ca m" using wc False by (intro ca_owns_set [OF Suc.prems(1) f]) auto
    then show ?thesis using Suc.IH [of ?ca] Suc.prems(2,3) step False by simp
  qed
qed auto

lemma ca_up_correct:
  assumes own: "ca_owns ca m" and io: "ca_io_ok io" and d: "value_ok d" and e: "m h = Some e"
    and run: "ca_up io h (length e) d ca = (r, ca')"
  shows "case r of None \<Rightarrow> ca_owns ca' (m(h := None))
    | Some h' \<Rightarrow> (m(h := None)) h' = None \<and> ca_owns ca' ((m(h := None))(h' \<mapsto> d))"
proof -
  obtain f p where h: "h = (f, p)" by force
  have f: "f < length (ca_contents ca)" using ca_owns_file [OF own] e h by simp
  obtain ok q ct where u: "ct_update (io f) p (length e) d (ca_contents ca ! f) = (ok, q, ct)" by (metis prod.exhaust)
  have uc: "ct_inv ct \<and> (if ok then (q = p \<or> 0 < q) \<and> (q = p \<or> m (f, q) = None)
      \<and> ct_owns ct ((\<lambda>x. m (f, x))(p := None, q \<mapsto> d)) else ct_owns ct ((\<lambda>x. m (f, x))(p := None)))"
    using ct_update_correct [OF ca_ownsD [OF own f] _ _ _ _ u] io d e h
    by (simp add: ca_io_ok_def value_ok_def)
  have ok: "ca_ok ca" using own by (simp add: ca_owns_def)
  have res: "r = (if ok then Some (f, q) else None)" "ca' = ca\<lparr>ca_contents := (ca_contents ca)[f := ct]\<rparr>"
    using run u f ok by (simp_all add: h ca_update_def)
  have upd: "(\<lambda>x. (m(h := None)) (f, x)) = (\<lambda>x. m (f, x))(p := None)"
    "(\<lambda>x. (m(h := None, (f, q) \<mapsto> d)) (f, x)) = (\<lambda>x. m (f, x))(p := None, q \<mapsto> d)"
    by (auto simp: h fun_eq_iff)
  show ?thesis
  proof (cases ok)
    case True
    have "ca_owns ca' (m(h := None, (f, q) \<mapsto> d))"
      unfolding res(2) by (rule ca_owns_set [OF own f, where tk = "ca_token ca", folded ca_no_token])
        (use uc True upd in \<open>auto simp: h\<close>)
    then show ?thesis using res True uc by (auto simp: h)
  next
    case False
    have "ca_owns ca' (m(h := None))"
      unfolding res(2) by (rule ca_owns_set [OF own f, where tk = "ca_token ca", folded ca_no_token])
        (use uc False upd in \<open>auto simp: h\<close>)
    then show ?thesis using res False by simp
  qed
qed

lemma ca_dl_correct:
  assumes own: "ca_owns ca m" and io: "ca_io_ok io" and e: "m h = Some e"
    and run: "ca_dl io h (length e) ca = (ok, ca')"
  shows "ca_owns ca' (if ok then m(h := None) else m)"
proof -
  obtain f p where h: "h = (f, p)" by force
  have f: "f < length (ca_contents ca)" using ca_owns_file [OF own] e h by simp
  obtain k ct where u: "ct_del (io f) p (length e) (ca_contents ca ! f) = (k, ct)" by force
  have dc: "ct_inv ct \<and> (if k then ct_owns ct ((\<lambda>x. m (f, x))(p := None)) else ct = ca_contents ca ! f)"
    using ct_del_correct [OF ca_ownsD [OF own f] _ _ u] io e h by (simp add: ca_io_ok_def)
  have okk: "ca_ok ca" using own by (simp add: ca_owns_def)
  have res: "ok = k" "ca' = ca\<lparr>ca_contents := (ca_contents ca)[f := ct]\<rparr>"
    using run u f okk by (simp_all add: h ca_del_def)
  have upd: "(\<lambda>x. (m(h := None)) (f, x)) = (\<lambda>x. m (f, x))(p := None)" by (auto simp: h fun_eq_iff)
  show ?thesis
    unfolding res by (rule ca_owns_set [OF own f, where tk = "ca_token ca", folded ca_no_token])
      (use dc upd ca_ownsD [OF own f] in \<open>auto simp: h\<close>)
qed

interpretation vals: value_store ca_write ca_up ca_rd ca_dl ca_io_ok ca_rd_ok value_ok ca_owns
proof
  fix s m io d h s' e h'
  assume own: "ca_owns s m"
  have ok: "ca_ok s" using own by (simp add: ca_owns_def)
  { assume io: "ca_io_ok io" and d: "value_ok d"
    show "ca_write io d s = (Some h, s') \<Longrightarrow> m h = None \<and> ca_owns s' (m(h \<mapsto> d))"
      "ca_write io d s = (None, s') \<Longrightarrow> ca_owns s' m"
      using ca_write_loop_correct [OF own io d] ok unfolding ca_write_def by fastforce+
    assume e: "m h = Some e"
    show "ca_up io h (length e) d s = (Some h', s') \<Longrightarrow>
        (m(h := None)) h' = None \<and> ca_owns s' (m(h := None, h' \<mapsto> d))"
      "ca_up io h (length e) d s = (None, s') \<Longrightarrow> ca_owns s' (m(h := None))"
      using ca_up_correct [OF own io d e] by fastforce+ }
  { assume e: "m h = Some e"
    obtain f p where h: "h = (f, p)" by force
    have f: "f < length (ca_contents s)" using ca_owns_file [OF own] e h by simp
    have "ct_holds (ca_contents s ! f) p e"
      using ct_ownsD(4) [OF ca_ownsD(2) [OF own f]] e h by simp
    then show "ca_rd_ok io \<Longrightarrow> ca_rd io h (length e) s = Some e"
      using f ok by (simp add: h ca_get_def ct_get_holds ca_rd_ok_def)
    assume io: "ca_io_ok io"
    show "ca_dl io h (length e) s = (True, s') \<Longrightarrow> ca_owns s' (m(h := None))"
      "ca_dl io h (length e) s = (False, s') \<Longrightarrow> ca_owns s' m"
      using ca_dl_correct [OF own io e] by fastforce+ }
qed

section \<open>A new value file\<close>

definition open_io_good :: content_open_io where
  "open_io_good = \<lparr>co_fopen = (\<lambda>_. True), co_fwrite = (\<lambda>n. n), co_fseek = (\<lambda>_. True), co_fmap = True\<rparr>"

definition content_io_good :: content_io where
  "content_io_good = \<lparr>io_pwrite = (\<lambda>_ n. int n), io_pread = True, io_fseek = True,
     io_pages = 8192, io_fmap = True\<rparr>"

lemma good_io_ok: "content_io_ok content_io_good" "ca_io_ok (\<lambda>_. content_io_good)"
  "ca_rd_ok (\<lambda>_. content_io_good)"
  by (simp_all add: content_io_ok_def content_io_good_def table_io_ok_def ca_io_ok_def ca_rd_ok_def
      FREE_BLOCK_PAGE_def)

lemma blank_table_pre_parse:
  "pre_parse (\<lambda>_. \<lparr>fb_offset = 0, fb_size = 0\<rparr>) 8388608 [] p"
  by (simp add: pre_parse_def fb_step_def FREE_BLOCK_FILE_MAX_SIZE_def fb_header_def disjoint_family_on_def)

lemma content2_open_new:
  assumes "0 \<le> i"
  obtains ct where "fst (content2_open [47] i open_io_good \<lparr>cd_data = None, cd_fb = None\<rparr>) = Some ct"
    "ct_inv ct" "ct_owns ct Map.empty" "ct_fb_max ct = 0" "ct_data_file_size ct = 1024"
    "ct_fb_file_size ct = 8388608" "fb_header (ct_fb ct) \<noteq> FREE_BLOCK_FILE_MAX_SIZE"
proof -
  define ct0 where "ct0 = \<lparr>ct_file_id = i, ct_bytes = (\<lambda>_. 0), ct_flen = 1024, ct_data_file_size = 1024,
    ct_fb = (\<lambda>_. \<lparr>fb_offset = 0, fb_size = 0\<rparr>), ct_fb_flen = 8388608, ct_fb_file_size = 8388608,
    ct_fb_ptr_len = 8388608, ct_fb_max = 0, ct_fb_list = []\<rparr>"
  have op: "fst (content2_open [47] i open_io_good \<lparr>cd_data = None, cd_fb = None\<rparr>) = Some (parse_free_block ct0)"
    using assms by (simp add: content2_open_def content2_new_def open_data_file_def open_fb_file_def open_io_good_def
        ct0_def width_simps)
  have "pre_parse (ct_fb ct0) (ct_fb_file_size ct0) [] 1" using blank_table_pre_parse by (simp add: ct0_def)
  from parse_free_block_correct [OF this _ refl]
  obtain fb' out fl' where r: "parse_free_block ct0 = ct0\<lparr>ct_fb := fb', ct_fb_list := out\<rparr>"
    "tbl fb' 8388608 fl' (set out) 1" "distinct out" "sorted (map (\<lambda>i. fb_size (fb' i)) out)"
    by (auto simp: ct0_def)
  have "ct_inv (parse_free_block ct0)"
    unfolding ct_inv_def r(1) using r(2-4) by (auto simp: ct0_def ct_pages_def width_simps)
  moreover have "ct_owns (parse_free_block ct0) Map.empty" by (simp add: ct_owns_def)
  moreover have "fb_header (ct_fb (parse_free_block ct0)) \<noteq> FREE_BLOCK_FILE_MAX_SIZE"
    by (rule parse_header_grown [of 0 "\<lambda>_. \<lparr>fb_offset = 0, fb_size = 0\<rparr>"])
      (simp_all add: ct0_def fb_blank_def fun_eq_iff width_simps)
  moreover have "ct_fb_max (parse_free_block ct0) = 0" "ct_data_file_size (parse_free_block ct0) = 1024"
    "ct_fb_file_size (parse_free_block ct0) = 8388608"
    unfolding r(1) by (simp_all add: ct0_def)
  ultimately show ?thesis using that [OF op] by blast
qed

lemma new_array_owned:
  assumes "ct_inv ct" "ct_owns ct Map.empty"
  shows "table_owned ca_owns Map.empty \<lparr>ca_ok = True, ca_token = 0, ca_contents = [ct]\<rparr>"
  using assms by (auto simp: table_owned_def ca_owns_def intro: exI [of _ Map.empty])

lemma parse_free_block_free:
  assumes inv: "ct_inv ct"
  shows "ct_inv (parse_free_block ct)" "ct_free (parse_free_block ct) = ct_free ct"
proof -
  note d = ct_invD [OF inv]
  let ?n = "ct_fb_file_size ct" and ?L = "set (ct_fb_list ct)" and ?fb = "ct_fb ct"
  obtain fl where t: "tbl ?fb ?n fl ?L (ct_pages ct)" using d(1) by blast
  note td = tblD [OF t]
  have inL: "j \<in> ?L" if "j \<in> ents ?n" "0 < fb_size (?fb j)" for j
    using td(8) [OF that(1)] that(2) by (cases "j \<in> ?L") auto
  have pos: "{j \<in> ents ?n. 0 < fb_size (?fb j)} = {j \<in> ?L. 0 < fb_size (?fb j)}"
    using td(7) inL by auto
  have "fb_header ?fb \<noteq> 0" using td(3,6) by (cases fl) (auto simp: FREE_BLOCK_FILE_MAX_SIZE_def ents_def)
  moreover have "disjoint_family_on (fb_ext ?fb) {j \<in> ?L. 0 < fb_size (?fb j)}"
    using td(9) by (elim disjoint_family_on_ext_cong) auto
  moreover have "fb_step \<le> ?n" using d(7,8) by (auto simp: width_simps elim!: dvdE)
  moreover have "\<forall>j\<in>set fl. fb_size (?fb j) = 0" using td(5,6,8) by blast
  moreover have "\<forall>j\<in>ents ?n. 0 < fb_size (?fb j) \<longrightarrow>
      0 < fb_offset (?fb j) \<and> fb_offset (?fb j) + fb_size (?fb j) \<le> ct_pages ct"
    using td(10,11) inL by blast
  ultimately have pre: "pre_parse ?fb ?n fl (ct_pages ct)"
    using td(1-4,6) unfolding pre_parse_def pos by blast
  have lim: "ct_pages ct < 4294967296" using d(12) by (simp add: CT_PAGE_LIMIT_def)
  obtain fb' out fl' where r: "parse_free_block ct = ct\<lparr>ct_fb := fb', ct_fb_list := out\<rparr>"
    "tbl fb' ?n fl' (set out) (ct_pages ct)" "distinct out" "sorted (map (\<lambda>i. fb_size (fb' i)) out)"
    "fb_free fb' (set out) = fb_free ?fb {j \<in> ?L. 0 < fb_size (?fb j)}"
    "\<forall>i\<in>ents ?n. 0 < fb_size (?fb i) \<longrightarrow> (\<exists>j\<in>set out. fb_size (?fb i) \<le> fb_size (fb' j))"
    using parse_free_block_correct [OF pre lim refl] pos by auto
  have "ct_fb_max ct = 0 \<or> (\<exists>j\<in>set out. ct_fb_max ct \<le> fb_size (fb' j))"
  proof (cases "ct_fb_max ct = 0")
    case False
    then obtain i where i: "i \<in> ?L" "ct_fb_max ct \<le> fb_size (?fb i)" using d(4) by auto
    then have "i \<in> ents ?n" "0 < fb_size (?fb i)" using td(7) False by auto
    then show ?thesis using r(6) i(2) le_trans by blast
  qed simp
  then show "ct_inv (parse_free_block ct)"
    using r(1-4) by (intro ct_invI [OF inv]) (auto simp: same_data_def ct_pages_def)
  have "fb_free ?fb {j \<in> ?L. 0 < fb_size (?fb j)} = fb_free ?fb ?L"
    by (auto simp: fb_free_def fb_ext_def)
  then show "ct_free (parse_free_block ct) = ct_free ct" using r(1,5) by (simp add: ct_free_def)
qed

lemma add_free_block_good:
  assumes "ct_inv ct" "ct_fb_file_size ct = 8388608"
  obtains ct' where "add_free_block content_io_good sz off ct = (True, ct')" "sz \<le> ct_fb_max ct'"
proof -
  have "fst (incr_free_block_file content_io_good ct)"
    using ct_invD(5,6) [OF assms(1)] assms(2)
    by (simp add: incr_free_block_file_def content_io_good_def Let_def width_simps)
  then have "fst (if fb_header (ct_fb ct) = FREE_BLOCK_FILE_MAX_SIZE
      then incr_free_block_file content_io_good ct else (True, ct))" (is "fst ?p") by simp
  then obtain ct1 where "?p = (True, ct1)" by (cases ?p) auto
  then have "fst (add_free_block content_io_good sz off ct)"
    "sz \<le> ct_fb_max (snd (add_free_block content_io_good sz off ct))"
    by (simp_all add: add_free_block_def Let_def)
  then show ?thesis using that by (cases "add_free_block content_io_good sz off ct") auto
qed

text \<open>A file with one free page, from writing and freeing a value.\<close>

lemma one_free_page:
  obtains ct where "ct_inv ct" "ct_fb_max ct \<ge> 1" "ct_free ct \<noteq> {}"
proof -
  obtain ct where ct: "ct_inv ct" "ct_owns ct Map.empty" "ct_fb_max ct = 0" "ct_data_file_size ct = 1024"
    "ct_fb_file_size ct = 8388608"
    using content2_open_new [of 0] by auto
  obtain ct1 where w: "ct_write content_io_good [1] ct = (True, 1, ct1)" and fs1: "ct_fb_file_size ct1 = 8388608"
    using ct(3-5) by (simp add: ct_write_def Let_def page_count_def page_tail_def ct_write_inner_def
        use_free_block_def ct_pwrite_full content_io_good_def width_simps trunc_def)
  have o: "ct_inv ct1" "ct_owns ct1 [1 \<mapsto> [1]]"
    using ct_write_correct [OF ct(1,2) _ _ good_io_ok(1) w] by simp_all
  obtain ct2 where d: "add_free_block content_io_good 1 1 ct1 = (True, ct2)" "1 \<le> ct_fb_max ct2"
    by (rule add_free_block_good [OF o(1) fs1])
  have "ct_del content_io_good 1 (length [1 :: byte]) ct1 = (True, ct2)"
    using d(1) by (simp add: ct_del_def page_count_def PAGE_def)
  from ct_del_correct [OF o(1,2) _ good_io_ok(1) this] have inv: "ct_inv ct2" by simp
  then obtain i where "i \<in> set (ct_fb_list ct2)" "0 < fb_size (ct_fb ct2 i)" using ct_invD(4) [OF inv] d(2) by force
  then have "fb_offset (ct_fb ct2 i) \<in> ct_free ct2" by (auto simp: ct_free_def fb_free_def fb_ext_def)
  then show ?thesis using that [OF inv d(2)] by blast
qed

section \<open>Properties\<close>

text \<open>C2. Values are read back as written. A client that writes, updates and frees values in
  any order, over any number of files, reads for every handle it still keeps exactly the last
  value it stored under it; no operation on another value changes it. Writes may fail and be
  retried on the next file, as long as they fail as a whole: during one operation a file either
  completes every \<open>pwrite\<close> or answers \<open>-1\<close> to every one, and the table of free extents grows
  completely or not at all. A short write, or a padding that fails after its data was
  written, is excluded; a later property shows that the claim is false for it.\<close>

theorem content_reads_last_write:
  assumes "table_owned ca_owns t ca"
    and "\<forall>(io, op)\<in>set ops. ca_io_ok io \<and> (\<forall>k d. op = Put k d \<longrightarrow> value_ok d)"
    and "store_run ca_write ca_up ca_dl ops (t, ca) = (t', ca')"
    and "t' k = Some (h, d)" and "ca_rd_ok io"
  shows "ca_rd io h (length d) ca' = Some d"
  using assms by (rule vals.run_reads)

theorem content_reads_last_write_witness:
  "\<exists>ct t' ca' h. fst (content2_open [47] 0 open_io_good \<lparr>cd_data = None, cd_fb = None\<rparr>) = Some ct
     \<and> store_run ca_write ca_up ca_dl [(\<lambda>_. content_io_good, Put (7::nat) [1, 2, 3])]
         (Map.empty, \<lparr>ca_ok = True, ca_token = 0, ca_contents = [ct]\<rparr>) = (t', ca')
     \<and> t' 7 = Some (h, [1, 2, 3]) \<and> ca_rd (\<lambda>_. content_io_good) h 3 ca' = Some [1, 2, 3]"
proof -
  obtain ct where ct: "fst (content2_open [47] 0 open_io_good \<lparr>cd_data = None, cd_fb = None\<rparr>) = Some ct"
    "ct_inv ct" "ct_owns ct Map.empty" "ct_fb_max ct = 0" "ct_data_file_size ct = 1024"
    using content2_open_new [of 0] by auto
  let ?d = "[1, 2, 3] :: bytes" and ?io = "\<lambda>_::nat. content_io_good"
  let ?ca = "\<lparr>ca_ok = True, ca_token = 0, ca_contents = [ct]\<rparr>"
  obtain ct' where w: "ct_write content_io_good ?d ct = (True, 1, ct')"
    using ct(4,5) by (simp add: ct_write_def Let_def page_count_def page_tail_def ct_write_inner_def
        use_free_block_def ct_pwrite_full content_io_good_def width_simps trunc_def)
  have run: "store_run ca_write ca_up ca_dl [(?io, Put (7::nat) ?d)] (Map.empty, ?ca)
      = ([7 \<mapsto> ((0, 1), ?d)], \<lparr>ca_ok = True, ca_token = 1, ca_contents = [ct']\<rparr>)"
    using w by (simp add: store_run_def ca_write_def trunc_def)
  have "ca_rd ?io (0, 1) (length ?d) \<lparr>ca_ok = True, ca_token = 1, ca_contents = [ct']\<rparr> = Some ?d"
    by (rule content_reads_last_write [OF new_array_owned [OF ct(2,3)] _ run])
      (simp_all add: good_io_ok value_ok_def)
  then show ?thesis using ct(1) run by (intro exI [of _ ct]) (auto simp: numeral_3_eq_3)
qed

text \<open>C19. Reuse of freed space is best fit and safe: when \<open>use_free_block\<close> finds an extent, it
  is the front of the smallest free extent that is large enough, all its pages were free,
  exactly these pages stop being free, and the table stays well-formed.\<close>

theorem use_free_block_best_fit:
  assumes "ct_inv ct" and "0 < sz" and "sz < 4294967296"
    and "use_free_block sz ct = (Some off, ct')"
  shows "ct_inv ct' \<and> {off..<off + sz} \<subseteq> ct_free ct \<and> ct_free ct' = ct_free ct - {off..<off + sz}
    \<and> (\<exists>i\<in>set (ct_fb_list ct). off = fb_offset (ct_fb ct i) \<and> sz \<le> fb_size (ct_fb ct i)
         \<and> (\<forall>j\<in>set (ct_fb_list ct). sz \<le> fb_size (ct_fb ct j) \<longrightarrow>
              fb_size (ct_fb ct i) \<le> fb_size (ct_fb ct j)))"
  using use_free_block_Some [OF assms] by blast

theorem use_free_block_best_fit_witness:
  "\<exists>ct off ct'. ct_inv ct \<and> use_free_block 1 ct = (Some off, ct') \<and> ct_inv ct'
     \<and> ct_free ct' = ct_free ct - {off..<off + 1} \<and> off \<in> ct_free ct"
proof -
  obtain ct where ct: "ct_inv ct" "ct_fb_max ct \<ge> 1" by (rule one_free_page)
  obtain off ct' where u: "use_free_block 1 ct = (Some off, ct')"
    using use_free_block_None(2) [OF ct(1), of 1] ct(2) by (cases "use_free_block 1 ct"; cases "fst (use_free_block 1 ct)") auto
  show ?thesis using use_free_block_best_fit [OF ct(1) _ _ u] ct(1) u by auto
qed

text \<open>C20. Coalescing loses no space and invents none: after \<open>parse_free_block\<close> the free pages
  are the same set, the extents are still disjoint and inside the file.\<close>

theorem parse_free_block_keeps_pages:
  assumes "ct_inv ct"
  shows "ct_inv (parse_free_block ct) \<and> ct_free (parse_free_block ct) = ct_free ct"
  using parse_free_block_free [OF assms] by simp

theorem parse_free_block_keeps_pages_witness:
  "\<exists>ct. ct_inv ct \<and> ct_free ct \<noteq> {} \<and> ct_inv (parse_free_block ct) \<and> ct_free (parse_free_block ct) = ct_free ct"
proof -
  obtain ct where "ct_inv ct" "ct_free ct \<noteq> {}" by (rule one_free_page)
  then show ?thesis using parse_free_block_keeps_pages by blast
qed

text \<open>C32. A failed update loses the old value. When the new value needs more pages, \<open>update\<close>
  frees the old extent before it writes; if \<open>pwrite\<close> then fails, it reports failure, but the
  pages of the value the caller still refers to are free, and the next writer may get them.\<close>

theorem failed_update_frees_old_value:
  assumes "ct_inv ct" and "ct_owns ct m" and "m off = Some e" and "d \<noteq> []" and "length d < 268435456"
    and "page_count (length e) < page_count (length d)" and "ct_fb_max ct < page_count (length d)"
    and "ct_data_file_size ct \<le> DATA_FILE_MAX_SIZE"
    and "fb_header (ct_fb ct) \<noteq> FREE_BLOCK_FILE_MAX_SIZE" and "table_io_ok io"
    and "\<And>p n. io_pwrite io p n = -1"
    and "ct_update io off (length e) d ct = (ok, off', ct')"
  shows "\<not> ok \<and> pgs off (length e) \<subseteq> ct_free ct'"
proof -
  have ext: "{off..<off + page_count (length e)} \<subseteq> ct_alloc ct"
    using ct_ownsD(3) [OF assms(2,3)] by (simp add: pgs_def)
  obtain ok1 ct1 where ad: "add_free_block io (page_count (length e)) off ct = (ok1, ct1)" by force
  have ok1 and mx: "ct_fb_max ct1 = max (ct_fb_max ct) (page_count (length e))"
    using ad assms(9) by (auto simp: add_free_block_def Let_def)
  then have a: "ct_free ct1 = ct_free ct \<union> pgs off (length e)"
    using add_free_block_correct [OF assms(1,10) ext ad] by (simp add: pgs_def)
  have "use_free_block (page_count (length d)) ct1 = (None, ct1)"
    using mx assms(6,7) by (simp add: use_free_block_def)
  then have "\<not> ok \<and> ct' = ct1"
    using assms(4-8,12) ad \<open>ok1\<close> ct_pwrite_fail [of io, OF assms(11)]
    by (auto simp: ct_update_def Let_def ct_write_inner_def)
  then show ?thesis using a by simp
qed

theorem failed_update_frees_old_value_witness:
  "\<exists>ct m ct' ok off'. ct_inv ct \<and> ct_owns ct m \<and> m 1 = Some [1]
     \<and> ct_update (content_io_good\<lparr>io_pwrite := (\<lambda>_ _. -1)\<rparr>) 1 1 (replicate 1025 0) ct = (ok, off', ct')
     \<and> \<not> ok \<and> pgs 1 1 \<subseteq> ct_free ct'"
proof -
  let ?io = "content_io_good\<lparr>io_pwrite := (\<lambda>_ _. -1)\<rparr>"
  define d where "d = replicate 1025 (0 :: byte)"
  have d: "length d = 1025" unfolding d_def by (rule length_replicate)
  obtain ct where ct: "ct_inv ct" "ct_owns ct Map.empty" "ct_fb_max ct = 0" "ct_data_file_size ct = 1024"
    "fb_header (ct_fb ct) \<noteq> FREE_BLOCK_FILE_MAX_SIZE"
    using content2_open_new [of 0] by auto
  obtain ct1 where w: "ct_write content_io_good [1] ct = (True, 1, ct1)"
    and c1: "ct_fb_max ct1 = 0" "ct_data_file_size ct1 = 2048" "ct_fb ct1 = ct_fb ct"
    using ct(3,4) by (simp add: ct_write_def Let_def page_count_def page_tail_def ct_write_inner_def
        use_free_block_def ct_pwrite_full content_io_good_def width_simps trunc_def)
  have o: "ct_inv ct1" "ct_owns ct1 [1 \<mapsto> [1]]"
    using ct_write_correct [OF ct(1,2) _ _ good_io_ok(1) w] by simp_all
  have pc: "page_count 1025 = 2" "page_count 1 = 1" by (simp_all add: page_count_def PAGE_def)
  obtain ok off' ct' where u: "ct_update ?io 1 (length [1 :: byte]) d ct1 = (ok, off', ct')" by (metis prod.exhaust)
  have "\<not> ok \<and> pgs 1 (length [1 :: byte]) \<subseteq> ct_free ct'"
  proof (rule failed_update_frees_old_value [OF o _ _ _ _ _ _ _ _ _ u])
    show "d \<noteq> []" "length d < 268435456" using d by auto
    show "page_count (length [1 :: byte]) < page_count (length d)" "ct_fb_max ct1 < page_count (length d)"
      using c1(1) pc d by simp_all
    show "ct_data_file_size ct1 \<le> DATA_FILE_MAX_SIZE" using c1(2) by (simp add: width_simps)
    show "fb_header (ct_fb ct1) \<noteq> FREE_BLOCK_FILE_MAX_SIZE" using c1(3) ct(5) by simp
    show "table_io_ok ?io" by (simp add: table_io_ok_def content_io_good_def FREE_BLOCK_PAGE_def)
  qed simp_all
  note fr = this
  have one: "length [1 :: byte] = 1" by simp
  have "[1 \<mapsto> [1]] 1 = Some [1]" by simp
  then show ?thesis
    unfolding d_def [symmetric] using o u [unfolded one] fr [unfolded one] by blast
qed

text \<open>C33. A torn append shifts the next value. If the bytes of a value are written but its
  padding is not, the file size is no longer a multiple of the page; the next value is
  placed behind these bytes but recorded under the page where they start, so that reading
  it returns the bytes of the failed write first.\<close>

theorem torn_append_shifts_next_value:
  assumes "ct_inv ct" and "ct_fb_max ct = 0" and "ct_data_file_size ct + PAGE \<le> DATA_FILE_MAX_SIZE"
    and "0 < length d" and "length d < PAGE" and "0 < length e" and "length e < 268435456"
    and "\<And>n. io_pwrite io (ct_data_file_size ct) n = int n"
    and "\<And>p n. p \<noteq> ct_data_file_size ct \<Longrightarrow> io_pwrite io p n = -1"
    and "ct_write io d ct = (ok, off, ct1)"
    and "ct_write content_io_good e ct1 = (ok', off', ct2)"
  shows "\<not> ok \<and> ok' \<and> off' = off
    \<and> ct_get content_io_good off' (length e) ct2 = Some (take (length e) (d @ e))"
proof -
  let ?a = "ct_data_file_size ct"
  have a: "?a = ct_pages ct * PAGE" using ct_invD(9) [OF assms(1)] by (simp add: ct_pages_def)
  have pg: "page_count (length d) = 1" "page_tail (length d) = PAGE - length d" "length d < 4294967296"
    using assms(4,5) by (simp_all add: page_count_def page_tail_def PAGE_def)
  have none: "use_free_block n ct' = (None, ct')" if "0 < n" "ct_fb_max ct' = 0" for n ct'
    using that by (simp add: use_free_block_def)
  let ?ct1 = "ct\<lparr>ct_bytes := bytes_put (ct_bytes ct) ?a d, ct_flen := max (ct_flen ct) (?a + length d),
      ct_data_file_size := ?a + length d\<rparr>"
  have tail: "PAGE - length d \<noteq> 4294967295" "0 < length d" "d \<noteq> []" "PAGE \<noteq> 4294967295 + length d"
    using assms(4,5) by (auto simp: PAGE_def)
  have ct1: "\<not> ok" "ct1 = ?ct1" "off = ct_pages ct"
    using assms(10,3,2,9) pg tail none [of 1 ct] ct_pwrite_full [of io ?a d ct] assms(8)
      data_limit_pages [of ct]
    by (auto simp: ct_write_def Let_def ct_write_inner_def ct_pwrite_fail ct_pages_def)
  have div: "(?a + length d) div PAGE = ct_pages ct"
    using assms(5) by (simp add: a)
  have lim: "?a + length d \<le> DATA_FILE_MAX_SIZE" using assms(3,5) by simp
  have el: "length e < 4294967296" "page_tail (length e) < 4294967296" "e \<noteq> []"
    using assms(6,7) page_tail_le [of "length e"] by (auto simp: PAGE_def)
  have pages: "ct_pages ct < 4294967296" using data_limit_pages [of ct] assms(3) by simp
  have good: "io_pwrite content_io_good p n = int n" for p n by (simp add: content_io_good_def)
  let ?x = "replicate (page_tail (length e)) (0 :: byte)"
  let ?b = "bytes_put (bytes_put (bytes_put (ct_bytes ct) ?a d) (?a + length d) e) (?a + length d + length e) ?x"
  have ct2: "ok'" "off' = ct_pages ct" "ct_bytes ct2 = ?b" "?a + length d + length e \<le> ct_flen ct2"
    using assms(11) ct1(2) lim none [of "page_count (length e)" ?ct1] assms(2,6) el div pages good
    by (auto simp: ct_write_def Let_def ct_write_inner_def ct_pwrite_full split: if_splits)
  have "map ?b [?a..<?a + length e] = take (length e) (d @ e)"
    using assms(4,6) by (intro nth_equalityI) (auto simp: bytes_put_def nth_append)
  then show ?thesis
    using ct1 ct2 by (auto simp: ct_get_def Let_def a [symmetric] content_io_good_def)
qed

theorem torn_append_shifts_next_value_witness:
  "\<exists>ct ct1 ct2 ok off ok' off'. ct_inv ct
     \<and> ct_write (content_io_good\<lparr>io_pwrite := (\<lambda>p n. if p = 1024 then int n else -1)\<rparr>) [1] ct = (ok, off, ct1)
     \<and> ct_write content_io_good [2] ct1 = (ok', off', ct2)
     \<and> \<not> ok \<and> ok' \<and> ct_get content_io_good off' 1 ct2 = Some [1]"
proof -
  let ?io = "content_io_good\<lparr>io_pwrite := (\<lambda>p n. if p = 1024 then int n else -1)\<rparr>"
  obtain ct where ct: "ct_inv ct" "ct_fb_max ct = 0" "ct_data_file_size ct = 1024"
    using content2_open_new [of 0] by auto
  obtain ok off ct1 where w: "ct_write ?io [1] ct = (ok, off, ct1)" by (metis prod.exhaust)
  obtain ok' off' ct2 where w': "ct_write content_io_good [2] ct1 = (ok', off', ct2)" by (metis prod.exhaust)
  have r: "\<not> ok \<and> ok' \<and> off' = off
      \<and> ct_get content_io_good off' (length [2 :: byte]) ct2 = Some (take (length [2 :: byte]) ([1] @ [2]))"
    by (rule torn_append_shifts_next_value [OF ct(1,2) _ _ _ _ _ _ _ w w'])
      (use ct(3) in \<open>simp_all add: width_simps\<close>)
  have "length [2 :: byte] = 1" "take 1 ([1] @ [2 :: byte]) = [1]" by simp_all
  note r [unfolded this]
  then show ?thesis using ct(1) w w' by blast
qed

text \<open>C34. After a restart freed space is not reused: \<open>open\<close> rebuilds the map of free extents
  but leaves \<open>m_free_block_max\<close> at zero, so that \<open>use_free_block\<close> refuses every request until
  something is freed again.\<close>

theorem reopened_file_refuses_reuse:
  assumes "content2_open path file_id io disk = (Some ct, disk')" and "0 < sz"
  shows "use_free_block sz ct = (None, ct)"
proof -
  have "ct_fb_max ct = 0"
    using assms(1) by (auto simp: content2_open_def content2_new_def Let_def split: if_splits prod.splits option.splits)
  then show ?thesis using assms(2) by (simp add: use_free_block_def)
qed

text \<open>Opening the files of a closed value file finds the free extents again.\<close>

lemma reopen_free:
  assumes inv: "ct_inv ct"
  obtains ct' disk where "content2_open [47] 0 open_io_good
      \<lparr>cd_data = Some (ct_bytes ct, ct_data_file_size ct), cd_fb = Some (ct_fb ct, ct_fb_file_size ct)\<rparr> = (Some ct', disk)"
    "ct_free ct' = ct_free ct"
proof -
  define ct0 where "ct0 = content2_new\<lparr>ct_bytes := ct_bytes ct, ct_file_id := 0, ct_flen := ct_data_file_size ct,
    ct_data_file_size := ct_data_file_size ct, ct_fb := ct_fb ct, ct_fb_flen := ct_fb_file_size ct,
    ct_fb_file_size := ct_fb_file_size ct, ct_fb_ptr_len := ct_fb_file_size ct, ct_fb_list := ct_fb_list ct\<rparr>"
  note d = ct_invD [OF inv]
  have "ct_inv ct0" using d unfolding ct_inv_def by (simp add: ct0_def content2_new_def ct_pages_def)
  from parse_free_block_free(2) [OF this] have f: "ct_free (parse_free_block ct0) = ct_free ct"
    by (simp add: ct_free_def ct0_def)
  have "content2_open [47] 0 open_io_good
      \<lparr>cd_data = Some (ct_bytes ct, ct_data_file_size ct), cd_fb = Some (ct_fb ct, ct_fb_file_size ct)\<rparr> =
    (Some (parse_free_block (ct0\<lparr>ct_fb_list := []\<rparr>)),
     \<lparr>cd_data = Some (ct_bytes ct, ct_data_file_size ct), cd_fb = Some (ct_fb ct, ct_fb_file_size ct)\<rparr>)"
    using d(7,9) by (simp add: content2_open_def open_data_file_def open_fb_file_def open_io_good_def ct0_def content2_new_def)
  moreover have "parse_free_block (ct0\<lparr>ct_fb_list := []\<rparr>) = parse_free_block ct0"
    by (simp add: parse_free_block_def Let_def split: prod.split)
  ultimately show thesis using that f by simp
qed

theorem reopened_file_refuses_reuse_witness:
  "\<exists>ct disk disk' ct'. content2_open [47] 0 open_io_good disk = (Some ct', disk') \<and> ct_free ct' \<noteq> {} \<and> ct_inv ct
     \<and> disk = \<lparr>cd_data = Some (ct_bytes ct, ct_data_file_size ct), cd_fb = Some (ct_fb ct, ct_fb_file_size ct)\<rparr>
     \<and> use_free_block 1 ct' = (None, ct')"
proof -
  obtain ct where ct: "ct_inv ct" "ct_free ct \<noteq> {}" by (rule one_free_page)
  obtain ct' disk' where o: "content2_open [47] 0 open_io_good
      \<lparr>cd_data = Some (ct_bytes ct, ct_data_file_size ct), cd_fb = Some (ct_fb ct, ct_fb_file_size ct)\<rparr> = (Some ct', disk')"
    "ct_free ct' = ct_free ct" by (rule reopen_free [OF ct(1)])
  have "use_free_block 1 ct' = (None, ct')" by (rule reopened_file_refuses_reuse [OF o(1)]) simp
  then show ?thesis using o ct by metis
qed

end
