(* ===== verification/Free_List.thy ===== *)
theory Free_List
  imports Hust_Prelude
begin

text \<open>
  Allocators of fixed size records. The key file (\<open>fullkey.cpp\<close>) and the conflict file
  (\<open>fast_conflict.cpp\<close>) both hand out record numbers \<open>1 .. count\<close>: freed records are
  linked through their first four bytes, starting at \<open>free_list_id\<close>, and the file grows
  by appending zero bytes and mapping it again. This theory holds what the two share:
  the shape of a free list, the outcome of a growth, and the allocator interface with
  the facts its clients rely on.
\<close>

section \<open>Growing a mapped file\<close>

text \<open>
  What the operating system answers while a file grows: the number of bytes \<open>fwrite\<close>
  appends when asked for \<open>n\<close>, and whether the new mapping succeeds. The code gives up
  after a short append without undoing it; \<open>grow_io_ok\<close> says that an append is all or
  nothing and that a completed append can be mapped.
\<close>

record grow_io =
  gi_fwritten :: "nat \<Rightarrow> nat"
  gi_fmap_open :: bool

definition grow_io_ok :: "grow_io \<Rightarrow> bool" where
  "grow_io_ok io \<longleftrightarrow>
     ((\<forall>n. gi_fwritten io n = n) \<and> gi_fmap_open io) \<or> (\<forall>n. gi_fwritten io n = 0)"

section \<open>Shape of a free list\<close>

primrec walk :: "(nat \<Rightarrow> nat) \<Rightarrow> nat \<Rightarrow> nat \<Rightarrow> nat list" where
  "walk nxt 0 h = []"
| "walk nxt (Suc n) h = (if h = 0 then [] else h # walk nxt n (nxt h))"

definition fl_ok :: "(nat \<Rightarrow> nat) \<Rightarrow> nat \<Rightarrow> nat \<Rightarrow> bool" where
  "fl_ok nxt h c \<longleftrightarrow>
     (let fl = walk nxt c h in chain nxt h fl \<and> distinct fl \<and> set fl \<subseteq> {1..c})"

definition fl_live :: "(nat \<Rightarrow> nat) \<Rightarrow> nat \<Rightarrow> nat \<Rightarrow> nat set" where
  "fl_live nxt h c = {1..c} - set (walk nxt c h)"

section \<open>Traces of a client\<close>

datatype alloc_op = Alloc grow_io | Free nat

fun alloc_run ::
  "(grow_io \<Rightarrow> 's \<Rightarrow> nat option \<times> 's) \<Rightarrow> (nat \<Rightarrow> 's \<Rightarrow> 's) \<Rightarrow> alloc_op list \<Rightarrow> 's \<Rightarrow> nat set
   \<Rightarrow> (nat option list \<times> 's \<times> nat set)" where
  "alloc_run al fr [] s H = ([], s, H)"
| "alloc_run al fr (Alloc io # ops) s H =
     (let (r, s') = al io s;
          (rs, t) = alloc_run al fr ops s' (case r of None \<Rightarrow> H | Some i \<Rightarrow> insert i H)
      in (r # rs, t))"
| "alloc_run al fr (Free i # ops) s H =
     (if i \<in> H then alloc_run al fr ops (fr i s) (H - {i}) else alloc_run al fr ops s H)"

section \<open>Lemmas\<close>

lemma walk_chain: "chain nxt h xs \<Longrightarrow> length xs \<le> n \<Longrightarrow> walk nxt n h = xs"
proof (induction xs arbitrary: h n)
  case Nil
  then show ?case by (cases n) auto
next
  case (Cons x xs)
  then show ?case by (cases n) auto
qed

lemma distinct_bounded_length:
  assumes "distinct xs" "set xs \<subseteq> {1..c}"
  shows "length xs \<le> c"
  using card_mono [OF _ assms(2)] distinct_card [OF assms(1)] by simp

lemma fl_okI:
  assumes "chain nxt h fl" "distinct fl" "set fl \<subseteq> {1..c}"
  shows "fl_ok nxt h c" and "fl_live nxt h c = {1..c} - set fl"
  using assms walk_chain [OF assms(1) distinct_bounded_length [OF assms(2,3)]]
  by (simp_all add: fl_ok_def fl_live_def)

lemma fl_okE:
  assumes "fl_ok nxt h c"
  obtains fl where "chain nxt h fl" "distinct fl" "set fl \<subseteq> {1..c}"
    "fl_live nxt h c = {1..c} - set fl"
  using assms by (auto simp: fl_ok_def fl_live_def Let_def)

lemma fl_pop:
  assumes "fl_ok nxt h c" "h \<noteq> 0"
  shows "1 \<le> h" "h \<le> c" "nxt h \<le> c" "h \<notin> fl_live nxt h c"
    "fl_ok (nxt(h := x)) (nxt h) c"
    "fl_live (nxt(h := x)) (nxt h) c = insert h (fl_live nxt h c)"
proof -
  obtain fl where fl: "chain nxt h fl" "distinct fl" "set fl \<subseteq> {1..c}"
    and live: "fl_live nxt h c = {1..c} - set fl"
    using assms(1) by (rule fl_okE)
  obtain ys where ys: "fl = h # ys" "chain nxt (nxt h) ys"
    using fl(1) assms(2) by (auto simp: chain_simps)
  show "1 \<le> h" "h \<le> c" "h \<notin> fl_live nxt h c" using fl ys live by auto
  show "nxt h \<le> c" using fl(3) ys by (cases ys) auto
  have "chain (nxt(h := x)) (nxt h) ys" using fl(2) ys by (simp add: chain_simps)
  from fl_okI [OF this, of c] fl ys live
  show "fl_ok (nxt(h := x)) (nxt h) c"
    and "fl_live (nxt(h := x)) (nxt h) c = insert h (fl_live nxt h c)"
    by auto
qed

lemma fl_push:
  assumes "fl_ok nxt h c" "i \<in> fl_live nxt h c"
  shows "fl_ok (nxt(i := h)) i c" "fl_live (nxt(i := h)) i c = fl_live nxt h c - {i}"
proof -
  obtain fl where fl: "chain nxt h fl" "distinct fl" "set fl \<subseteq> {1..c}"
    and live: "fl_live nxt h c = {1..c} - set fl"
    using assms(1) by (rule fl_okE)
  have "chain (nxt(i := h)) i (i # fl)"
    using fl(1) assms(2) live by (simp add: chain_simps)
  from fl_okI [OF this, of c] fl assms(2) live
  show "fl_ok (nxt(i := h)) i c" "fl_live (nxt(i := h)) i c = fl_live nxt h c - {i}"
    by auto
qed

lemma fl_write:
  assumes "fl_ok nxt h c" "i \<in> fl_live nxt h c"
  shows "fl_ok (nxt(i := x)) h c" "fl_live (nxt(i := x)) h c = fl_live nxt h c"
proof -
  obtain fl where fl: "chain nxt h fl" "distinct fl" "set fl \<subseteq> {1..c}"
    and live: "fl_live nxt h c = {1..c} - set fl"
    using assms(1) by (rule fl_okE)
  have "chain (nxt(i := x)) h fl" using fl(1) assms(2) live by (simp add: chain_simps)
  from fl_okI [OF this fl(2,3)] live
  show "fl_ok (nxt(i := x)) h c" "fl_live (nxt(i := x)) h c = fl_live nxt h c" by auto
qed

lemma fl_bump:
  assumes "fl_ok nxt 0 c"
  shows "fl_ok nxt 0 (Suc c)" "fl_live nxt 0 (Suc c) = insert (Suc c) (fl_live nxt 0 c)"
    "Suc c \<notin> fl_live nxt 0 c"
proof -
  have "chain nxt 0 []" by simp
  from fl_okI [OF this, of "Suc c"] fl_okI [OF this, of c]
  show "fl_ok nxt 0 (Suc c)" "fl_live nxt 0 (Suc c) = insert (Suc c) (fl_live nxt 0 c)"
    "Suc c \<notin> fl_live nxt 0 c"
    by auto
qed

lemma fl_head: "fl_ok nxt h c \<Longrightarrow> h \<le> c"
  by (cases "h = 0") (auto dest: fl_pop)

lemma fl_live_bounds: "i \<in> fl_live nxt h c \<Longrightarrow> 1 \<le> i \<and> i \<le> c"
  by (simp add: fl_live_def)

lemma link_upd: "(\<lambda>j. f ((g(i := x)) j)) = (\<lambda>j. f (g j))(i := f x)"
  by (simp add: fun_eq_iff)

section \<open>The allocator interface\<close>

text \<open>
  \<open>live s\<close> are the records handed out and not yet returned. A provider promises that an
  allocation picks a record that is not live, that only that record becomes live, and
  that returning a live record makes exactly that one free.
\<close>

locale record_allocator =
  fixes al :: "grow_io \<Rightarrow> 's \<Rightarrow> nat option \<times> 's"
    and fr :: "nat \<Rightarrow> 's \<Rightarrow> 's"
    and inv :: "'s \<Rightarrow> bool"
    and live :: "'s \<Rightarrow> nat set"
  assumes al_inv: "inv s \<Longrightarrow> grow_io_ok io \<Longrightarrow> al io s = (r, s') \<Longrightarrow> inv s'"
    and al_some: "inv s \<Longrightarrow> grow_io_ok io \<Longrightarrow> al io s = (Some i, s') \<Longrightarrow>
      i \<notin> live s \<and> live s' = insert i (live s)"
    and al_none: "inv s \<Longrightarrow> grow_io_ok io \<Longrightarrow> al io s = (None, s') \<Longrightarrow> live s' = live s"
    and fr_inv: "inv s \<Longrightarrow> i \<in> live s \<Longrightarrow> inv (fr i s)"
    and fr_live: "inv s \<Longrightarrow> i \<in> live s \<Longrightarrow> live (fr i s) = live s - {i}"
begin

lemma run_live:
  assumes "inv s" and "\<And>io. Alloc io \<in> set ops \<Longrightarrow> grow_io_ok io"
    and "alloc_run al fr ops s (live s) = (rs, s', H')"
  shows "inv s' \<and> H' = live s'"
  using assms
proof (induction ops arbitrary: s rs)
  case (Cons op ops)
  show ?case
  proof (cases op)
    case (Alloc io)
    obtain r s1 where r: "al io s = (r, s1)" by force
    have io: "grow_io_ok io" using Cons.prems(2) Alloc by simp
    have "inv s1" using al_inv [OF Cons.prems(1) io r] .
    moreover have "(case r of None \<Rightarrow> live s | Some i \<Rightarrow> insert i (live s)) = live s1"
      using al_some [OF Cons.prems(1) io] al_none [OF Cons.prems(1) io] r by (cases r) auto
    moreover obtain rs1 where "alloc_run al fr ops s1 (live s1) = (rs1, s', H')"
      using Cons.prems(3) Alloc r calculation by (auto split: prod.splits)
    ultimately show ?thesis using Cons.IH Cons.prems(2) by auto
  next
    case (Free i)
    show ?thesis
    proof (cases "i \<in> live s")
      case True
      then show ?thesis
        using Cons Free fr_inv [OF Cons.prems(1) True] fr_live [OF Cons.prems(1) True] by auto
    next
      case False
      then show ?thesis using Cons Free by auto
    qed
  qed
qed simp

lemma no_double_allocation:
  assumes "inv s" and "\<And>io. Alloc io \<in> set ops \<Longrightarrow> grow_io_ok io"
    and "alloc_run al fr ops s (live s) = (rs, s', H')"
    and "grow_io_ok io" and "al io s' = (Some i, s'')"
  shows "i \<notin> H'"
  using run_live [OF assms(1-3)] al_some assms(4,5) by blast

end

end
