(* ===== verification/Fast_Conflict.thy ===== *)
theory Fast_Conflict
  imports Bucket Free_List
begin

text \<open>
  The conflict files of the md5db engine (\<open>fast_conflict.h\<close>, \<open>fast_conflict.cpp\<close>). When
  several digests share a bucket slot, the slot holds the address of a conflict record: a
  row of \<open>conflict_count\<close> (3 to 10) items of eight bytes, one per digest. Records are
  numbered from 1, record 0 is the header, and freed records are linked through their
  first four bytes, which overlay the block identifier of their first item.

  The mapped file is an array of eight byte items. Record \<open>i\<close> of a file opened with
  count \<open>c\<close> is the items \<open>i * c\<close> to \<open>i * c + c - 1\<close>, so that what a file opened with
  another count reads is determined as well.
\<close>

section \<open>Records and files\<close>

definition FAST_CONFLICT_FILE_COUNT :: nat where
  [width_simps]: "FAST_CONFLICT_FILE_COUNT = 256"

definition FAST_CONFLICT_BYTES_PER_FILE :: nat where
  [width_simps]: "FAST_CONFLICT_BYTES_PER_FILE = 4294967294"

definition FC_DEFAULT_ITEM_COUNT :: nat where
  [width_simps]: "FC_DEFAULT_ITEM_COUNT = 80000"

definition FC_EXPAND_ITEM_COUNT :: nat where
  [width_simps]: "FC_EXPAND_ITEM_COUNT = 80000"

text \<open>
  The header fields \<open>count\<close> and \<open>free_list_id\<close> and the items are the contents of the file,
  \<open>fc_len\<close> is its length on disk. \<open>fc_file_id\<close>, \<open>fc_conflict_count\<close> and the mapped length
  belong to the object and are set by \<open>open\<close>.
\<close>

record fast_conflict_t =
  fc_file_id :: nat
  fc_conflict_count :: nat
  fc_ptr_len :: "nat option"
  fc_len :: nat
  fc_count :: nat
  fc_free_list_id :: nat
  fc_data :: "nat \<Rightarrow> bucket_data_item_t"

definition fc_record_bytes :: "fast_conflict_t \<Rightarrow> nat" where
  "fc_record_bytes fc = fc_conflict_count fc * bucket_item_bytes"

definition fc_record :: "fast_conflict_t \<Rightarrow> nat \<Rightarrow> bucket_data_item_t list" where
  "fc_record fc i = map (\<lambda>j. fc_data fc (i * fc_conflict_count fc + j)) [0..<fc_conflict_count fc]"

definition fc_put_item :: "nat \<Rightarrow> nat \<Rightarrow> bucket_data_item_t \<Rightarrow> fast_conflict_t \<Rightarrow> fast_conflict_t" where
  "fc_put_item i j it fc =
     fc\<lparr>fc_data := (fc_data fc)(i * fc_conflict_count fc + j := it)\<rparr>"

definition fc_put_record ::
  "nat \<Rightarrow> (nat \<Rightarrow> bucket_data_item_t) \<Rightarrow> fast_conflict_t \<Rightarrow> fast_conflict_t" where
  "fc_put_record i its fc =
     fc\<lparr>fc_data := (\<lambda>n. if n div fc_conflict_count fc = i then its (n mod fc_conflict_count fc)
                        else fc_data fc n)\<rparr>"

text \<open>The free list link: the first four bytes of the first item of a record.\<close>

definition fc_link :: "bucket_data_item_t \<Rightarrow> nat" where
  "fc_link it = le_val (take 4 (item_bytes it))"

definition fc_set_link :: "nat \<Rightarrow> bucket_data_item_t \<Rightarrow> bucket_data_item_t" where
  "fc_set_link v it = item_of_bytes (le_bytes 4 v @ drop 4 (item_bytes it))"

definition fc_next :: "fast_conflict_t \<Rightarrow> nat \<Rightarrow> nat" where
  "fc_next fc i = fc_link (fc_data fc (i * fc_conflict_count fc))"

definition fc_get_max :: "fast_conflict_t \<Rightarrow> nat" where
  "fc_get_max fc =
     (case fc_ptr_len fc of
        None \<Rightarrow> 0
      | Some n \<Rightarrow> trunc 32 ((n - fc_record_bytes fc) div fc_record_bytes fc))"

definition fc_item_max_per_file :: "fast_conflict_t \<Rightarrow> nat" where
  "fc_item_max_per_file fc = FAST_CONFLICT_BYTES_PER_FILE div trunc 32 (fc_record_bytes fc)"

section \<open>Opening\<close>

definition fc_new_file :: "nat \<Rightarrow> fast_conflict_t" where
  "fc_new_file conflict_count =
     \<lparr>fc_file_id = UINT32_MOD - 1, fc_conflict_count = conflict_count, fc_ptr_len = None,
      fc_len = conflict_count * bucket_item_bytes
        + FC_DEFAULT_ITEM_COUNT * (conflict_count * bucket_item_bytes),
      fc_count = 0, fc_free_list_id = 0, fc_data = (\<lambda>_. item_zero)\<rparr>"

text \<open>
  As for the key files, the outcomes of \<open>fopen\<close>, \<open>fwrite\<close> and \<open>fmap_open\<close> are arguments,
  and the file left on disk is part of the result.
\<close>

definition fast_conflict_create_file :: "nat \<Rightarrow> bool \<Rightarrow> (nat \<Rightarrow> nat) \<Rightarrow> fast_conflict_t option" where
  "fast_conflict_create_file conflict_count fopen_ok fwritten =
     (let header = conflict_count * bucket_item_bytes;
          t = FC_DEFAULT_ITEM_COUNT * header in
      if \<not> fopen_ok then None
      else if header \<noteq> fwritten header then None
      else if t \<noteq> fwritten t then None else Some (fc_new_file conflict_count))"

definition fast_conflict_open ::
  "bytes \<Rightarrow> int \<Rightarrow> int \<Rightarrow> fast_conflict_t option \<Rightarrow> bool \<Rightarrow> (nat \<Rightarrow> nat) \<Rightarrow> bool \<Rightarrow> bool
   \<Rightarrow> fast_conflict_t option \<times> fast_conflict_t option" where
  "fast_conflict_open path file_id conflict_count file wb_ok fwritten ab_ok fmap_ok =
     (let cc = nat conflict_count; n = cc * bucket_item_bytes in
      if file_id < 0 \<or> file_id \<ge> int FAST_CONFLICT_FILE_COUNT \<or> conflict_count < 3 then (None, file)
      else if path = [] then (None, file)
      else case (case file of
                   Some f \<Rightarrow> Some f
                 | None \<Rightarrow> fast_conflict_create_file cc wb_ok fwritten) of
             None \<Rightarrow> (None, file)
           | Some f \<Rightarrow>
               if \<not> ab_ok then (None, Some f)
               else if \<not> fmap_ok then (None, Some f)
               else if fc_len f < n * (FC_DEFAULT_ITEM_COUNT + 1) then (None, Some f)
               else if fc_len f mod n \<noteq> 0 then (None, Some f)
               else (Some (f\<lparr>fc_file_id := nat file_id, fc_conflict_count := cc,
                             fc_ptr_len := Some (fc_len f)\<rparr>), Some f))"

section \<open>Addresses\<close>

definition fc_generate_addr :: "nat \<Rightarrow> nat \<Rightarrow> block_id_t option" where
  "fc_generate_addr file_id index =
     (if file_id > 0xFF \<or> index = 0 then None else Some (block_id_set file_id index))"

definition fc_parse_addr :: "block_id_t \<Rightarrow> (nat \<times> nat) option" where
  "fc_parse_addr addr =
     (if m_data_id addr = 0 then None else Some (m_bucket_id addr, m_data_id addr))"

text \<open>The checks that \<open>get\<close> and \<open>del\<close> make before they touch record \<open>index\<close>.\<close>

definition fc_locate :: "fast_conflict_t \<Rightarrow> block_id_t \<Rightarrow> nat option" where
  "fc_locate fc addr =
     (case fc_parse_addr addr of
        None \<Rightarrow> None
      | Some (file_id, index) \<Rightarrow>
          if file_id \<noteq> fc_file_id fc \<or> index = 0 \<or> index \<ge> fc_item_max_per_file fc then None
          else if fc_count fc = 0 \<or> index > fc_count fc then None
          else Some index)"

section \<open>Allocation\<close>

definition fc_pop_free :: "fast_conflict_t \<Rightarrow> nat \<times> fast_conflict_t" where
  "fc_pop_free fc =
     (let i = fc_free_list_id fc;
          nxt = fc_next fc i;
          fc1 = fc_put_item i 0 (fc_set_link 0 (fc_data fc (i * fc_conflict_count fc)))
                  (fc\<lparr>fc_free_list_id := nxt\<rparr>)
      in (i, if nxt > fc_count fc then fc1\<lparr>fc_free_list_id := 0\<rparr> else fc1))"

definition fc_expand_count :: "fast_conflict_t \<Rightarrow> int" where
  "fc_expand_count fc =
     (if (fc_count fc + 1 + FC_EXPAND_ITEM_COUNT) mod UINT32_MOD > fc_item_max_per_file fc
      then int (fc_item_max_per_file fc) - 1 - int (fc_count fc)
      else int FC_EXPAND_ITEM_COUNT)"

definition fc_grow :: "grow_io \<Rightarrow> fast_conflict_t \<Rightarrow> bool \<times> fast_conflict_t" where
  "fc_grow io fc =
     (if fc_expand_count fc \<le> 0 then (False, fc)
      else let n = nat (fc_expand_count fc) * fc_record_bytes fc;
               fc1 = fc\<lparr>fc_len := fc_len fc + gi_fwritten io n\<rparr>
           in if n \<noteq> gi_fwritten io n then (False, fc1)
              else if \<not> gi_fmap_open io then (False, fc1)
              else let fc2 = fc1\<lparr>fc_ptr_len := Some (fc_len fc1)\<rparr> in
                   (\<not> fc_count fc2 \<ge> fc_get_max fc2, fc2))"

definition fc_bump :: "fast_conflict_t \<Rightarrow> nat option \<times> fast_conflict_t" where
  "fc_bump fc =
     (let c = trunc 32 (fc_count fc + 1) in (Some c, fc\<lparr>fc_count := c\<rparr>))"

definition fc_alloc_item :: "grow_io \<Rightarrow> fast_conflict_t \<Rightarrow> nat option \<times> fast_conflict_t" where
  "fc_alloc_item io fc =
     (if fc_ptr_len fc = None then (None, fc)
      else if fc_free_list_id fc \<noteq> 0 \<and> fc_free_list_id fc \<le> fc_count fc
      then (let (i, fc') = fc_pop_free fc in (Some i, fc'))
      else if fc_count fc > fc_get_max fc then (None, fc)
      else if fc_count fc = fc_get_max fc
      then (let (ok, fc') = fc_grow io fc in if ok then fc_bump fc' else (None, fc'))
      else fc_bump fc)"

section \<open>Operations\<close>

definition fc_write ::
  "grow_io \<Rightarrow> bucket_data_item_t \<Rightarrow> bucket_data_item_t \<Rightarrow> fast_conflict_t
   \<Rightarrow> block_id_t option \<times> fast_conflict_t" where
  "fc_write io bucket_item_1 bucket_item_2 fc =
     (case fc_alloc_item io fc of
        (None, fc1) \<Rightarrow> (None, fc1)
      | (Some i, fc1) \<Rightarrow>
          let n = trunc 32 (fc_record_bytes fc1);
              offset = trunc 32 (i * fc_record_bytes fc1) in
          if offset < n \<or> trunc 32 (offset + n) > FAST_CONFLICT_BYTES_PER_FILE
          then (None, fc1)
          else let fc2 = fc_put_record i
                           (\<lambda>j. if j = 0 then bucket_item_1 else if j = 1 then bucket_item_2
                                else item_zero) fc1
               in (fc_generate_addr (fc_file_id fc2) (offset div n), fc2))"

definition fc_get :: "fast_conflict_t \<Rightarrow> block_id_t \<Rightarrow> bucket_data_item_t list option" where
  "fc_get fc addr = map_option (fc_record fc) (fc_locate fc addr)"

definition fc_del :: "block_id_t \<Rightarrow> fast_conflict_t \<Rightarrow> bool \<times> fast_conflict_t" where
  "fc_del addr fc =
     (case fc_locate fc addr of
        None \<Rightarrow> (False, fc)
      | Some index \<Rightarrow>
          let fc1 = fc_put_record index (\<lambda>_. item_zero) fc;
              fc2 = fc_put_item index 0 (fc_set_link (fc_free_list_id fc1) item_zero) fc1
          in (True, fc2\<lparr>fc_free_list_id := index\<rparr>))"

section \<open>Well-formed conflict files\<close>

definition fc_live :: "fast_conflict_t \<Rightarrow> nat set" where
  "fc_live fc = fl_live (fc_next fc) (fc_free_list_id fc) (fc_count fc)"

definition fc_inv :: "fast_conflict_t \<Rightarrow> bool" where
  "fc_inv fc \<longleftrightarrow>
     3 \<le> fc_conflict_count fc \<and> fc_conflict_count fc \<le> 10
     \<and> fc_ptr_len fc = Some (fc_len fc)
     \<and> (\<exists>k. fc_len fc = fc_record_bytes fc * Suc k \<and> Suc k \<le> fc_item_max_per_file fc)
     \<and> fc_file_id fc < 256 \<and> fc_count fc \<le> fc_get_max fc
     \<and> fl_ok (fc_next fc) (fc_free_list_id fc) (fc_count fc)
     \<and> (\<forall>n. item_wf (fc_data fc n))"

text \<open>Freeing by record number, the way \<open>del\<close> does after parsing the address.\<close>

definition fc_free_index :: "nat \<Rightarrow> fast_conflict_t \<Rightarrow> fast_conflict_t" where
  "fc_free_index i fc = snd (fc_del (block_id_set (fc_file_id fc) i) fc)"

section \<open>Lemmas\<close>

lemma item_zero_wf [simp]: "item_wf item_zero"
  by (simp add: item_zero_def item_wf_def block_id_wf_def block_id_zero_def)

lemma fc_set_link_simps [simp]:
  assumes "item_wf it"
  shows "item_wf (fc_set_link v it)" and "v < 4294967296 \<Longrightarrow> fc_link (fc_set_link v it) = v"
  using item_of_bytes_wf [of "le_bytes 4 v @ drop 4 (item_bytes it)"] item_roundtrip(2) [OF assms]
  by (simp_all add: fc_link_def fc_set_link_def codec_simps)

lemma fc_put_simps [simp]:
  "fc_file_id (fc_put_item i j it fc) = fc_file_id fc"
  "fc_conflict_count (fc_put_item i j it fc) = fc_conflict_count fc"
  "fc_ptr_len (fc_put_item i j it fc) = fc_ptr_len fc"
  "fc_len (fc_put_item i j it fc) = fc_len fc"
  "fc_count (fc_put_item i j it fc) = fc_count fc"
  "fc_free_list_id (fc_put_item i j it fc) = fc_free_list_id fc"
  "fc_file_id (fc_put_record i its fc) = fc_file_id fc"
  "fc_conflict_count (fc_put_record i its fc) = fc_conflict_count fc"
  "fc_ptr_len (fc_put_record i its fc) = fc_ptr_len fc"
  "fc_len (fc_put_record i its fc) = fc_len fc"
  "fc_count (fc_put_record i its fc) = fc_count fc"
  "fc_free_list_id (fc_put_record i its fc) = fc_free_list_id fc"
  by (simp_all add: fc_put_item_def fc_put_record_def)

lemma fc_size_upd [simp]:
  "fc_record_bytes (fc\<lparr>fc_data := d\<rparr>) = fc_record_bytes fc"
  "fc_record_bytes (fc\<lparr>fc_free_list_id := h\<rparr>) = fc_record_bytes fc"
  "fc_record_bytes (fc\<lparr>fc_count := c\<rparr>) = fc_record_bytes fc"
  "fc_record_bytes (fc\<lparr>fc_len := l\<rparr>) = fc_record_bytes fc"
  "fc_record_bytes (fc\<lparr>fc_ptr_len := p\<rparr>) = fc_record_bytes fc"
  "fc_record_bytes (fc_put_item i j it fc) = fc_record_bytes fc"
  "fc_record_bytes (fc_put_record i its fc) = fc_record_bytes fc"
  by (simp_all add: fc_record_bytes_def)

lemma fc_max_upd [simp]:
  "fc_item_max_per_file (fc\<lparr>fc_free_list_id := h\<rparr>) = fc_item_max_per_file fc"
  "fc_item_max_per_file (fc\<lparr>fc_count := c\<rparr>) = fc_item_max_per_file fc"
  "fc_item_max_per_file (fc\<lparr>fc_len := l\<rparr>) = fc_item_max_per_file fc"
  "fc_item_max_per_file (fc\<lparr>fc_ptr_len := p\<rparr>) = fc_item_max_per_file fc"
  "fc_item_max_per_file (fc_put_item i j it fc) = fc_item_max_per_file fc"
  "fc_item_max_per_file (fc_put_record i its fc) = fc_item_max_per_file fc"
  "fc_get_max (fc\<lparr>fc_free_list_id := h\<rparr>) = fc_get_max fc"
  "fc_get_max (fc\<lparr>fc_count := c\<rparr>) = fc_get_max fc"
  "fc_get_max (fc_put_item i j it fc) = fc_get_max fc"
  "fc_get_max (fc_put_record i its fc) = fc_get_max fc"
  by (simp_all add: fc_item_max_per_file_def fc_get_max_def split: option.split)

lemma fc_record_upd [simp]:
  "fc_record (fc\<lparr>fc_free_list_id := h\<rparr>) = fc_record fc"
  "fc_record (fc\<lparr>fc_count := c\<rparr>) = fc_record fc"
  "fc_next (fc\<lparr>fc_free_list_id := h\<rparr>) = fc_next fc"
  "fc_next (fc\<lparr>fc_count := c\<rparr>) = fc_next fc"
  "fc_next (fc\<lparr>fc_len := l\<rparr>) = fc_next fc"
  "fc_next (fc\<lparr>fc_ptr_len := p\<rparr>) = fc_next fc"
  by (simp_all add: fc_record_def fc_next_def fun_eq_iff)

lemma length_fc_record [simp]: "length (fc_record fc i) = fc_conflict_count fc"
  by (simp add: fc_record_def)

lemma fc_record_put_record:
  "fc_record (fc_put_record i its fc) k
     = (if k = i then map its [0..<fc_conflict_count fc] else fc_record fc k)"
  by (auto simp: fc_record_def fc_put_record_def)

lemma fc_record_put_item:
  assumes "j < fc_conflict_count fc"
  shows "fc_record (fc_put_item i j it fc) k
    = (if k = i then (fc_record fc i)[j := it] else fc_record fc k)"
proof -
  have "k * c + a = i * c + j \<longleftrightarrow> k = i \<and> a = j" if "a < c" "j < c" for a c
    using radix_inj [of c k a i j] that by (auto simp: mult.commute)
  then show ?thesis
    using assms by (auto simp: fc_record_def fc_put_item_def nth_list_update intro!: nth_equalityI)
qed

lemma fc_next_put [simp]:
  assumes "0 < fc_conflict_count fc"
  shows "fc_next (fc_put_item i 0 it fc) = (fc_next fc)(i := fc_link it)"
    and "fc_next (fc_put_record i its fc) = (fc_next fc)(i := fc_link (its 0))"
  using assms by (auto simp: fc_next_def fc_put_item_def fc_put_record_def fun_eq_iff)

lemma fc_next_put_item_other:
  assumes "0 < j" "j < fc_conflict_count fc"
  shows "fc_next (fc_put_item i j it fc) = fc_next fc"
proof -
  have "k * fc_conflict_count fc \<noteq> i * fc_conflict_count fc + j" for k
    using assms mod_mult_self3 [of i "fc_conflict_count fc" j]
    by (metis mod_less mod_mult_self2_is_0 less_irrefl)
  then show ?thesis by (simp add: fc_next_def fc_put_item_def fun_eq_iff)
qed

lemma fc_invD:
  assumes "fc_inv fc"
  shows "3 \<le> fc_conflict_count fc" "fc_conflict_count fc \<le> 10" "0 < fc_conflict_count fc"
    "fc_ptr_len fc = Some (fc_len fc)" "fc_file_id fc < 256" "fc_count fc \<le> fc_get_max fc"
    "fl_ok (fc_next fc) (fc_free_list_id fc) (fc_count fc)" "item_wf (fc_data fc n)"
  using assms by (simp_all add: fc_inv_def)

lemma fc_size_bounds:
  assumes "3 \<le> fc_conflict_count fc" "fc_conflict_count fc \<le> 10"
  shows "24 \<le> fc_record_bytes fc" "fc_record_bytes fc \<le> 80" "trunc 32 (fc_record_bytes fc) = fc_record_bytes fc"
    "fc_item_max_per_file fc = 4294967294 div fc_record_bytes fc"
    "fc_item_max_per_file fc \<le> 178956970" "53687091 \<le> fc_item_max_per_file fc"
proof -
  show b: "24 \<le> fc_record_bytes fc" "fc_record_bytes fc \<le> 80"
    using assms by (simp_all add: fc_record_bytes_def bucket_item_bytes_def)
  then show t: "trunc 32 (fc_record_bytes fc) = fc_record_bytes fc" by simp
  then show m: "fc_item_max_per_file fc = 4294967294 div fc_record_bytes fc"
    by (simp add: fc_item_max_per_file_def FAST_CONFLICT_BYTES_PER_FILE_def)
  show "fc_item_max_per_file fc \<le> 178956970"
    using div_le_mono2 [OF _ b(1), of 4294967294] unfolding m by simp
  show "53687091 \<le> fc_item_max_per_file fc"
    using div_le_mono2 [OF _ b(2), of 4294967294] b(1) unfolding m by simp
qed

lemma fc_get_max_exact:
  assumes "3 \<le> fc_conflict_count fc" "fc_conflict_count fc \<le> 10"
    "fc_ptr_len fc = Some (fc_record_bytes fc * Suc k)" "Suc k \<le> fc_item_max_per_file fc"
  shows "fc_get_max fc = k"
  using assms fc_size_bounds [OF assms(1,2)] by (simp add: fc_get_max_def)

lemma fc_inv_len:
  assumes "fc_inv fc"
  shows "fc_len fc = fc_record_bytes fc * Suc (fc_get_max fc)"
    "Suc (fc_get_max fc) \<le> fc_item_max_per_file fc"
proof -
  obtain k where k: "fc_len fc = fc_record_bytes fc * Suc k" "Suc k \<le> fc_item_max_per_file fc"
    using assms by (auto simp: fc_inv_def)
  have "fc_get_max fc = k"
    using fc_invD(1,2,4) [OF assms] k by (intro fc_get_max_exact) simp_all
  then show "fc_len fc = fc_record_bytes fc * Suc (fc_get_max fc)"
    "Suc (fc_get_max fc) \<le> fc_item_max_per_file fc" using k by simp_all
qed

lemma fc_inv_count:
  assumes "fc_inv fc"
  shows "fc_count fc < fc_item_max_per_file fc" "fc_count fc < 178956970"
  using fc_invD(6) [OF assms] fc_inv_len(2) [OF assms] fc_size_bounds(5) [OF fc_invD(1,2) [OF assms]]
  by linarith+

lemma fc_live_bounds:
  assumes "fc_inv fc" "i \<in> fc_live fc"
  shows "1 \<le> i" "i \<le> fc_count fc" "i < fc_item_max_per_file fc" "i < 178956970"
  using fl_live_bounds [OF assms(2) [unfolded fc_live_def]] fc_inv_count [OF assms(1)] by auto

lemma fc_locate_live:
  assumes "fc_inv fc" "i \<in> fc_live fc"
  shows "fc_locate fc (block_id_set (fc_file_id fc) i) = Some i"
  using fc_invD(5) [OF assms(1)] fc_live_bounds [OF assms]
  by (simp add: fc_locate_def fc_parse_addr_def block_id_set_def trunc_def)

text \<open>Parts of the invariant that depend on the items and on the shape of the file only.\<close>

lemma fc_inv_frame:
  assumes "fc_inv fc" "fc_conflict_count fc' = fc_conflict_count fc" "fc_ptr_len fc' = fc_ptr_len fc"
    "fc_len fc' = fc_len fc" "fc_file_id fc' = fc_file_id fc" "fc_count fc' \<le> fc_get_max fc"
    "fl_ok (fc_next fc') (fc_free_list_id fc') (fc_count fc')" "\<And>n. item_wf (fc_data fc' n)"
  shows "fc_inv fc'"
proof -
  have "fc_record_bytes fc' = fc_record_bytes fc" using assms(2) by (simp add: fc_record_bytes_def)
  then have "fc_item_max_per_file fc' = fc_item_max_per_file fc" "fc_get_max fc' = fc_get_max fc"
    "fc_record_bytes fc' = fc_record_bytes fc"
    using assms(3) by (simp_all add: fc_item_max_per_file_def fc_get_max_def split: option.split)
  then show ?thesis using assms unfolding fc_inv_def by simp
qed

lemma fc_put_item_wf:
  "(\<And>n. item_wf (fc_data fc n)) \<Longrightarrow> item_wf it \<Longrightarrow> item_wf (fc_data (fc_put_item i j it fc) n)"
  by (simp add: fc_put_item_def)

lemma fc_put_record_wf:
  "(\<And>n. item_wf (fc_data fc n)) \<Longrightarrow> (\<And>n. item_wf (its n)) \<Longrightarrow>
   item_wf (fc_data (fc_put_record i its fc) n)"
  by (simp add: fc_put_record_def)

lemma fc_pop_free_correct:
  assumes "fc_inv fc" "fc_free_list_id fc \<noteq> 0" "fc_pop_free fc = (i, fc')"
  shows "fc_inv fc'" "i \<notin> fc_live fc" "fc_live fc' = insert i (fc_live fc)"
    "fc_file_id fc' = fc_file_id fc" "fc_conflict_count fc' = fc_conflict_count fc"
    "k \<noteq> i \<Longrightarrow> fc_record fc' k = fc_record fc k"
proof -
  note inv = fc_invD [OF assms(1)]
  note pop = fl_pop [OF inv(7) assms(2)]
  have i: "i = fc_free_list_id fc" using assms(3) by (simp add: fc_pop_free_def Let_def)
  define it where "it = fc_set_link 0 (fc_data fc (i * fc_conflict_count fc))"
  have it: "item_wf it" "fc_link it = 0" using inv(8) by (simp_all add: it_def)
  have fc': "fc' = fc_put_item i 0 it (fc\<lparr>fc_free_list_id := fc_next fc i\<rparr>)"
    using assms(3) pop(3) by (auto simp: fc_pop_free_def Let_def i it_def)
  have nx: "fc_next fc' = (fc_next fc)(i := 0)" using inv(3) it(2) by (simp add: fc')
  show "fc_live fc' = insert i (fc_live fc)"
    using pop(6) [of 0] by (simp add: fc_live_def nx i) (simp add: fc' i)
  show "i \<notin> fc_live fc" using pop(4) by (simp add: fc_live_def i)
  show "fc_file_id fc' = fc_file_id fc" "fc_conflict_count fc' = fc_conflict_count fc"
    by (simp_all add: fc')
  show "fc_record fc' k = fc_record fc k" if "k \<noteq> i"
    using that inv(3) by (simp add: fc' fc_record_put_item)
  have "fl_ok (fc_next fc') (fc_free_list_id fc') (fc_count fc')"
    using pop(5) [of 0] by (simp add: nx i) (simp add: fc' i)
  then show "fc_inv fc'"
    using inv(6,8) it(1) by (intro fc_inv_frame [OF assms(1)]) (simp_all add: fc' fc_put_item_wf)
qed

lemma fc_grow_correct:
  assumes "fc_inv fc" "grow_io_ok io" "fc_count fc = fc_get_max fc" "fc_grow io fc = (ok, fc')"
  shows "fc_inv fc' \<and> fc_live fc' = fc_live fc \<and> fc_data fc' = fc_data fc
    \<and> fc_file_id fc' = fc_file_id fc \<and> fc_conflict_count fc' = fc_conflict_count fc
    \<and> fc_free_list_id fc' = fc_free_list_id fc
    \<and> (ok \<longrightarrow> fc_count fc' < fc_get_max fc')"
proof -
  let ?e = "fc_expand_count fc"
  let ?n = "nat ?e * fc_record_bytes fc"
  note inv = fc_invD [OF assms(1)] and len = fc_inv_len [OF assms(1)]
  note sb = fc_size_bounds [OF inv(1,2)]
  have "fc_count fc + 80001 < 4294967296" using fc_inv_count(2) [OF assms(1)] by simp
  then have e: "?e \<le> int (fc_item_max_per_file fc) - 1 - int (fc_count fc)"
    by (auto simp: fc_expand_count_def width_simps)
  have R: "0 < fc_record_bytes fc" using sb(1) by simp
  consider "fc' = fc" "\<not> ok" | "fc' = fc\<lparr>fc_len := fc_len fc + ?n, fc_ptr_len := Some (fc_len fc + ?n)\<rparr>"
      "0 < ?e" "ok = (fc_count fc < fc_get_max fc')"
    using assms(2,4) R by (fastforce simp: fc_grow_def grow_io_ok_def Let_def split: if_splits)
  then show ?thesis
  proof cases
    case 2
    let ?k = "fc_get_max fc + nat ?e"
    have l: "fc_len fc' = fc_record_bytes fc' * Suc ?k"
      using len(1) 2(1) by (simp add: algebra_simps)
    have "int (Suc ?k) \<le> int (fc_item_max_per_file fc)" using e 2(2) assms(3) by simp
    then have "Suc ?k \<le> fc_item_max_per_file fc" by (simp only: of_nat_le_iff)
    then have k: "Suc ?k \<le> fc_item_max_per_file fc'" using 2(1) by simp
    have m: "fc_get_max fc' = ?k"
      using inv(1,2) l k 2(1) by (intro fc_get_max_exact) simp_all
    have "fc_inv fc'" unfolding fc_inv_def using inv l k m 2(1) by auto
    then show ?thesis using 2 m assms(3) by (simp add: fc_live_def)
  qed (use assms in simp_all)
qed

lemma fc_bump_correct:
  assumes "fc_inv fc" "fc_free_list_id fc = 0" "fc_count fc < fc_get_max fc"
    "fc_bump fc = (r, fc')"
  shows "r = Some (Suc (fc_count fc))" "fc_inv fc'" "Suc (fc_count fc) \<notin> fc_live fc"
    "fc_live fc' = insert (Suc (fc_count fc)) (fc_live fc)"
    "fc_file_id fc' = fc_file_id fc" "fc_conflict_count fc' = fc_conflict_count fc"
    "fc_record fc' = fc_record fc"
proof -
  have fc': "fc' = fc\<lparr>fc_count := Suc (fc_count fc)\<rparr>" and r: "r = Some (Suc (fc_count fc))"
    using assms(4) fc_inv_count(2) [OF assms(1)] by (auto simp: fc_bump_def Let_def trunc_def)
  note bump = fl_bump [OF fc_invD(7) [OF assms(1), unfolded assms(2)]]
  show "fc_live fc' = insert (Suc (fc_count fc)) (fc_live fc)" "Suc (fc_count fc) \<notin> fc_live fc"
    using bump assms(2) by (simp_all add: fc_live_def fc')
  show "r = Some (Suc (fc_count fc))" "fc_file_id fc' = fc_file_id fc" "fc_record fc' = fc_record fc"
    "fc_conflict_count fc' = fc_conflict_count fc"
    using r by (simp_all add: fc')
  show "fc_inv fc'"
    using assms(2,3) bump(1) fc_invD(8) [OF assms(1)]
    by (intro fc_inv_frame [OF assms(1)]) (simp_all add: fc')
qed

lemma fc_alloc_correct:
  assumes "fc_inv fc" "grow_io_ok io" "fc_alloc_item io fc = (r, fc')"
  shows "fc_inv fc' \<and> fc_file_id fc' = fc_file_id fc \<and> fc_conflict_count fc' = fc_conflict_count fc
    \<and> (case r of
         None \<Rightarrow> fc_live fc' = fc_live fc \<and> fc_record fc' = fc_record fc
       | Some i \<Rightarrow> i \<notin> fc_live fc \<and> fc_live fc' = insert i (fc_live fc)
           \<and> (\<forall>k. k \<noteq> i \<longrightarrow> fc_record fc' k = fc_record fc k))"
proof (cases "fc_free_list_id fc = 0")
  case False
  then obtain i where r: "r = Some i" and p: "fc_pop_free fc = (i, fc')"
    using assms(3) fc_invD(4) [OF assms(1)] fl_head [OF fc_invD(7) [OF assms(1)]]
    by (auto simp: fc_alloc_item_def split: prod.splits)
  show ?thesis using fc_pop_free_correct [OF assms(1) False p] r by simp
next
  case True
  note inv = fc_invD [OF assms(1)]
  show ?thesis
  proof (cases "fc_count fc = fc_get_max fc")
    case False
    then have b: "fc_bump fc = (r, fc')" and c: "fc_count fc < fc_get_max fc"
      using assms(3) inv(4,6) True by (auto simp: fc_alloc_item_def)
    show ?thesis using fc_bump_correct [OF assms(1) True c b] by simp
  next
    case c: True
    obtain ok fc1 where g: "fc_grow io fc = (ok, fc1)" by force
    note gr = fc_grow_correct [OF assms(1,2) c g]
    have rec: "fc_record fc1 = fc_record fc" using gr by (simp add: fc_record_def fun_eq_iff)
    show ?thesis
    proof (cases ok)
      case ok: True
      then have b: "fc_bump fc1 = (r, fc')"
        using assms(3) inv(4) True c g by (auto simp: fc_alloc_item_def)
      have "fc_inv fc1" "fc_free_list_id fc1 = 0" "fc_count fc1 < fc_get_max fc1"
        using gr True ok by simp_all
      from fc_bump_correct [OF this b] gr rec show ?thesis by simp
    next
      case False
      then show ?thesis using assms(3) inv(4) True c g gr rec by (auto simp: fc_alloc_item_def)
    qed
  qed
qed

text \<open>Writing into a record in use keeps the file well-formed.\<close>

lemma fc_put_record_live:
  assumes "fc_inv fc" "i \<in> fc_live fc" "\<And>n. item_wf (its n)"
  shows "fc_inv (fc_put_record i its fc)" "fc_live (fc_put_record i its fc) = fc_live fc"
proof -
  note inv = fc_invD [OF assms(1)]
  note w = fl_write [OF inv(7) assms(2) [unfolded fc_live_def], of "fc_link (its 0)"]
  show "fc_live (fc_put_record i its fc) = fc_live fc"
    using w(2) inv(3) by (simp add: fc_live_def)
  show "fc_inv (fc_put_record i its fc)"
    using inv(3,6,8) w(1) assms(3)
    by (intro fc_inv_frame [OF assms(1)]) (simp_all add: fc_put_record_wf)
qed

lemma fc_put_item_live:
  assumes "fc_inv fc" "i \<in> fc_live fc" "j < fc_conflict_count fc" "item_wf it"
  shows "fc_inv (fc_put_item i j it fc)" "fc_live (fc_put_item i j it fc) = fc_live fc"
proof -
  note inv = fc_invD [OF assms(1)]
  note w = fl_write [OF inv(7) assms(2) [unfolded fc_live_def]]
  have nx: "fc_next (fc_put_item i j it fc) = (if j = 0 then (fc_next fc)(i := fc_link it) else fc_next fc)"
    using inv(3) assms(3) fc_next_put_item_other [of j fc i it] by simp
  show "fc_live (fc_put_item i j it fc) = fc_live fc"
    using w(2) by (simp add: fc_live_def nx)
  show "fc_inv (fc_put_item i j it fc)"
    using inv(6,7,8) w(1) assms(4)
    by (intro fc_inv_frame [OF assms(1)]) (simp_all add: fc_put_item_wf nx)
qed

lemma fc_del_correct:
  assumes "fc_inv fc" "i \<in> fc_live fc" "fc_del (block_id_set (fc_file_id fc) i) fc = (ok, fc')"
  shows "ok" "fc_inv fc'" "fc_live fc' = fc_live fc - {i}" "fc_file_id fc' = fc_file_id fc"
    "k \<noteq> i \<Longrightarrow> fc_record fc' k = fc_record fc k"
proof -
  let ?h = "fc_free_list_id fc"
  note inv = fc_invD [OF assms(1)]
  have h: "?h < 4294967296" using fl_head [OF inv(7)] fc_inv_count(2) [OF assms(1)] by simp
  define it where "it = fc_set_link ?h item_zero"
  have it: "item_wf it" "fc_link it = ?h" using h by (simp_all add: it_def)
  have fc': "fc' = (fc_put_item i 0 it (fc_put_record i (\<lambda>_. item_zero) fc))\<lparr>fc_free_list_id := i\<rparr>"
    and "ok" using assms(3) by (auto simp: fc_del_def fc_locate_live [OF assms(1,2)] it_def Let_def)
  then show ok by simp
  have nx: "fc_next fc' = (fc_next fc)(i := ?h)" using inv(3) it(2) by (simp add: fc')
  note push = fl_push [OF inv(7) assms(2) [unfolded fc_live_def]]
  show "fc_live fc' = fc_live fc - {i}"
    using push(2) unfolding fc_live_def nx by (simp add: fc')
  show "fc_file_id fc' = fc_file_id fc" by (simp add: fc')
  show "fc_record fc' k = fc_record fc k" if "k \<noteq> i"
    using that inv(3) by (simp add: fc' fc_record_put_item fc_record_put_record)
  have "fl_ok (fc_next fc') (fc_free_list_id fc') (fc_count fc')"
    using push(1) unfolding nx by (simp add: fc')
  then show "fc_inv fc'"
    using inv(6,8) it(1)
    by (intro fc_inv_frame [OF assms(1)]) (simp_all add: fc' fc_put_item_wf fc_put_record_wf)
qed

lemma fc_free_index_correct:
  assumes "fc_inv fc" "i \<in> fc_live fc"
  shows "fc_inv (fc_free_index i fc)" "fc_live (fc_free_index i fc) = fc_live fc - {i}"
  using fc_del_correct [OF assms prod.collapse [symmetric]] by (simp_all add: fc_free_index_def)

interpretation fconf: record_allocator fc_alloc_item fc_free_index fc_inv fc_live
proof
  fix s io r s' i
  assume inv: "fc_inv s"
  show "grow_io_ok io \<Longrightarrow> fc_alloc_item io s = (r, s') \<Longrightarrow> fc_inv s'"
    using fc_alloc_correct [OF inv] by blast
  show "grow_io_ok io \<Longrightarrow> fc_alloc_item io s = (Some i, s') \<Longrightarrow>
      i \<notin> fc_live s \<and> fc_live s' = insert i (fc_live s)"
    using fc_alloc_correct [OF inv] by fastforce
  show "grow_io_ok io \<Longrightarrow> fc_alloc_item io s = (None, s') \<Longrightarrow> fc_live s' = fc_live s"
    using fc_alloc_correct [OF inv] by fastforce
  show "i \<in> fc_live s \<Longrightarrow> fc_inv (fc_free_index i s)"
    "i \<in> fc_live s \<Longrightarrow> fc_live (fc_free_index i s) = fc_live s - {i}"
    using fc_free_index_correct [OF inv] by blast+
qed

lemma fc_write_offset:
  assumes "fc_inv fc" "i \<in> fc_live fc"
  shows "trunc 32 (i * fc_record_bytes fc) = i * fc_record_bytes fc"
    "fc_record_bytes fc \<le> i * fc_record_bytes fc"
    "trunc 32 (i * fc_record_bytes fc + fc_record_bytes fc) \<le> FAST_CONFLICT_BYTES_PER_FILE"
proof -
  let ?R = "fc_record_bytes fc"
  note b = fc_live_bounds [OF assms] and sb = fc_size_bounds [OF fc_invD(1,2) [OF assms(1)]]
  have "Suc i * ?R \<le> fc_item_max_per_file fc * ?R" using b(3) by (intro mult_le_mono1) simp
  also have "\<dots> \<le> 4294967294" unfolding sb(4) by (rule div_times_less_eq_dividend)
  finally have "i * ?R + ?R \<le> 4294967294" by simp
  then show "trunc 32 (i * ?R) = i * ?R" "trunc 32 (i * ?R + ?R) \<le> FAST_CONFLICT_BYTES_PER_FILE"
    by (simp_all add: FAST_CONFLICT_BYTES_PER_FILE_def)
  show "?R \<le> i * ?R" using b(1) by simp
qed

lemma fc_write_eq:
  assumes "fc_inv fc" "grow_io_ok io" "fc_alloc_item io fc = (Some i, fc1)"
  shows "fc_write io b1 b2 fc = (Some (block_id_set (fc_file_id fc) i),
    fc_put_record i (\<lambda>j. if j = 0 then b1 else if j = 1 then b2 else item_zero) fc1)"
proof -
  have a: "fc_inv fc1" "i \<in> fc_live fc1" "fc_file_id fc1 = fc_file_id fc" "fc_file_id fc < 256"
    using fc_alloc_correct [OF assms] fc_invD(5) [OF assms(1)] by simp_all
  note sb = fc_size_bounds [OF fc_invD(1,2) [OF a(1)]]
  have "0 < i" "0 < fc_record_bytes fc1" using fc_live_bounds(1) [OF a(1,2)] sb(1) by simp_all
  then show ?thesis
    using fc_write_offset [OF a(1,2)] assms(3) a(3,4)
    by (simp add: fc_write_def Let_def fc_generate_addr_def sb(3))
qed

lemma fc_write_correct:
  assumes "fc_inv fc" "grow_io_ok io" "item_wf b1" "item_wf b2" "fc_write io b1 b2 fc = (r, fc')"
  shows "fc_inv fc' \<and> fc_file_id fc' = fc_file_id fc \<and> fc_conflict_count fc' = fc_conflict_count fc
    \<and> (case r of
         None \<Rightarrow> fc_live fc' = fc_live fc \<and> fc_record fc' = fc_record fc
       | Some a \<Rightarrow> \<exists>i. a = block_id_set (fc_file_id fc) i \<and> i \<notin> fc_live fc
           \<and> fc_live fc' = insert i (fc_live fc)
           \<and> (\<forall>k. k \<noteq> i \<longrightarrow> fc_record fc' k = fc_record fc k)
           \<and> fc_record fc' i = b1 # b2 # replicate (fc_conflict_count fc - 2) item_zero)"
proof -
  obtain q fc1 where al: "fc_alloc_item io fc = (q, fc1)" by force
  note ac = fc_alloc_correct [OF assms(1,2) al]
  show ?thesis
  proof (cases q)
    case None
    then show ?thesis using assms(5) al ac by (auto simp: fc_write_def)
  next
    case (Some i)
    let ?its = "\<lambda>j. if j = 0 then b1 else if j = 1 then b2 else item_zero"
    have r: "r = Some (block_id_set (fc_file_id fc) i)" and fc': "fc' = fc_put_record i ?its fc1"
      using fc_write_eq [OF assms(1,2) al [unfolded Some]] assms(5) by simp_all
    have inv: "fc_inv fc1" and live: "i \<in> fc_live fc1"
      and cc: "fc_conflict_count fc1 = fc_conflict_count fc" using ac Some by auto
    have "map ?its [0..<fc_conflict_count fc]
        = b1 # b2 # replicate (fc_conflict_count fc - 2) item_zero"
      using fc_invD(1) [OF assms(1)] by (intro nth_equalityI) (auto simp: nth_Cons')
    then show ?thesis
      using ac Some r cc fc_put_record_live [OF inv live, of ?its] assms(3,4)
      by (simp add: fc' fc_record_put_record exI [where x = i])
  qed
qed

lemma fast_conflict_new_file_inv:
  assumes "fast_conflict_open path f c None True id True True = (Some fc, file')" "c \<le> 10"
  shows "fc_inv fc" "fc_live fc = {}" "fc_file_id fc = nat f" "fc_conflict_count fc = nat c"
proof -
  have fl: "fl_ok n 0 0" "fl_live n 0 0 = {}" for n by (simp_all add: fl_ok_def fl_live_def)
  have fc: "fc = (fc_new_file (nat c))\<lparr>fc_file_id := nat f, fc_ptr_len := Some (fc_len (fc_new_file (nat c)))\<rparr>"
    and "nat f < 256" "3 \<le> c"
    using assms(1) by (auto simp: fast_conflict_open_def fast_conflict_create_file_def Let_def
        fc_new_file_def width_simps split: if_splits)
  then have cc: "3 \<le> fc_conflict_count fc" "fc_conflict_count fc \<le> 10"
    using assms(2) by (simp_all add: fc_new_file_def)
  have len: "fc_len fc = fc_record_bytes fc * Suc 80000"
    by (simp add: fc fc_new_file_def fc_record_bytes_def FC_DEFAULT_ITEM_COUNT_def)
  then show "fc_inv fc" "fc_live fc = {}" "fc_file_id fc = nat f" "fc_conflict_count fc = nat c"
    using fl cc \<open>nat f < 256\<close> fc_size_bounds(6) [OF cc]
    by (auto simp: fc_inv_def fc_live_def fc fc_new_file_def intro!: exI [where x = 80000])
qed

end
