(* ===== verification/Fullkey.thy ===== *)
theory Fullkey
  imports Bucket Free_List
begin

text \<open>
  The key files of the md5db engine (\<open>fullkey.h\<close>, \<open>fullkey.cpp\<close>, \<open>fullkey_array.cpp\<close>).
  A key file is a header record followed by 21 byte records: the last 13 bytes of the MD5
  digest and the content identifier of the value. The records are addressed by
  \<open>block_id_t\<close>, freed records form a list linked through their first four bytes.

  The state keeps the mapped length, the length of the file on disk (which a failed
  growth can leave larger) and the records by index. Indices the file never wrote hold
  zero bytes.
\<close>

section \<open>Records and files\<close>

record fullkey_data_t =
  m_md5_suffix :: bytes
  m_content_id :: content_id_t

definition fk_sizeof :: nat where
  [width_simps]: "fk_sizeof = 21"

definition FILEKEY_BYTES_PER_FILE :: nat where
  [width_simps]: "FILEKEY_BYTES_PER_FILE = 4294967294"

definition FK_DEFAULT_ITEM_COUNT :: nat where
  [width_simps]: "FK_DEFAULT_ITEM_COUNT = 400000"

definition FK_EXPAND_ITEM_COUNT :: nat where
  [width_simps]: "FK_EXPAND_ITEM_COUNT = 400000"

definition FULLKEY_FILE_COUNT :: nat where
  [width_simps]: "FULLKEY_FILE_COUNT = 256"

definition fk_data_zero :: fullkey_data_t where
  "fk_data_zero = \<lparr>m_md5_suffix = replicate 13 0, m_content_id = content_id_zero\<rparr>"

text \<open>
  \<open>fk_file_id\<close> is \<open>m_file_id\<close> as the comparisons see it, converted to \<open>uint32_t\<close>;
  \<open>fk_ptr_len\<close> is \<open>None\<close> while nothing is mapped.
\<close>

record fullkey_t =
  fk_file_id :: nat
  fk_ptr_len :: "nat option"
  fk_len :: nat
  fk_count :: nat
  fk_free_list_id :: nat
  fk_data :: "nat \<Rightarrow> fullkey_data_t"

text \<open>The free list link overlays the first four bytes of a record.\<close>

definition fk_link :: "fullkey_data_t \<Rightarrow> nat" where
  "fk_link d = le_val (take 4 (m_md5_suffix d))"

definition fk_set_link :: "nat \<Rightarrow> fullkey_data_t \<Rightarrow> fullkey_data_t" where
  "fk_set_link v d = d\<lparr>m_md5_suffix := le_bytes 4 v @ drop 4 (m_md5_suffix d)\<rparr>"

definition fk_next :: "fullkey_t \<Rightarrow> nat \<Rightarrow> nat" where
  "fk_next fk i = fk_link (fk_data fk i)"

definition fk_get_max :: "fullkey_t \<Rightarrow> nat" where
  "fk_get_max fk =
     (case fk_ptr_len fk of
        None \<Rightarrow> 0
      | Some n \<Rightarrow> trunc 32 ((n - fk_sizeof) div fk_sizeof))"

definition fk_item_max_per_file :: nat where
  [width_simps]: "fk_item_max_per_file = FILEKEY_BYTES_PER_FILE div fk_sizeof"

section \<open>Opening\<close>

text \<open>
  \<open>fullkey_open\<close> takes the file found at the path (\<open>None\<close> when \<open>is_file\<close> fails), the
  number of bytes \<open>fwrite\<close> reports for the header and the initial records, and whether
  \<open>fopen\<close> and \<open>fmap_open\<close> succeed. It returns the opened object and the file that is
  on disk afterwards; a partly written new file is removed.
\<close>

definition fk_new_file :: fullkey_t where
  "fk_new_file =
     \<lparr>fk_file_id = UINT32_MOD - 1, fk_ptr_len = None,
      fk_len = fk_sizeof + FK_DEFAULT_ITEM_COUNT * fk_sizeof,
      fk_count = 0, fk_free_list_id = 0, fk_data = (\<lambda>_. fk_data_zero)\<rparr>"

definition fullkey_create_file :: "bool \<Rightarrow> (nat \<Rightarrow> nat) \<Rightarrow> fullkey_t option" where
  "fullkey_create_file fopen_ok fwritten =
     (if \<not> fopen_ok then None
      else if fk_sizeof \<noteq> fwritten fk_sizeof then None
      else let n = FK_DEFAULT_ITEM_COUNT * fk_sizeof in
           if n \<noteq> fwritten n then None else Some fk_new_file)"

definition fullkey_open ::
  "bytes \<Rightarrow> int \<Rightarrow> fullkey_t option \<Rightarrow> bool \<Rightarrow> (nat \<Rightarrow> nat) \<Rightarrow> bool \<Rightarrow> bool
   \<Rightarrow> fullkey_t option \<times> fullkey_t option" where
  "fullkey_open path file_id file wb_ok fwritten ab_ok fmap_ok =
     (if file_id < 0 \<or> file_id \<ge> int FULLKEY_FILE_COUNT then (None, file)
      else if path = [] then (None, file)
      else case (case file of Some f \<Rightarrow> Some f | None \<Rightarrow> fullkey_create_file wb_ok fwritten) of
             None \<Rightarrow> (None, file)
           | Some f \<Rightarrow>
               if \<not> ab_ok then (None, Some f)
               else if \<not> fmap_ok then (None, Some f)
               else if fk_len f < fk_sizeof + fk_sizeof * FK_DEFAULT_ITEM_COUNT then (None, Some f)
               else if fk_len f mod fk_sizeof \<noteq> 0 then (None, Some f)
               else (Some (f\<lparr>fk_file_id := nat file_id, fk_ptr_len := Some (fk_len f)\<rparr>), Some f))"

section \<open>Block identifiers of a key file\<close>

definition fk_generate_block_id :: "nat \<Rightarrow> nat \<Rightarrow> block_id_t option" where
  "fk_generate_block_id file_id index =
     (if file_id > 0xFF \<or> index = 0 then None else Some (block_id_set file_id index))"

definition fk_parse_block_id :: "fullkey_t \<Rightarrow> block_id_t \<Rightarrow> nat option" where
  "fk_parse_block_id fk block_id =
     (let file_id = m_bucket_id block_id; index = m_data_id block_id in
      if index = 0 then None
      else if file_id \<noteq> fk_file_id fk \<or> index = 0 \<or> index \<ge> FILEKEY_BYTES_PER_FILE div fk_sizeof
      then None
      else if fk_count fk = 0 \<or> index > fk_count fk then None
      else Some index)"

section \<open>Allocation\<close>

text \<open>Taking the head of the free list: the link of the head becomes the new head.\<close>

definition fk_pop_free :: "fullkey_t \<Rightarrow> nat \<times> fullkey_t" where
  "fk_pop_free fk =
     (let i = fk_free_list_id fk;
          nxt = fk_next fk i;
          fk1 = fk\<lparr>fk_free_list_id := nxt,
                   fk_data := (fk_data fk)(i := fk_set_link 0 (fk_data fk i))\<rparr>
      in (i, if nxt > fk_count fk then fk1\<lparr>fk_free_list_id := 0\<rparr> else fk1))"

text \<open>Growing the file when every mapped record is in use.\<close>

definition fk_expand_count :: "fullkey_t \<Rightarrow> int" where
  "fk_expand_count fk =
     (if (fk_count fk + 1 + FK_EXPAND_ITEM_COUNT) mod UINT32_MOD > fk_item_max_per_file
      then int fk_item_max_per_file - 1 - int (fk_count fk)
      else int FK_EXPAND_ITEM_COUNT)"

definition fk_grow :: "grow_io \<Rightarrow> fullkey_t \<Rightarrow> bool \<times> fullkey_t" where
  "fk_grow io fk =
     (if fk_expand_count fk \<le> 0 then (False, fk)
      else let n = nat (fk_expand_count fk) * fk_sizeof;
               fk1 = fk\<lparr>fk_len := fk_len fk + gi_fwritten io n\<rparr>
           in if n \<noteq> gi_fwritten io n then (False, fk1)
              else if \<not> gi_fmap_open io then (False, fk1)
              else let fk2 = fk1\<lparr>fk_ptr_len := Some (fk_len fk1)\<rparr> in
                   (\<not> fk_count fk2 \<ge> fk_get_max fk2, fk2))"

definition fk_bump :: "fullkey_t \<Rightarrow> nat option \<times> fullkey_t" where
  "fk_bump fk =
     (let c = trunc 32 (fk_count fk + 1) in (Some c, fk\<lparr>fk_count := c\<rparr>))"

definition fk_alloc_item :: "grow_io \<Rightarrow> fullkey_t \<Rightarrow> nat option \<times> fullkey_t" where
  "fk_alloc_item io fk =
     (if fk_ptr_len fk = None then (None, fk)
      else if fk_free_list_id fk \<noteq> 0 \<and> fk_free_list_id fk \<le> fk_count fk
      then (let (i, fk') = fk_pop_free fk in (Some i, fk'))
      else if fk_count fk > fk_get_max fk then (None, fk)
      else if fk_count fk = fk_get_max fk
      then (let (ok, fk') = fk_grow io fk in if ok then fk_bump fk' else (None, fk'))
      else fk_bump fk)"

section \<open>Operations\<close>

definition fk_compare :: "fullkey_t \<Rightarrow> block_id_t \<Rightarrow> bytes \<Rightarrow> bool" where
  "fk_compare fk block_id inner_key =
     (case fk_parse_block_id fk block_id of
        None \<Rightarrow> False
      | Some index \<Rightarrow> m_md5_suffix (fk_data fk index) = take 13 (drop 3 inner_key))"

definition fk_write :: "grow_io \<Rightarrow> bytes \<Rightarrow> fullkey_t \<Rightarrow> block_id_t option \<times> fullkey_t" where
  "fk_write io inner_key fk =
     (if length inner_key \<noteq> 16 then (None, fk)
      else case fk_alloc_item io fk of
             (None, fk1) \<Rightarrow> (None, fk1)
           | (Some i, fk1) \<Rightarrow>
               let offset = trunc 32 (i * fk_sizeof) in
               if offset < fk_sizeof \<or> trunc 32 (offset + fk_sizeof) > FILEKEY_BYTES_PER_FILE
               then (None, fk1)
               else let fk2 = fk1\<lparr>fk_data := (fk_data fk1)(i :=
                                 (fk_data fk1 i)\<lparr>m_md5_suffix := take 13 (drop 3 inner_key)\<rparr>)\<rparr>;
                        index = offset div fk_sizeof
                    in (fk_generate_block_id (fk_file_id fk2) index, fk2))"

definition fk_get :: "fullkey_t \<Rightarrow> block_id_t \<Rightarrow> bytes option" where
  "fk_get fk block_id =
     (case fk_parse_block_id fk block_id of
        None \<Rightarrow> None
      | Some index \<Rightarrow> Some (m_md5_suffix (fk_data fk index)))"

definition fk_del :: "block_id_t \<Rightarrow> fullkey_t \<Rightarrow> bool \<times> fullkey_t" where
  "fk_del block_id fk =
     (case fk_parse_block_id fk block_id of
        None \<Rightarrow> (False, fk)
      | Some index \<Rightarrow>
          (True, fk\<lparr>fk_data := (fk_data fk)(index := fk_set_link (fk_free_list_id fk) fk_data_zero),
                    fk_free_list_id := index\<rparr>))"

definition fk_set_content_id ::
  "block_id_t \<Rightarrow> content_id_t \<Rightarrow> fullkey_t \<Rightarrow> bool \<times> fullkey_t" where
  "fk_set_content_id block_id content_id fk =
     (case fk_parse_block_id fk block_id of
        None \<Rightarrow> (False, fk)
      | Some index \<Rightarrow>
          if content_file_id content_id > 0xFF \<or> content_data_id content_id = 0
             \<or> content_data_len content_id = 0
          then (False, fk)
          else (True, fk\<lparr>fk_data := (fk_data fk)(index :=
                           (fk_data fk index)\<lparr>m_content_id := content_id\<rparr>)\<rparr>))"

definition fk_get_content_id :: "fullkey_t \<Rightarrow> block_id_t \<Rightarrow> content_id_t option" where
  "fk_get_content_id fk block_id =
     (case fk_parse_block_id fk block_id of
        None \<Rightarrow> None
      | Some index \<Rightarrow> Some (m_content_id (fk_data fk index)))"

section \<open>Well-formed key files\<close>

definition fk_live :: "fullkey_t \<Rightarrow> nat set" where
  "fk_live fk = fl_live (fk_next fk) (fk_free_list_id fk) (fk_count fk)"

definition fk_inv :: "fullkey_t \<Rightarrow> bool" where
  "fk_inv fk \<longleftrightarrow>
     fk_ptr_len fk = Some (fk_len fk) \<and> fk_len fk mod fk_sizeof = 0
     \<and> fk_sizeof \<le> fk_len fk \<and> fk_len fk \<le> fk_sizeof * fk_item_max_per_file
     \<and> fk_file_id fk < 256 \<and> fk_count fk \<le> fk_get_max fk
     \<and> fl_ok (fk_next fk) (fk_free_list_id fk) (fk_count fk)
     \<and> (\<forall>i. length (m_md5_suffix (fk_data fk i)) = 13)
     \<and> (\<forall>i. content_id_wf (m_content_id (fk_data fk i)))
     \<and> (\<forall>i. i \<notin> fk_live fk \<longrightarrow> m_content_id (fk_data fk i) = content_id_zero)"

text \<open>Freeing by record number, the way \<open>fk_del\<close> does after parsing.\<close>

definition fk_free_index :: "nat \<Rightarrow> fullkey_t \<Rightarrow> fullkey_t" where
  "fk_free_index i fk = snd (fk_del (block_id_set (fk_file_id fk) i) fk)"

section \<open>The array of 256 key files\<close>

text \<open>\<open>fullkey_array_t::open\<close> opens the files in order and stops at the first failure.\<close>

primrec fullkey_array_open_loop ::
  "(nat \<Rightarrow> fullkey_t option) \<Rightarrow> nat list \<Rightarrow> (nat \<Rightarrow> fullkey_t) \<Rightarrow> (nat \<Rightarrow> fullkey_t) option" where
  "fullkey_array_open_loop opened [] m_fullkeys = Some m_fullkeys"
| "fullkey_array_open_loop opened (i # is) m_fullkeys =
     (case opened i of
        None \<Rightarrow> None
      | Some fk \<Rightarrow> fullkey_array_open_loop opened is (m_fullkeys(i := fk)))"

definition fullkey_array_open ::
  "bytes \<Rightarrow> (nat \<Rightarrow> fullkey_t option) \<Rightarrow> (nat \<Rightarrow> bool) \<Rightarrow> (nat \<Rightarrow> nat \<Rightarrow> nat) \<Rightarrow> (nat \<Rightarrow> bool)
   \<Rightarrow> (nat \<Rightarrow> bool) \<Rightarrow> (nat \<Rightarrow> fullkey_t) option" where
  "fullkey_array_open path files wb_ok fwritten ab_ok fmap_ok =
     (if path = [] then None
      else fullkey_array_open_loop
             (\<lambda>i. fst (fullkey_open path (int i) (files i) (wb_ok i) (fwritten i) (ab_ok i) (fmap_ok i)))
             [0..<FULLKEY_FILE_COUNT] (\<lambda>_. fk_new_file))"

definition get_fullkey :: "(nat \<Rightarrow> fullkey_t) \<Rightarrow> bytes \<Rightarrow> fullkey_t" where
  "get_fullkey m_fullkeys inner_key = m_fullkeys (unat (inner_key ! 0))"

section \<open>Lemmas\<close>

lemma fk_link_set_link [simp]: "v < 4294967296 \<Longrightarrow> fk_link (fk_set_link v d) = v"
  by (simp add: fk_link_def fk_set_link_def codec_simps)

lemma fk_set_link_simps [simp]:
  "m_content_id (fk_set_link v d) = m_content_id d"
  "length (m_md5_suffix d) = 13 \<Longrightarrow> length (m_md5_suffix (fk_set_link v d)) = 13"
  by (simp_all add: fk_set_link_def)

lemma fk_data_zero_simps [simp]:
  "m_content_id fk_data_zero = content_id_zero" "length (m_md5_suffix fk_data_zero) = 13"
  "content_id_wf content_id_zero"
  by (simp_all add: fk_data_zero_def content_id_wf_def content_id_zero_def)

lemma fk_next_upd [simp]:
  "fk_next (fk\<lparr>fk_data := (fk_data fk)(i := d)\<rparr>) = (fk_next fk)(i := fk_link d)"
  "fk_next (fk\<lparr>fk_free_list_id := h\<rparr>) = fk_next fk"
  "fk_next (fk\<lparr>fk_count := c\<rparr>) = fk_next fk"
  "fk_next (fk\<lparr>fk_len := n\<rparr>) = fk_next fk"
  "fk_next (fk\<lparr>fk_ptr_len := p\<rparr>) = fk_next fk"
  by (auto simp: fk_next_def fun_eq_iff)

lemma fk_get_max_upd [simp]:
  "fk_get_max (fk\<lparr>fk_data := d\<rparr>) = fk_get_max fk"
  "fk_get_max (fk\<lparr>fk_free_list_id := h\<rparr>) = fk_get_max fk"
  "fk_get_max (fk\<lparr>fk_count := c\<rparr>) = fk_get_max fk"
  by (simp_all add: fk_get_max_def)

lemma fk_item_max_value: "fk_item_max_per_file = 204522252"
  by (simp add: width_simps)

lemma fk_get_max_exact:
  assumes "fk_ptr_len fk = Some n" "n = fk_sizeof * Suc k" "Suc k \<le> fk_item_max_per_file"
  shows "fk_get_max fk = k"
  using assms by (simp add: fk_get_max_def width_simps trunc_def)

lemma fk_inv_len:
  assumes "fk_inv fk"
  shows "fk_len fk = fk_sizeof * Suc (fk_get_max fk)" "Suc (fk_get_max fk) \<le> fk_item_max_per_file"
proof -
  obtain j where j: "fk_len fk = fk_sizeof * j"
    using assms unfolding fk_inv_def mod_eq_0_iff_dvd dvd_def by blast
  have "0 < j" "j \<le> fk_item_max_per_file"
    using assms j by (auto simp: fk_inv_def width_simps)
  then obtain k where k: "j = Suc k" by (cases j) auto
  with j \<open>j \<le> _\<close> have "fk_get_max fk = k"
    using assms by (intro fk_get_max_exact [where n = "fk_len fk"]) (simp_all add: fk_inv_def)
  then show "fk_len fk = fk_sizeof * Suc (fk_get_max fk)"
    "Suc (fk_get_max fk) \<le> fk_item_max_per_file"
    using j k \<open>j \<le> _\<close> by simp_all
qed

lemma fk_inv_count:
  assumes "fk_inv fk"
  shows "fk_count fk < fk_item_max_per_file" "fk_count fk < 4294967296"
  using assms fk_inv_len(2) [OF assms] by (auto simp: fk_inv_def fk_item_max_value)

lemma fk_live_bounds:
  assumes "fk_inv fk" "i \<in> fk_live fk"
  shows "1 \<le> i" "i \<le> fk_count fk" "i < fk_item_max_per_file" "i < 4294967296"
  using fl_live_bounds [OF assms(2) [unfolded fk_live_def]] fk_inv_count [OF assms(1)] by auto

lemma fk_parse_live:
  assumes "fk_inv fk" "i \<in> fk_live fk"
  shows "fk_parse_block_id fk (block_id_set (fk_file_id fk) i) = Some i"
  using assms(1) fk_live_bounds [OF assms]
  by (simp add: fk_parse_block_id_def block_id_set_def trunc_def fk_inv_def fk_item_max_per_file_def)

lemma fk_invD:
  assumes "fk_inv fk"
  shows "fk_ptr_len fk = Some (fk_len fk)" "fk_file_id fk < 256" "fk_count fk \<le> fk_get_max fk"
    "fl_ok (fk_next fk) (fk_free_list_id fk) (fk_count fk)"
    "length (m_md5_suffix (fk_data fk i)) = 13" "content_id_wf (m_content_id (fk_data fk i))"
    "i \<notin> fk_live fk \<Longrightarrow> m_content_id (fk_data fk i) = content_id_zero"
  using assms by (simp_all add: fk_inv_def)

lemma fk_pop_free_correct:
  assumes "fk_inv fk" "fk_free_list_id fk \<noteq> 0" "fk_pop_free fk = (i, fk')"
  shows "fk_inv fk'" "i \<notin> fk_live fk" "fk_live fk' = insert i (fk_live fk)"
    "fk_file_id fk' = fk_file_id fk" "j \<noteq> i \<Longrightarrow> fk_data fk' j = fk_data fk j"
    "m_content_id (fk_data fk' i) = content_id_zero"
proof -
  note inv = fk_invD [OF assms(1)]
  note pop = fl_pop [OF inv(4) assms(2)]
  have i: "i = fk_free_list_id fk" using assms(3) by (simp add: fk_pop_free_def Let_def)
  have fk': "fk' = fk\<lparr>fk_free_list_id := fk_next fk i,
      fk_data := (fk_data fk)(i := fk_set_link 0 (fk_data fk i))\<rparr>"
    using assms(3) pop(3) by (auto simp: fk_pop_free_def Let_def i)
  have nx: "fk_next fk' = (fk_next fk)(i := 0)" by (simp add: fk' fk_next_def fun_eq_iff)
  show live: "fk_live fk' = insert i (fk_live fk)"
    using pop(6) [of 0] by (simp add: fk_live_def nx i) (simp add: fk' i)
  show ni: "i \<notin> fk_live fk" using pop(4) by (simp add: fk_live_def i)
  show "fk_file_id fk' = fk_file_id fk" "j \<noteq> i \<Longrightarrow> fk_data fk' j = fk_data fk j"
    "m_content_id (fk_data fk' i) = content_id_zero"
    using inv(7) ni by (simp_all add: fk')
  have "fl_ok (fk_next fk') (fk_free_list_id fk') (fk_count fk')"
    using pop(5) [of 0] by (simp add: nx i) (simp add: fk' i)
  then show "fk_inv fk'"
    using assms(1) ni unfolding fk_inv_def live by (auto simp: fk')
qed

lemma fk_grow_correct:
  assumes "fk_inv fk" "grow_io_ok io" "fk_count fk = fk_get_max fk" "fk_grow io fk = (ok, fk')"
  shows "fk_inv fk'" "fk_live fk' = fk_live fk" "fk_data fk' = fk_data fk"
    "fk_file_id fk' = fk_file_id fk" "fk_count fk' = fk_count fk"
    "fk_free_list_id fk' = fk_free_list_id fk" "ok \<Longrightarrow> fk_count fk' < fk_get_max fk'"
proof -
  let ?e = "fk_expand_count fk"
  let ?n = "nat ?e * fk_sizeof"
  note inv = fk_invD [OF assms(1)] and len = fk_inv_len [OF assms(1)]
  have "fk_count fk + 400001 < 4294967296"
    using len(2) assms(3) by (simp add: fk_item_max_value)
  then have e: "?e \<le> int fk_item_max_per_file - 1 - int (fk_count fk)"
    by (auto simp: fk_expand_count_def width_simps)
  consider "fk' = fk" "\<not> ok" | "fk' = fk\<lparr>fk_len := fk_len fk + ?n, fk_ptr_len := Some (fk_len fk + ?n)\<rparr>"
      "0 < ?e" "ok = (fk_count fk < fk_get_max fk')"
    using assms(2,4) by (fastforce simp: fk_grow_def grow_io_ok_def Let_def fk_sizeof_def split: if_splits)
  then have "fk_inv fk' \<and> fk_live fk' = fk_live fk \<and> fk_data fk' = fk_data fk
      \<and> fk_file_id fk' = fk_file_id fk \<and> fk_count fk' = fk_count fk
      \<and> fk_free_list_id fk' = fk_free_list_id fk \<and> (ok \<longrightarrow> fk_count fk' < fk_get_max fk')"
  proof cases
    case 2
    let ?k = "fk_get_max fk + nat ?e"
    have l: "fk_len fk' = fk_sizeof * Suc ?k" using len(1) 2(1) by (simp add: algebra_simps)
    have k: "Suc ?k \<le> fk_item_max_per_file" using e 2(2) len(2) assms(3) by linarith
    have m: "fk_get_max fk' = ?k"
      using l k 2(1) by (intro fk_get_max_exact [where n = "fk_len fk'"]) simp_all
    have live: "fk_live fk' = fk_live fk" by (simp add: fk_live_def 2(1))
    have "fk_sizeof \<le> fk_len fk'" "fk_len fk' \<le> fk_sizeof * fk_item_max_per_file"
      unfolding l using k by (simp_all only: mult_le_mono2) simp
    then have "fk_inv fk'"
      using inv l m live 2(1) assms(1) unfolding fk_inv_def by simp
    then show ?thesis using 2 m live by simp
  qed (use assms in simp_all)
  then show "fk_inv fk'" "fk_live fk' = fk_live fk" "fk_data fk' = fk_data fk"
    "fk_file_id fk' = fk_file_id fk" "fk_count fk' = fk_count fk"
    "fk_free_list_id fk' = fk_free_list_id fk" "ok \<Longrightarrow> fk_count fk' < fk_get_max fk'"
    by simp_all
qed

lemma fk_bump_correct:
  assumes "fk_inv fk" "fk_free_list_id fk = 0" "fk_count fk < fk_get_max fk"
    "fk_bump fk = (r, fk')"
  shows "r = Some (Suc (fk_count fk))" "fk_inv fk'" "Suc (fk_count fk) \<notin> fk_live fk"
    "fk_live fk' = insert (Suc (fk_count fk)) (fk_live fk)"
    "fk_file_id fk' = fk_file_id fk" "fk_data fk' = fk_data fk"
proof -
  have c: "Suc (fk_count fk) < 4294967296"
    using fk_inv_len(2) [OF assms(1)] assms(3) by (simp add: fk_item_max_value)
  then have fk': "fk' = fk\<lparr>fk_count := Suc (fk_count fk)\<rparr>" and r: "r = Some (Suc (fk_count fk))"
    using assms(4) by (auto simp: fk_bump_def Let_def trunc_def)
  note bump = fl_bump [OF fk_invD(4) [OF assms(1), unfolded assms(2)]]
  show live: "fk_live fk' = insert (Suc (fk_count fk)) (fk_live fk)"
    and ni: "Suc (fk_count fk) \<notin> fk_live fk"
    using bump assms(2) by (simp_all add: fk_live_def fk')
  show "r = Some (Suc (fk_count fk))" "fk_file_id fk' = fk_file_id fk" "fk_data fk' = fk_data fk"
    using r by (simp_all add: fk')
  have "m_content_id (fk_data fk j) = content_id_zero" if "j \<notin> fk_live fk'" for j
    using that live fk_invD(7) [OF assms(1)] by blast
  then show "fk_inv fk'"
    using assms(1-3) bump(1) unfolding fk_inv_def by (simp add: fk')
qed

lemma fk_alloc_correct:
  assumes "fk_inv fk" "grow_io_ok io" "fk_alloc_item io fk = (r, fk')"
  shows "fk_inv fk' \<and> fk_file_id fk' = fk_file_id fk
    \<and> (case r of
         None \<Rightarrow> fk_live fk' = fk_live fk \<and> fk_data fk' = fk_data fk
       | Some i \<Rightarrow> i \<notin> fk_live fk \<and> fk_live fk' = insert i (fk_live fk)
           \<and> (\<forall>j. j \<noteq> i \<longrightarrow> fk_data fk' j = fk_data fk j)
           \<and> m_content_id (fk_data fk' i) = content_id_zero)"
proof (cases "fk_free_list_id fk = 0")
  case False
  then obtain i where r: "r = Some i" and p: "fk_pop_free fk = (i, fk')"
    using assms(3) fk_invD(1) [OF assms(1)] fl_head [OF fk_invD(4) [OF assms(1)]]
    by (auto simp: fk_alloc_item_def split: prod.splits)
  show ?thesis using fk_pop_free_correct [OF assms(1) False p] r by simp
next
  case True
  note inv = fk_invD [OF assms(1)]
  show ?thesis
  proof (cases "fk_count fk = fk_get_max fk")
    case False
    then have b: "fk_bump fk = (r, fk')" and c: "fk_count fk < fk_get_max fk"
      using assms(3) inv(1,3) True by (auto simp: fk_alloc_item_def)
    show ?thesis using fk_bump_correct [OF assms(1) True c b] inv(7) by simp
  next
    case c: True
    obtain ok fk1 where g: "fk_grow io fk = (ok, fk1)" by force
    note gr = fk_grow_correct [OF assms(1,2) c g]
    show ?thesis
    proof (cases ok)
      case ok: True
      then have b: "fk_bump fk1 = (r, fk')"
        using assms(3) inv(1) True c g by (auto simp: fk_alloc_item_def)
      have f1: "fk_free_list_id fk1 = 0" using gr(6) True by simp
      show ?thesis
        using fk_bump_correct [OF gr(1) f1 gr(7) [OF ok] b] gr fk_invD(7) [OF gr(1)] by simp
    next
      case False
      then show ?thesis using assms(3) inv(1) True c g gr by (auto simp: fk_alloc_item_def)
    qed
  qed
qed

text \<open>Overwriting fields of a live record keeps the file well-formed.\<close>

lemma fk_upd_live:
  assumes "fk_inv fk" "i \<in> fk_live fk" "length (m_md5_suffix d) = 13"
    "content_id_wf (m_content_id d)"
  shows "fk_inv (fk\<lparr>fk_data := (fk_data fk)(i := d)\<rparr>)"
    "fk_live (fk\<lparr>fk_data := (fk_data fk)(i := d)\<rparr>) = fk_live fk"
proof -
  note w = fl_write [OF fk_invD(4) [OF assms(1)] assms(2) [unfolded fk_live_def], of "fk_link d"]
  show live: "fk_live (fk\<lparr>fk_data := (fk_data fk)(i := d)\<rparr>) = fk_live fk"
    using w(2) by (simp add: fk_live_def)
  show "fk_inv (fk\<lparr>fk_data := (fk_data fk)(i := d)\<rparr>)"
    using assms w(1) unfolding fk_inv_def live by auto
qed

lemma fk_del_correct:
  assumes "fk_inv fk" "i \<in> fk_live fk" "fk_del (block_id_set (fk_file_id fk) i) fk = (ok, fk')"
  shows "ok" "fk_inv fk'" "fk_live fk' = fk_live fk - {i}" "fk_file_id fk' = fk_file_id fk"
    "j \<noteq> i \<Longrightarrow> fk_data fk' j = fk_data fk j" "fk_free_list_id fk' = i"
proof -
  let ?h = "fk_free_list_id fk"
  have h: "?h < 4294967296"
    using fl_head [OF fk_invD(4) [OF assms(1)]] fk_inv_count(2) [OF assms(1)] by simp
  have fk': "fk' = fk\<lparr>fk_data := (fk_data fk)(i := fk_set_link ?h fk_data_zero),
      fk_free_list_id := i\<rparr>" and "ok"
    using assms(3) by (auto simp: fk_del_def fk_parse_live [OF assms(1,2)])
  then show ok by simp
  have nx: "fk_next fk' = (fk_next fk)(i := ?h)"
    using h by (simp add: fk' fk_next_def fun_eq_iff)
  note push = fl_push [OF fk_invD(4) [OF assms(1)] assms(2) [unfolded fk_live_def]]
  show live: "fk_live fk' = fk_live fk - {i}"
    using push(2) unfolding fk_live_def nx by (simp add: fk')
  have "fl_ok (fk_next fk') (fk_free_list_id fk') (fk_count fk')"
    using push(1) unfolding nx by (simp add: fk')
  then show "fk_inv fk'" using assms(1) unfolding fk_inv_def live by (auto simp: fk')
  show "fk_file_id fk' = fk_file_id fk" "j \<noteq> i \<Longrightarrow> fk_data fk' j = fk_data fk j"
    "fk_free_list_id fk' = i"
    by (simp_all add: fk')
qed

lemma fk_free_index_correct:
  assumes "fk_inv fk" "i \<in> fk_live fk"
  shows "fk_inv (fk_free_index i fk)" "fk_live (fk_free_index i fk) = fk_live fk - {i}"
  using fk_del_correct [OF assms prod.collapse [symmetric]] by (simp_all add: fk_free_index_def)

interpretation fkey: record_allocator fk_alloc_item fk_free_index fk_inv fk_live
proof
  fix s io r s' i
  assume inv: "fk_inv s"
  show "grow_io_ok io \<Longrightarrow> fk_alloc_item io s = (r, s') \<Longrightarrow> fk_inv s'"
    using fk_alloc_correct [OF inv] by blast
  show "grow_io_ok io \<Longrightarrow> fk_alloc_item io s = (Some i, s') \<Longrightarrow>
      i \<notin> fk_live s \<and> fk_live s' = insert i (fk_live s)"
    using fk_alloc_correct [OF inv] by fastforce
  show "grow_io_ok io \<Longrightarrow> fk_alloc_item io s = (None, s') \<Longrightarrow> fk_live s' = fk_live s"
    using fk_alloc_correct [OF inv] by fastforce
  show "i \<in> fk_live s \<Longrightarrow> fk_inv (fk_free_index i s)"
    "i \<in> fk_live s \<Longrightarrow> fk_live (fk_free_index i s) = fk_live s - {i}"
    using fk_free_index_correct [OF inv] by blast+
qed

lemma fk_write_offset:
  assumes "fk_inv fk" "i \<in> fk_live fk"
  shows "trunc 32 (i * fk_sizeof) = i * fk_sizeof" "fk_sizeof \<le> i * fk_sizeof"
    "trunc 32 (i * fk_sizeof + fk_sizeof) \<le> FILEKEY_BYTES_PER_FILE"
  using fk_live_bounds [OF assms] by (simp_all add: fk_item_max_value trunc_def width_simps)

lemma fk_write_eq:
  assumes "fk_inv fk" "grow_io_ok io" "length k = 16" "fk_alloc_item io fk = (Some i, fk1)"
  shows "fk_write io k fk = (Some (block_id_set (fk_file_id fk) i),
    fk1\<lparr>fk_data := (fk_data fk1)(i := (fk_data fk1 i)\<lparr>m_md5_suffix := take 13 (drop 3 k)\<rparr>)\<rparr>)"
proof -
  have a: "fk_inv fk1" "i \<in> fk_live fk1" "fk_file_id fk1 = fk_file_id fk" "fk_file_id fk < 256"
    using fk_alloc_correct [OF assms(1,2,4)] fk_invD(2) [OF assms(1)] by simp_all
  have "0 < i" "0 < fk_sizeof" using fk_live_bounds(1) [OF a(1,2)] by (simp_all add: fk_sizeof_def)
  then show ?thesis
    using fk_write_offset [OF a(1,2)] assms(3,4) a(3,4)
    by (simp add: fk_write_def Let_def fk_generate_block_id_def)
qed

lemma fk_write_correct:
  assumes "fk_inv fk" "grow_io_ok io" "length k = 16" "fk_write io k fk = (r, fk')"
  shows "fk_inv fk' \<and> fk_file_id fk' = fk_file_id fk
    \<and> (case r of
         None \<Rightarrow> fk_live fk' = fk_live fk \<and> fk_data fk' = fk_data fk
       | Some b \<Rightarrow> \<exists>i. b = block_id_set (fk_file_id fk) i \<and> i \<notin> fk_live fk
           \<and> fk_live fk' = insert i (fk_live fk)
           \<and> (\<forall>j. j \<noteq> i \<longrightarrow> fk_data fk' j = fk_data fk j)
           \<and> fk_data fk' i = \<lparr>m_md5_suffix = drop 3 k, m_content_id = content_id_zero\<rparr>)"
proof -
  obtain q fk1 where al: "fk_alloc_item io fk = (q, fk1)" by force
  note ac = fk_alloc_correct [OF assms(1,2) al]
  show ?thesis
  proof (cases q)
    case None
    then show ?thesis using assms(3,4) al ac by (auto simp: fk_write_def)
  next
    case (Some i)
    let ?d = "(fk_data fk1 i)\<lparr>m_md5_suffix := take 13 (drop 3 k)\<rparr>"
    have r: "r = Some (block_id_set (fk_file_id fk) i)"
      and fk': "fk' = fk1\<lparr>fk_data := (fk_data fk1)(i := ?d)\<rparr>"
      using fk_write_eq [OF assms(1-3) al [unfolded Some]] assms(4) by simp_all
    have inv: "fk_inv fk1" and "i \<in> fk_live fk1" using ac Some by auto
    note u = fk_upd_live [OF this, of ?d]
    have "fk_inv fk'" "fk_live fk' = fk_live fk1"
      using u fk_invD(6) [OF inv] assms(3) by (simp_all add: fk')
    moreover have "?d = \<lparr>m_md5_suffix = drop 3 k, m_content_id = content_id_zero\<rparr>"
      using ac Some assms(3) by (cases "fk_data fk1 i") simp
    ultimately show ?thesis
      using ac Some r by (simp add: fk' exI [where x = i])
  qed
qed

lemma fullkey_new_file_inv:
  assumes "fullkey_open path f None True id True True = (Some fk, file')" 
  shows "fk_inv fk" "fk_live fk = {}" "fk_file_id fk = nat f"
proof -
  have "fl_ok n 0 0" "fl_live n 0 0 = {}" for n by (simp_all add: fl_ok_def fl_live_def)
  moreover have fk: "fk = fk_new_file\<lparr>fk_file_id := nat f, fk_ptr_len := Some (fk_len fk_new_file)\<rparr>"
    and "nat f < 256"
    using assms by (auto simp: fullkey_open_def fullkey_create_file_def Let_def fk_new_file_def
        width_simps split: if_splits)
  ultimately show "fk_inv fk" "fk_live fk = {}" "fk_file_id fk = nat f"
    by (simp_all add: fk_inv_def fk_live_def fk_new_file_def width_simps fk_get_max_def trunc_def)
qed

lemma fk_live_subset: "fk_inv fk \<Longrightarrow> fk_live fk \<subseteq> {1..fk_item_max_per_file - 1}"
  using fk_live_bounds by fastforce

lemma fk_grow_succeeds:
  assumes "fk_inv fk" "fk_count fk = fk_get_max fk" "fk_count fk < fk_item_max_per_file - 1"
    "\<And>n. gi_fwritten io n = n" "gi_fmap_open io"
  shows "fst (fk_grow io fk)"
proof -
  let ?e = "fk_expand_count fk"
  let ?fk' = "fk\<lparr>fk_len := fk_len fk + nat ?e * fk_sizeof,
      fk_ptr_len := Some (fk_len fk + nat ?e * fk_sizeof)\<rparr>"
  have e: "0 < ?e" "?e \<le> int fk_item_max_per_file - 1 - int (fk_count fk)"
    using assms(3) by (auto simp: fk_expand_count_def width_simps)
  have "fk_get_max ?fk' = fk_get_max fk + nat ?e"
    using e assms(2,3) fk_inv_len [OF assms(1)]
    by (intro fk_get_max_exact [where n = "fk_len fk + nat ?e * fk_sizeof"]) (simp_all add: algebra_simps)
  then show ?thesis using assms(2,4,5) e(1) by (simp add: fk_grow_def Let_def)
qed

section \<open>Properties\<close>

text \<open>C9. A key written to a key file gets a record of its own. The block identifier that
  \<open>write\<close> returns belongs to no record in use, \<open>compare\<close> accepts it for exactly the digests
  with the suffix just written, its content identifier is still unset, and every other
  record in use keeps its contents. A failed write changes no record.\<close>

theorem fullkey_write_fresh:
  assumes "fk_inv fk" and "grow_io_ok io" and "length k = 16"
    and "fk_write io k fk = (r, fk')"
  shows "fk_inv fk'
    \<and> (case r of
         None \<Rightarrow> fk_data fk' = fk_data fk \<and> fk_live fk' = fk_live fk
       | Some b \<Rightarrow>
           (\<forall>i\<in>fk_live fk. block_id_set (fk_file_id fk) i \<noteq> b
              \<and> fk_get fk' (block_id_set (fk_file_id fk) i)
                  = fk_get fk (block_id_set (fk_file_id fk) i)
              \<and> fk_get_content_id fk' (block_id_set (fk_file_id fk) i)
                  = fk_get_content_id fk (block_id_set (fk_file_id fk) i))
           \<and> (\<forall>k'. length k' = 16 \<longrightarrow> fk_compare fk' b k' = (drop 3 k' = drop 3 k))
           \<and> fk_get_content_id fk' b = Some content_id_zero)"
proof -
  note wc = fk_write_correct [OF assms]
  show ?thesis
  proof (cases r)
    case (Some b)
    then obtain i where i: "b = block_id_set (fk_file_id fk) i" "i \<notin> fk_live fk"
        "fk_live fk' = insert i (fk_live fk)" "\<forall>j. j \<noteq> i \<longrightarrow> fk_data fk' j = fk_data fk j"
        "fk_data fk' i = \<lparr>m_md5_suffix = drop 3 k, m_content_id = content_id_zero\<rparr>"
      using wc by auto
    have inv: "fk_inv fk'" and id: "fk_file_id fk' = fk_file_id fk" using wc by auto
    have p: "fk_parse_block_id fk' (block_id_set (fk_file_id fk) j) = Some j" if "j \<in> fk_live fk'" for j
      using fk_parse_live [OF inv that] id by simp
    have q: "fk_parse_block_id fk (block_id_set (fk_file_id fk) j) = Some j" if "j \<in> fk_live fk" for j
      using fk_parse_live [OF assms(1) that] .
    have ne: "block_id_set (fk_file_id fk) j \<noteq> b" if "j \<in> fk_live fk" for j
      using p [of j] p [of i] i(1-3) that by (metis insertCI option.inject)
    have "fk_get fk' (block_id_set (fk_file_id fk) j) = fk_get fk (block_id_set (fk_file_id fk) j)"
      "fk_get_content_id fk' (block_id_set (fk_file_id fk) j)
         = fk_get_content_id fk (block_id_set (fk_file_id fk) j)" if j: "j \<in> fk_live fk" for j
    proof -
      have "j \<in> fk_live fk'" "fk_data fk' j = fk_data fk j" using i(2-4) j by auto
      then show "fk_get fk' (block_id_set (fk_file_id fk) j) = fk_get fk (block_id_set (fk_file_id fk) j)"
        "fk_get_content_id fk' (block_id_set (fk_file_id fk) j)
           = fk_get_content_id fk (block_id_set (fk_file_id fk) j)"
        using p q [OF j] by (simp_all add: fk_get_def fk_get_content_id_def)
    qed
    moreover have "fk_parse_block_id fk' b = Some i" using p [of i] i(1,3) by simp
    then have "fk_compare fk' b k' = (drop 3 k' = drop 3 k)" if "length k' = 16" for k'
      using i(5) that by (auto simp: fk_compare_def)
    moreover have "fk_get_content_id fk' b = Some content_id_zero"
      using \<open>fk_parse_block_id fk' b = Some i\<close> i(5) by (simp add: fk_get_content_id_def)
    ultimately show ?thesis using Some inv ne by simp
  qed (use wc in auto)
qed

theorem fullkey_write_fresh_witness:
  "\<exists>fk r fk'. fst (fullkey_open [47] 7 None True id True True) = Some fk \<and> fk_inv fk
     \<and> fk_write \<lparr>gi_fwritten = id, gi_fmap_open = True\<rparr> (map byte_of [0..<16]) fk = (r, fk') \<and> fk_inv fk'
     \<and> r \<noteq> None"
proof -
  let ?io = "\<lparr>gi_fwritten = id, gi_fmap_open = True\<rparr>" and ?k = "map byte_of [0..<16]"
  obtain fk f where op: "fullkey_open [47] 7 None True id True True = (Some fk, f)"
    by (simp add: fullkey_open_def fullkey_create_file_def Let_def fk_new_file_def width_simps)
  note inv = fullkey_new_file_inv [OF op]
  have io: "grow_io_ok ?io" by (simp add: grow_io_ok_def)
  have fk: "fk = fk_new_file\<lparr>fk_file_id := 7, fk_ptr_len := Some (fk_len fk_new_file)\<rparr>"
    using op by (simp add: fullkey_open_def fullkey_create_file_def Let_def fk_new_file_def width_simps)
  have "fk_alloc_item ?io fk = (Some 1, fk\<lparr>fk_count := 1\<rparr>)"
    by (simp add: fk_alloc_item_def fk fk_new_file_def fk_bump_def fk_get_max_def trunc_def width_simps)
  from fk_write_eq [OF inv(1) io _ this, of ?k]
  obtain b fk' where w: "fk_write ?io ?k fk = (Some b, fk')" by simp
  have "fk_inv fk'" using fullkey_write_fresh [OF inv(1) io _ w] by simp
  then show ?thesis using op inv(1) w by auto
qed

text \<open>C10. No record is handed out twice. After any sequence of allocations and frees, with
  the file growing or failing to grow at any of them, the next record that \<open>alloc_item\<close>
  hands out is not one a client still holds.\<close>

theorem fullkey_no_double_allocation:
  assumes "fk_inv fk" and "\<And>io. Alloc io \<in> set ops \<Longrightarrow> grow_io_ok io"
    and "alloc_run fk_alloc_item fk_free_index ops fk (fk_live fk) = (rs, fk', held)"
    and "grow_io_ok io" and "fk_alloc_item io fk' = (Some i, fk'')"
  shows "i \<notin> held"
  using assms by (rule fkey.no_double_allocation)

theorem fullkey_no_double_allocation_witness:
  "let io = \<lparr>gi_fwritten = id, gi_fmap_open = True\<rparr>;
       fk = fk_new_file\<lparr>fk_file_id := 7, fk_ptr_len := Some (fk_len fk_new_file)\<rparr>;
       (rs, fk', held) = alloc_run fk_alloc_item fk_free_index [Alloc io, Alloc io, Free 1, Alloc io] fk {};
       (r, fk'') = fk_alloc_item io fk'
   in rs = [Some 1, Some 2, Some 1] \<and> held = {1, 2} \<and> r = Some 3 \<and> the r \<notin> held"
proof -
  let ?io = "\<lparr>gi_fwritten = id, gi_fmap_open = True\<rparr>"
  let ?fk = "fk_new_file\<lparr>fk_file_id := 7, fk_ptr_len := Some (fk_len fk_new_file)\<rparr>"
  let ?ops = "[Alloc ?io, Alloc ?io, Free 1, Alloc ?io]"
  have op: "fullkey_open [47] 7 None True id True True = (Some ?fk, Some fk_new_file)"
    by (simp add: fullkey_open_def fullkey_create_file_def Let_def fk_new_file_def width_simps)
  note inv = fullkey_new_file_inv [OF op]
  have io: "grow_io_ok ?io" by (simp add: grow_io_ok_def)
  let ?a = "?fk\<lparr>fk_count := 2, fk_data := (fk_data ?fk)(1 := fk_set_link 0 (fk_set_link 0 fk_data_zero))\<rparr>"
  note ev = fk_alloc_item_def fk_new_file_def fk_bump_def fk_get_max_def trunc_def width_simps
    fk_free_index_def fk_del_def fk_parse_block_id_def block_id_set_def fk_pop_free_def
    fk_next_def Let_def
  have run: "alloc_run fk_alloc_item fk_free_index ?ops ?fk {} = ([Some 1, Some 2, Some 1], ?a, {1, 2})"
    by (simp add: ev insert_commute) (simp add: numeral_2_eq_2)
  have run': "alloc_run fk_alloc_item fk_free_index ?ops ?fk (fk_live ?fk)
      = ([Some 1, Some 2, Some 1], ?a, {1, 2})"
    unfolding inv(2) by (rule run)
  have al: "fk_alloc_item ?io ?a = (Some 3, ?a\<lparr>fk_count := 3\<rparr>)" by (simp add: ev)
  have "3 \<notin> {1, 2 :: nat}"
    by (rule fullkey_no_double_allocation [OF inv(1) _ run' io al]) (use io in auto)
  then show ?thesis unfolding Let_def run prod.case al by simp
qed

text \<open>C31. Allocation fails only when the file is full: if appends and mappings succeed, then
  \<open>alloc_item\<close> returns a null pointer exactly when all 204522251 records a key file can
  hold are in use.\<close>

theorem fullkey_alloc_fails_iff_full:
  assumes "fk_inv fk" and "\<And>n. gi_fwritten io n = n" and "gi_fmap_open io"
  shows "fst (fk_alloc_item io fk) = None \<longleftrightarrow> fk_live fk = {1..204522251}"
proof (cases "fk_free_list_id fk = 0")
  case False
  note pop = fl_pop [OF fk_invD(4) [OF assms(1)] False]
  have "fk_free_list_id fk \<notin> fk_live fk" using pop(4) by (simp add: fk_live_def)
  moreover have "fk_free_list_id fk \<in> {1..204522251}"
    using pop(1,2) fk_inv_count(1) [OF assms(1)] by (simp add: fk_item_max_value)
  moreover have "fst (fk_alloc_item io fk) \<noteq> None"
    using fk_invD(1) [OF assms(1)] False pop(2)
    by (simp add: fk_alloc_item_def split: prod.splits)
  ultimately show ?thesis by metis
next
  case True
  have live: "fk_live fk = {1..fk_count fk}"
    using True fl_okI(2) [of "fk_next fk" 0 "[]"] by (simp add: fk_live_def)
  note c = fk_invD(1,3) [OF assms(1)] fk_inv_len(2) [OF assms(1)]
  show ?thesis
  proof (cases "fk_count fk = 204522251")
    case full: True
    then have "fk_count fk = fk_get_max fk" "fk_expand_count fk \<le> 0"
      using c by (simp_all add: fk_item_max_value fk_expand_count_def width_simps)
    then show ?thesis using full live c True by (simp add: fk_alloc_item_def fk_grow_def)
  next
    case False
    then have "fk_count fk < fk_item_max_per_file - 1" using c by (simp add: fk_item_max_value)
    then have "fk_count fk = fk_get_max fk \<Longrightarrow> fst (fk_grow io fk)"
      using fk_grow_succeeds [OF assms(1) _ _ assms(2,3)] by simp
    then have "fst (fk_alloc_item io fk) \<noteq> None"
      using c True by (auto simp: fk_alloc_item_def fk_bump_def Let_def split: prod.splits)
    moreover have "{1..fk_count fk} \<noteq> {1..204522251}"
      using False by (simp add: Icc_eq_Icc)
    ultimately show ?thesis using live by simp
  qed
qed

theorem fullkey_alloc_fails_iff_full_witness:
  "let fk = fk_new_file\<lparr>fk_file_id := 0, fk_ptr_len := Some (fk_len fk_new_file)\<rparr>;
       io = \<lparr>gi_fwritten = id, gi_fmap_open = True\<rparr> in
   fst (fk_alloc_item io fk) = None \<longleftrightarrow> fk_live fk = {1..204522251}"
proof -
  have op: "fullkey_open [47] 0 None True id True True
      = (Some (fk_new_file\<lparr>fk_file_id := 0, fk_ptr_len := Some (fk_len fk_new_file)\<rparr>), Some fk_new_file)"
    by (simp add: fullkey_open_def fullkey_create_file_def Let_def fk_new_file_def width_simps)
  show ?thesis unfolding Let_def
    by (rule fullkey_alloc_fails_iff_full [OF fullkey_new_file_inv(1) [OF op]]) simp_all
qed

end
