(* ===== verification/Fast_Conflict_Array.thy ===== *)
theory Fast_Conflict_Array
  imports Fast_Conflict Fullkey Key_Index
begin

text \<open>
  The array of 256 conflict files (\<open>fast_conflict_array.cpp\<close>): for a key whose bucket slot
  is of type conflict it finds the record of the slot and, among its items, the one whose
  block identifier names the digest of the key in the key file. A return code of 0 means
  found, a positive one a definitive failure, a negative one that the key may still be in
  the leveldb conflict store.
\<close>

section \<open>Opening\<close>

primrec fast_conflict_array_open_loop ::
  "(nat \<Rightarrow> fast_conflict_t option) \<Rightarrow> nat list \<Rightarrow> (nat \<Rightarrow> fast_conflict_t)
   \<Rightarrow> (nat \<Rightarrow> fast_conflict_t) option" where
  "fast_conflict_array_open_loop opened [] m_fast_conflicts = Some m_fast_conflicts"
| "fast_conflict_array_open_loop opened (i # is) m_fast_conflicts =
     (case opened i of
        None \<Rightarrow> None
      | Some fc \<Rightarrow> fast_conflict_array_open_loop opened is (m_fast_conflicts(i := fc)))"

text \<open>\<open>opened\<close> is what \<open>fast_conflict_open\<close> answers for a file and a conflict count.\<close>

definition fast_conflict_array_open ::
  "bytes \<Rightarrow> int \<Rightarrow> (nat \<Rightarrow> int \<Rightarrow> fast_conflict_t option) \<Rightarrow> (nat \<Rightarrow> fast_conflict_t) option" where
  "fast_conflict_array_open path conflict_count opened =
     (if path = [] then None
      else let cc = (if conflict_count < 3 then 3 else conflict_count) in
           if cc > 10 then None
           else fast_conflict_array_open_loop (\<lambda>i. opened i cc) [0..<FAST_CONFLICT_FILE_COUNT]
                  (\<lambda>_. fc_new_file 0))"

definition fast_conflict_array_open_conf ::
  "bytes \<Rightarrow> int option \<Rightarrow> (nat \<Rightarrow> int \<Rightarrow> fast_conflict_t option) \<Rightarrow> (nat \<Rightarrow> fast_conflict_t) option" where
  "fast_conflict_array_open_conf path ini opened =
     (case ini of
        None \<Rightarrow> None
      | Some conflict_count \<Rightarrow>
          if conflict_count \<le> 0 \<or> conflict_count > 10 then None
          else fast_conflict_array_open path conflict_count opened)"

section \<open>Operations\<close>

definition get_fast_conflict :: "(nat \<Rightarrow> fast_conflict_t) \<Rightarrow> bytes \<Rightarrow> fast_conflict_t" where
  "get_fast_conflict m_fast_conflicts inner_key = m_fast_conflicts (unat (inner_key ! 0))"

definition fca_item :: "block_id_t \<Rightarrow> nat \<Rightarrow> bucket_data_item_t \<Rightarrow> bucket_data_item_t" where
  "fca_item block_id ver it =
     (set_version ver (set_type BUCKET_CONFLICT_DATA it))\<lparr>m_block_id := block_id\<rparr>"

definition fca_write ::
  "grow_io \<Rightarrow> bytes \<Rightarrow> block_id_t \<Rightarrow> nat \<Rightarrow> block_id_t \<Rightarrow> nat \<Rightarrow> (nat \<Rightarrow> fast_conflict_t)
   \<Rightarrow> block_id_t option \<times> (nat \<Rightarrow> fast_conflict_t)" where
  "fca_write io first_inner_key first_block_id first_version second_block_id second_version fcs =
     (if first_version > BUCKET_DATA_MAX_VERSION \<or> second_version > BUCKET_DATA_MAX_VERSION
      then (None, fcs)
      else let (addr, c) = fc_write io (fca_item first_block_id first_version item_zero)
                             (fca_item second_block_id second_version item_zero)
                             (get_fast_conflict fcs first_inner_key)
           in (addr, fcs(unat (first_inner_key ! 0) := c)))"

text \<open>
  The head that \<open>get\<close>, \<open>add\<close>, \<open>update\<close> and \<open>del\<close> share: the slot of the key, and the
  record its block identifier addresses.
\<close>

definition fca_open_record ::
  "(nat \<Rightarrow> bucket_t) \<Rightarrow> (nat \<Rightarrow> fast_conflict_t) \<Rightarrow> bytes
   \<Rightarrow> errno + (bucket_data_item_t \<times> bucket_data_item_t list)" where
  "fca_open_record bks fcs inner_key =
     (let b = get_bucket bks inner_key in
      case bucket_find b inner_key of
        (r, slot) \<Rightarrow>
          if r \<noteq> 0 then Inl (- \<bar>r\<bar>)
          else case slot of
                 None \<Rightarrow> Inl (- EFAULT)
               | Some n \<Rightarrow>
                   if m_type (bk_item b n) \<noteq> BUCKET_CONFLICT_DATA then Inl (- EFAULT)
                   else case fc_get (get_fast_conflict fcs inner_key) (m_block_id (bk_item b n)) of
                          None \<Rightarrow> Inl (- EFAULT)
                        | Some its \<Rightarrow> Inr (bk_item b n, its))"

text \<open>The scan for the item that names the key, with the count of other items in use.\<close>

fun fca_scan ::
  "(block_id_t \<Rightarrow> bool) \<Rightarrow> bucket_data_item_t list \<Rightarrow> nat \<Rightarrow> nat \<Rightarrow> nat option \<times> nat" where
  "fca_scan matches [] i valid = (None, valid)"
| "fca_scan matches (it # its) i valid =
     (if m_data_id (m_block_id it) = 0 then fca_scan matches its (i + 1) valid
      else if \<not> matches (m_block_id it) then fca_scan matches its (i + 1) (valid + 1)
      else (Some i, valid))"

definition fca_absent :: "nat \<Rightarrow> nat \<Rightarrow> errno" where
  "fca_absent conflict_count valid =
     (if conflict_count = valid then ENOENT
      else if conflict_count > valid then - ENOENT else - EFAULT)"

definition fca_get ::
  "(nat \<Rightarrow> bucket_t) option \<Rightarrow> (nat \<Rightarrow> fullkey_t) \<Rightarrow> (nat \<Rightarrow> fast_conflict_t) \<Rightarrow> bytes
   \<Rightarrow> errno \<times> block_id_t \<times> nat" where
  "fca_get m_bucket_array fks fcs inner_key =
     (case m_bucket_array of
        None \<Rightarrow> (- EFAULT, block_id_zero, 0)
      | Some bks \<Rightarrow>
          (case fca_open_record bks fcs inner_key of
             Inl r \<Rightarrow> (r, block_id_zero, 0)
           | Inr (slot, its) \<Rightarrow>
               (case fca_scan (\<lambda>b. fk_compare (get_fullkey fks inner_key) b inner_key) its 0 0 of
                  (Some i, _) \<Rightarrow> (0, m_block_id (its ! i), version (its ! i))
                | (None, valid) \<Rightarrow>
                    (fca_absent (get_conflict_count slot) valid, block_id_zero, 0))))"

fun fca_first_unused :: "bucket_data_item_t list \<Rightarrow> nat \<Rightarrow> nat option" where
  "fca_first_unused [] i = None"
| "fca_first_unused (it # its) i =
     (if m_data_id (m_block_id it) = 0 then Some i else fca_first_unused its (i + 1))"

definition fca_put_item ::
  "(nat \<Rightarrow> bucket_t) \<Rightarrow> bytes \<Rightarrow> nat \<Rightarrow> bucket_data_item_t \<Rightarrow> (nat \<Rightarrow> fast_conflict_t)
   \<Rightarrow> (nat \<Rightarrow> fast_conflict_t)" where
  "fca_put_item bks inner_key i it fcs =
     (let slot = bk_item (get_bucket bks inner_key) (key_to_item inner_key) in
      fcs(unat (inner_key ! 0) :=
            fc_put_item (m_data_id (m_block_id slot)) i it (get_fast_conflict fcs inner_key)))"

definition fca_add ::
  "(nat \<Rightarrow> bucket_t) option \<Rightarrow> (nat \<Rightarrow> fullkey_t) \<Rightarrow> bytes \<Rightarrow> block_id_t \<Rightarrow> nat
   \<Rightarrow> (nat \<Rightarrow> fast_conflict_t) \<Rightarrow> errno \<times> (nat \<Rightarrow> fast_conflict_t)" where
  "fca_add m_bucket_array fks inner_key block_id ver fcs =
     (if ver > BUCKET_DATA_MAX_VERSION then (EINVAL, fcs)
      else case m_bucket_array of
             None \<Rightarrow> (- EFAULT, fcs)
           | Some bks \<Rightarrow>
               (let r = \<bar>fst (fca_get m_bucket_array fks fcs inner_key)\<bar> in
                if r = 0 then (EEXIST, fcs)
                else if r \<noteq> ENOENT then (- EFAULT, fcs)
                else case fca_open_record bks fcs inner_key of
                       Inl e \<Rightarrow> (e, fcs)
                     | Inr (slot, its) \<Rightarrow>
                         (case fca_first_unused its 0 of
                            Some i \<Rightarrow> (0, fca_put_item bks inner_key i (fca_item block_id ver (its ! i)) fcs)
                          | None \<Rightarrow> (- 1, fcs))))"

definition fca_update ::
  "(nat \<Rightarrow> bucket_t) option \<Rightarrow> (nat \<Rightarrow> fullkey_t) \<Rightarrow> bytes \<Rightarrow> block_id_t \<Rightarrow> nat
   \<Rightarrow> (nat \<Rightarrow> fast_conflict_t) \<Rightarrow> errno \<times> (nat \<Rightarrow> fast_conflict_t)" where
  "fca_update m_bucket_array fks inner_key block_id ver fcs =
     (if ver > BUCKET_DATA_MAX_VERSION then (EINVAL, fcs)
      else case m_bucket_array of
             None \<Rightarrow> (- EFAULT, fcs)
           | Some bks \<Rightarrow>
               (case fca_open_record bks fcs inner_key of
                  Inl e \<Rightarrow> (e, fcs)
                | Inr (slot, its) \<Rightarrow>
                    (case fca_scan (\<lambda>b. fk_compare (get_fullkey fks inner_key) b inner_key) its 0 0 of
                       (Some i, _) \<Rightarrow>
                         if m_block_id (its ! i) \<noteq> block_id then (EINVAL, fcs)
                         else if version (its ! i) \<noteq> ver
                         then (0, fca_put_item bks inner_key i (set_version ver (its ! i)) fcs)
                         else (0, fcs)
                     | (None, valid) \<Rightarrow> (fca_absent (get_conflict_count slot) valid, fcs))))"

definition fca_del ::
  "(nat \<Rightarrow> bucket_t) option \<Rightarrow> (nat \<Rightarrow> fullkey_t) \<Rightarrow> bytes \<Rightarrow> (nat \<Rightarrow> fast_conflict_t)
   \<Rightarrow> errno \<times> (nat \<Rightarrow> fast_conflict_t)" where
  "fca_del m_bucket_array fks inner_key fcs =
     (case m_bucket_array of
        None \<Rightarrow> (- EFAULT, fcs)
      | Some bks \<Rightarrow>
          (case fca_open_record bks fcs inner_key of
             Inl e \<Rightarrow> (e, fcs)
           | Inr (slot, its) \<Rightarrow>
               (case fca_scan (\<lambda>b. fk_compare (get_fullkey fks inner_key) b inner_key) its 0 0 of
                  (Some i, _) \<Rightarrow> (0, fca_put_item bks inner_key i item_zero fcs)
                | (None, valid) \<Rightarrow> (fca_absent (get_conflict_count slot) valid, fcs))))"

section \<open>Well-formed conflict records\<close>

text \<open>
  The slot of a key and the record it addresses; what a record says about a digest
  suffix; the keys of slots of type conflict and the block identifiers that name a key.
\<close>

definition fca_slot :: "(nat \<Rightarrow> bucket_t) \<Rightarrow> bytes \<Rightarrow> bucket_data_item_t" where
  "fca_slot bks k = bk_item (get_bucket bks k) (key_to_item k)"

definition fca_rec :: "(nat \<Rightarrow> bucket_t) \<Rightarrow> (nat \<Rightarrow> fast_conflict_t) \<Rightarrow> bytes \<Rightarrow> bucket_data_item_t list" where
  "fca_rec bks fcs k = fc_record (get_fast_conflict fcs k) (m_data_id (m_block_id (fca_slot bks k)))"

definition rec_names :: "fullkey_t \<Rightarrow> bytes \<Rightarrow> bucket_data_item_t \<Rightarrow> bool" where
  "rec_names fk sfx it \<longleftrightarrow> m_data_id (m_block_id it) \<noteq> 0 \<and> fk_get fk (m_block_id it) = Some sfx"

definition rec_look :: "fullkey_t \<Rightarrow> bytes \<Rightarrow> bucket_data_item_t list \<Rightarrow> (block_id_t \<times> nat) option" where
  "rec_look fk sfx its = map_option (\<lambda>it. (m_block_id it, version it)) (find (rec_names fk sfx) its)"

definition rec_ok :: "fullkey_t \<Rightarrow> bucket_data_item_t list \<Rightarrow> bool" where
  "rec_ok fk its \<longleftrightarrow>
     (\<forall>i<length its. \<forall>j<length its. \<forall>sfx.
        rec_names fk sfx (its ! i) \<longrightarrow> rec_names fk sfx (its ! j) \<longrightarrow> i = j)"

definition fca_member :: "(nat \<Rightarrow> bucket_t) \<Rightarrow> bytes \<Rightarrow> bool" where
  "fca_member bks k \<longleftrightarrow> length k = 16 \<and> m_type (fca_slot bks k) = BUCKET_CONFLICT_DATA"

definition fca_names :: "(nat \<Rightarrow> fullkey_t) \<Rightarrow> bytes \<Rightarrow> block_id_t \<Rightarrow> bool" where
  "fca_names fks k b \<longleftrightarrow> block_id_wf b \<and> fk_get (get_fullkey fks k) b = Some (drop 3 k)"

definition fca_inv ::
  "(nat \<Rightarrow> bucket_t) \<Rightarrow> (nat \<Rightarrow> fullkey_t) \<Rightarrow> (nat \<Rightarrow> fast_conflict_t) \<Rightarrow> bool" where
  "fca_inv bks fks fcs \<longleftrightarrow>
     (\<forall>f<256. fc_inv (fcs f) \<and> fc_file_id (fcs f) = f)
     \<and> (\<forall>f<256. \<forall>n<bucket_item_count. m_type (bk_item (bks f) n) = BUCKET_CONFLICT_DATA \<longrightarrow>
          (\<exists>i\<in>fc_live (fcs f). m_block_id (bk_item (bks f) n) = block_id_set f i
             \<and> rec_ok (fks f) (fc_record (fcs f) i)))
     \<and> (\<forall>f<256. inj_on (\<lambda>n. m_data_id (m_block_id (bk_item (bks f) n)))
          {n. n < bucket_item_count \<and> m_type (bk_item (bks f) n) = BUCKET_CONFLICT_DATA})"

definition fca_look ::
  "(nat \<Rightarrow> bucket_t) \<Rightarrow> (nat \<Rightarrow> fullkey_t) \<Rightarrow> (nat \<Rightarrow> fast_conflict_t) \<Rightarrow> bytes
   \<Rightarrow> (block_id_t \<times> nat) option" where
  "fca_look bks fks fcs k =
     (case fca_get (Some bks) fks fcs k of (r, b, v) \<Rightarrow> if r = 0 then Some (b, v) else None)"

definition fca_matches :: "(nat \<Rightarrow> fullkey_t) \<Rightarrow> bytes \<Rightarrow> block_id_t \<Rightarrow> bool" where
  "fca_matches fks k b = fk_compare (get_fullkey fks k) b k"

definition same_slot :: "bytes \<Rightarrow> bytes \<Rightarrow> bool" where
  "same_slot k' k \<longleftrightarrow> k' ! 0 = k ! 0 \<and> key_to_item k' = key_to_item k"

text \<open>
  A small state: the keys 1, 2 and 3 share slot 0 of bucket 0 and have the key records 1,
  2 and 3; the conflict record of the slot holds the first two.
\<close>

definition ex_key :: "nat \<Rightarrow> bytes" where
  "ex_key i = replicate 15 0 @ [byte_of i]"

definition ex_fks :: "nat \<Rightarrow> fullkey_t" where
  "ex_fks f = fk_new_file\<lparr>fk_file_id := f, fk_ptr_len := Some (fk_len fk_new_file), fk_count := 3,
     fk_data := (\<lambda>i. \<lparr>m_md5_suffix = drop 3 (ex_key i), m_content_id = content_id_zero\<rparr>)\<rparr>"

definition ex_bks :: "nat \<Rightarrow> bucket_t" where
  "ex_bks f = (if f = 0
     then bucket_write 0 (set_conflict_count 2 (set_type BUCKET_CONFLICT_DATA
            (item_zero\<lparr>m_block_id := block_id_set 0 1\<rparr>))) (zero_file bucket_bytes)
     else zero_file bucket_bytes)"

definition ex_new_fcs :: "nat \<Rightarrow> fast_conflict_t" where
  "ex_new_fcs f = (fc_new_file 3)\<lparr>fc_file_id := f, fc_ptr_len := Some (fc_len (fc_new_file 3))\<rparr>"

definition ex_io :: grow_io where
  "ex_io = \<lparr>gi_fwritten = id, gi_fmap_open = True\<rparr>"

definition ex_fcs :: "nat \<Rightarrow> fast_conflict_t" where
  "ex_fcs = snd (fca_write ex_io (ex_key 1) (block_id_set 0 1) 5 (block_id_set 0 2) 6 ex_new_fcs)"

section \<open>Lemmas\<close>

lemma fk_compare_get:
  "length k = 16 \<Longrightarrow> fk_compare fk b k \<longleftrightarrow> fk_get fk b = Some (drop 3 k)"
  by (auto simp: fk_compare_def fk_get_def split: option.splits)

lemma fk_get_data_id: "fk_get fk b = Some s \<Longrightarrow> m_data_id b \<noteq> 0"
  by (auto simp: fk_get_def fk_parse_block_id_def Let_def split: option.splits if_splits)

lemma fca_item_simps [simp]:
  "m_block_id (fca_item b v it) = b" "version (fca_item b v it) = stored_version v"
  by (simp_all add: fca_item_def version_def stored_version_def set_version_def set_type_def item_zero_def)

lemma fca_item_wf: "item_wf it \<Longrightarrow> block_id_wf b \<Longrightarrow> item_wf (fca_item b v it)"
  using set_version_wf [OF set_type_wf, of it v 2] by (simp add: fca_item_def item_wf_def)

lemma fca_absent_nonzero [simp]: "fca_absent n m \<noteq> 0"
  by (simp add: fca_absent_def)

lemma fca_scan_found:
  "fca_scan P its i v = (Some j, w) \<Longrightarrow>
     i \<le> j \<and> j < i + length its \<and> m_data_id (m_block_id (its ! (j - i))) \<noteq> 0
     \<and> P (m_block_id (its ! (j - i)))
     \<and> find (\<lambda>it. m_data_id (m_block_id it) \<noteq> 0 \<and> P (m_block_id it)) its = Some (its ! (j - i))"
proof (induction its arbitrary: i v)
  case (Cons it its)
  show ?case
  proof (cases "m_data_id (m_block_id it) \<noteq> 0 \<and> P (m_block_id it)")
    case False
    then obtain v' where "fca_scan P its (Suc i) v' = (Some j, w)"
      using Cons.prems by (auto split: if_splits)
    from Cons.IH [OF this] False show ?thesis by (auto simp: nth_Cons')
  qed (use Cons.prems in auto)
qed simp

lemma fca_scan_absent:
  "fca_scan P its i v = (None, w) \<Longrightarrow>
     (\<forall>it\<in>set its. m_data_id (m_block_id it) \<noteq> 0 \<longrightarrow> \<not> P (m_block_id it))
     \<and> w = v + length (filter (\<lambda>it. m_data_id (m_block_id it) \<noteq> 0) its)"
  by (induction its arbitrary: i v) (fastforce split: if_splits)+

lemma fca_first_unused_Some:
  "fca_first_unused its i = Some j \<Longrightarrow>
     i \<le> j \<and> j < i + length its \<and> m_data_id (m_block_id (its ! (j - i))) = 0"
proof (induction its arbitrary: i)
  case (Cons it its)
  then show ?case by (fastforce simp: nth_Cons' split: if_splits)
qed simp

lemma fca_first_unused_None:
  "fca_first_unused its i = None \<longleftrightarrow> (\<forall>it\<in>set its. m_data_id (m_block_id it) \<noteq> 0)"
  by (induction its arbitrary: i) auto

lemma rec_look_Some_iff:
  assumes "rec_ok fk its"
  shows "rec_look fk sfx its = Some e \<longleftrightarrow>
    (\<exists>i<length its. rec_names fk sfx (its ! i) \<and> e = (m_block_id (its ! i), version (its ! i)))"
proof
  assume "rec_look fk sfx its = Some e"
  then show "\<exists>i<length its. rec_names fk sfx (its ! i) \<and> e = (m_block_id (its ! i), version (its ! i))"
    by (auto simp: rec_look_def find_Some_iff)
next
  assume "\<exists>i<length its. rec_names fk sfx (its ! i) \<and> e = (m_block_id (its ! i), version (its ! i))"
  then obtain i where i: "i < length its" "rec_names fk sfx (its ! i)"
    "e = (m_block_id (its ! i), version (its ! i))" by blast
  then have "\<forall>j<i. \<not> rec_names fk sfx (its ! j)"
    using assms unfolding rec_ok_def by (metis less_trans nat_neq_iff)
  with i show "rec_look fk sfx its = Some e"
    by (auto simp: rec_look_def find_Some_iff)
qed

lemma rec_look_None_iff:
  "rec_look fk sfx its = None \<longleftrightarrow> (\<forall>i<length its. \<not> rec_names fk sfx (its ! i))"
  by (auto simp: rec_look_def find_None_iff in_set_conv_nth)

text \<open>Replacing one item changes what the record says about two suffixes at most.\<close>

lemma rec_update:
  assumes "rec_ok fk its" "i < length its"
    and fresh: "\<forall>sfx. \<forall>j<length its. rec_names fk sfx it \<longrightarrow> rec_names fk sfx (its ! j) \<longrightarrow> j = i"
  shows "rec_ok fk (its[i := it])"
    and "rec_look fk sfx (its[i := it]) =
      (if rec_names fk sfx it then Some (m_block_id it, version it)
       else if rec_names fk sfx (its ! i) then None else rec_look fk sfx its)"
proof -
  show ok: "rec_ok fk (its[i := it])"
    using assms unfolding rec_ok_def by (simp add: nth_list_update) metis
  show "rec_look fk sfx (its[i := it]) =
      (if rec_names fk sfx it then Some (m_block_id it, version it)
       else if rec_names fk sfx (its ! i) then None else rec_look fk sfx its)"
  proof (cases "rec_names fk sfx it")
    case True
    then show ?thesis using rec_look_Some_iff [OF ok] assms(2) by (simp, intro exI [of _ i]) simp
  next
    case it: False
    show ?thesis
    proof (cases "rec_names fk sfx (its ! i)")
      case True
      then have "\<forall>j<length its. rec_names fk sfx (its ! j) \<longrightarrow> j = i"
        using assms(1,2) unfolding rec_ok_def by blast
      then have "\<not> rec_names fk sfx (its[i := it] ! j)" if "j < length its" for j
        using it assms(2) that by (cases "j = i") auto
      then show ?thesis using True it by (simp add: rec_look_None_iff)
    next
      case False
      have "rec_names fk sfx (its[i := it] ! j) \<longleftrightarrow> rec_names fk sfx (its ! j)"
        "rec_names fk sfx (its ! j) \<Longrightarrow> its[i := it] ! j = its ! j" for j
        using it False assms(2) by (cases "j = i"; simp)+
      then have "rec_look fk sfx (its[i := it]) = Some e \<longleftrightarrow> rec_look fk sfx its = Some e" for e
        unfolding rec_look_Some_iff [OF ok] rec_look_Some_iff [OF assms(1)] by auto
      then have "rec_look fk sfx (its[i := it]) = rec_look fk sfx its"
        by (metis option.exhaust)
      then show ?thesis using it False by simp
    qed
  qed
qed

text \<open>The record of a key of a conflict slot.\<close>

lemma fca_member_record:
  assumes "fca_inv bks fks fcs" "fca_member bks k"
  obtains i where "i \<in> fc_live (get_fast_conflict fcs k)"
    "m_block_id (fca_slot bks k) = block_id_set (unat (k ! 0)) i"
    "m_data_id (m_block_id (fca_slot bks k)) = i"
    "rec_ok (get_fullkey fks k) (fca_rec bks fcs k)"
    "fc_inv (get_fast_conflict fcs k)" "fc_file_id (get_fast_conflict fcs k) = unat (k ! 0)"
proof -
  let ?f = "unat (k ! 0)"
  have f: "?f < 256" by simp
  obtain i where i: "i \<in> fc_live (fcs ?f)" "m_block_id (fca_slot bks k) = block_id_set ?f i"
      "rec_ok (fks ?f) (fc_record (fcs ?f) i)"
    using assms f key_to_item_less [of k]
    unfolding fca_inv_def fca_member_def fca_slot_def get_bucket_def by blast
  have inv: "fc_inv (fcs ?f)" "fc_file_id (fcs ?f) = ?f"
    using assms(1) f unfolding fca_inv_def by blast+
  have "m_data_id (m_block_id (fca_slot bks k)) = i"
    using fc_live_bounds(4) [OF inv(1) i(1)] by (simp add: i(2) block_id_set_def trunc_def)
  then show ?thesis
    using that [of i] i inv by (simp add: get_fast_conflict_def get_fullkey_def fca_rec_def)
qed

lemma fca_open_record_eq:
  assumes "fca_inv bks fks fcs" "fca_member bks k"
  shows "fca_open_record bks fcs k = Inr (fca_slot bks k, fca_rec bks fcs k)"
proof -
  obtain i where i: "i \<in> fc_live (get_fast_conflict fcs k)"
    "m_block_id (fca_slot bks k) = block_id_set (unat (k ! 0)) i"
    "m_data_id (m_block_id (fca_slot bks k)) = i"
    "fc_inv (get_fast_conflict fcs k)" "fc_file_id (get_fast_conflict fcs k) = unat (k ! 0)"
    using fca_member_record [OF assms] by metis
  have "fc_get (get_fast_conflict fcs k) (m_block_id (fca_slot bks k)) = Some (fca_rec bks fcs k)"
    using fc_locate_live [OF i(4,1)] i(2,3,5) by (simp add: fc_get_def fca_rec_def)
  moreover have "bucket_find (get_bucket bks k) k = (0, Some (key_to_item k))"
    using assms(2) key_to_item_less [of k]
    by (simp add: bucket_find_def fca_member_def fca_slot_def Let_def)
  ultimately show ?thesis
    using assms(2) by (simp add: fca_open_record_def fca_member_def fca_slot_def Let_def)
qed

lemma fca_scan_cases:
  assumes "length k = 16"
  obtains (found) i w where "fca_scan (fca_matches fks k) its 0 0 = (Some i, w)" "i < length its"
      "rec_names (get_fullkey fks k) (drop 3 k) (its ! i)"
      "rec_look (get_fullkey fks k) (drop 3 k) its = Some (m_block_id (its ! i), version (its ! i))"
    | (absent) "fca_scan (fca_matches fks k) its 0 0
        = (None, length (filter (\<lambda>it. m_data_id (m_block_id it) \<noteq> 0) its))"
      "rec_look (get_fullkey fks k) (drop 3 k) its = None"
proof -
  have P: "rec_names (get_fullkey fks k) (drop 3 k)
      = (\<lambda>it. m_data_id (m_block_id it) \<noteq> 0 \<and> fca_matches fks k (m_block_id it))"
    using assms by (auto simp: rec_names_def fca_matches_def fk_compare_get)
  obtain o' w where sc: "fca_scan (fca_matches fks k) its 0 0 = (o', w)" by force
  show thesis
  proof (cases o')
    case None
    have "rec_look (get_fullkey fks k) (drop 3 k) its = None"
      using fca_scan_absent [OF sc [unfolded None]] by (auto simp: rec_look_def P find_None_iff)
    then show ?thesis using fca_scan_absent [OF sc [unfolded None]] sc None by (intro absent) auto
  next
    case (Some i)
    then show ?thesis
      using fca_scan_found [OF sc [unfolded Some]] sc by (intro found [of i w]) (auto simp: P rec_look_def)
  qed
qed

lemma fca_get_eq:
  assumes "fca_inv bks fks fcs" "fca_member bks k"
  shows "fca_get (Some bks) fks fcs k =
    (case rec_look (get_fullkey fks k) (drop 3 k) (fca_rec bks fcs k) of
       Some (b, v) \<Rightarrow> (0, b, v)
     | None \<Rightarrow> (fca_absent (get_conflict_count (fca_slot bks k))
                 (length (filter (\<lambda>it. m_data_id (m_block_id it) \<noteq> 0) (fca_rec bks fcs k))),
               block_id_zero, 0))"
proof -
  have k: "length k = 16" using assms(2) by (simp add: fca_member_def)
  show ?thesis
    by (rule fca_scan_cases [OF k, of fks "fca_rec bks fcs k"])
      (simp_all add: fca_get_def fca_open_record_eq [OF assms] fca_matches_def [abs_def])
qed

lemma fca_look_eq:
  assumes "fca_inv bks fks fcs" "fca_member bks k"
  shows "fca_look bks fks fcs k = rec_look (get_fullkey fks k) (drop 3 k) (fca_rec bks fcs k)"
  by (simp add: fca_look_def fca_get_eq [OF assms] split: option.split)

text \<open>Storing an item into the record of a key: the other records stay as they are.\<close>

lemma fca_put_item_rec:
  assumes inv: "fca_inv bks fks fcs" and k: "fca_member bks k" and k': "fca_member bks k'"
    and j: "j < length (fca_rec bks fcs k)"
  shows "fca_rec bks (fca_put_item bks k j it fcs) k' =
      (if k' ! 0 = k ! 0 \<and> key_to_item k' = key_to_item k then (fca_rec bks fcs k)[j := it]
       else fca_rec bks fcs k')"
proof -
  let ?f = "unat (k ! 0)" and ?fcs = "fca_put_item bks k j it fcs"
  obtain i where i: "m_data_id (m_block_id (fca_slot bks k)) = i" by blast
  have j': "j < fc_conflict_count (fcs ?f)" using j by (simp add: fca_rec_def get_fast_conflict_def)
  have fcs: "?fcs = fcs(?f := fc_put_item i j it (fcs ?f))"
    using i by (simp add: fca_put_item_def fca_slot_def get_fast_conflict_def Let_def)
  note r = fc_record_put_item [OF j', of i it]
  have rec: "fca_rec bks fcs k = fc_record (fcs ?f) i"
    using i by (simp add: fca_rec_def get_fast_conflict_def)
  have same: "key_to_item k' = key_to_item k"
    if "k' ! 0 = k ! 0" "m_data_id (m_block_id (fca_slot bks k')) = i"
  proof -
    have "inj_on (\<lambda>n. m_data_id (m_block_id (bk_item (bks ?f) n)))
        {n. n < bucket_item_count \<and> m_type (bk_item (bks ?f) n) = BUCKET_CONFLICT_DATA}"
      using inv unfolding fca_inv_def by simp
    then show ?thesis
      using that i k k' key_to_item_less [of k] key_to_item_less [of k']
      by (auto simp: inj_on_def fca_member_def fca_slot_def get_bucket_def)
  qed
  show ?thesis
  proof (cases "k' ! 0 = k ! 0 \<and> key_to_item k' = key_to_item k")
    case True
    then show ?thesis
      using i by (simp add: rec fca_rec_def fcs get_fast_conflict_def fca_slot_def get_bucket_def r)
  next
    case False
    then show ?thesis
      using same by (auto simp: fca_rec_def fcs get_fast_conflict_def r dest: byte_eqI)
  qed
qed

lemma fca_put_item_correct:
  assumes inv: "fca_inv bks fks fcs" and k: "fca_member bks k"
    and j: "j < length (fca_rec bks fcs k)" and it: "item_wf it"
    and ok: "rec_ok (get_fullkey fks k) ((fca_rec bks fcs k)[j := it])"
  shows "fca_inv bks fks (fca_put_item bks k j it fcs)"
    and "fca_member bks k' \<Longrightarrow> fca_rec bks (fca_put_item bks k j it fcs) k' =
      (if k' ! 0 = k ! 0 \<and> key_to_item k' = key_to_item k then (fca_rec bks fcs k)[j := it]
       else fca_rec bks fcs k')"
proof -
  let ?f = "unat (k ! 0)" and ?fcs = "fca_put_item bks k j it fcs"
  obtain i where i: "i \<in> fc_live (get_fast_conflict fcs k)"
    "m_data_id (m_block_id (fca_slot bks k)) = i"
    "fc_inv (get_fast_conflict fcs k)"
    using fca_member_record [OF inv k] by metis
  have j': "j < fc_conflict_count (fcs ?f)" using j by (simp add: fca_rec_def get_fast_conflict_def)
  have fcs: "?fcs = fcs(?f := fc_put_item i j it (fcs ?f))"
    using i(2) by (simp add: fca_put_item_def fca_slot_def get_fast_conflict_def Let_def)
  note u = fc_put_item_live [OF i(3)[unfolded get_fast_conflict_def] i(1)[unfolded get_fast_conflict_def] j' it]
  note r = fc_record_put_item [OF j', of i it]
  have rec: "fca_rec bks fcs k = fc_record (fcs ?f) i"
    using i(2) by (simp add: fca_rec_def get_fast_conflict_def)
  have ok': "rec_ok (fks f) (fc_record (?fcs f) m)" if "rec_ok (fks f) (fc_record (fcs f) m)" for f m
    using that ok by (auto simp: fcs rec r get_fullkey_def)
  have eqs: "fc_live (?fcs f) = fc_live (fcs f)" "fc_inv (fcs f) \<Longrightarrow> fc_inv (?fcs f)"
    "fc_file_id (?fcs f) = fc_file_id (fcs f)" for f
    using u by (simp_all add: fcs)
  show "fca_inv bks fks ?fcs"
    using inv unfolding fca_inv_def eqs(1,3) using ok' eqs(2) by blast
  show "fca_member bks k' \<Longrightarrow> fca_rec bks ?fcs k' =
      (if k' ! 0 = k ! 0 \<and> key_to_item k' = key_to_item k then (fca_rec bks fcs k)[j := it]
       else fca_rec bks fcs k')"
    by (rule fca_put_item_rec [OF inv k _ j])
qed

text \<open>The keys of one slot are told apart by their suffix.\<close>

lemma fca_same_slot_iff:
  assumes "fca_member bks k" "fca_member bks k'" "k' ! 0 = k ! 0" "key_to_item k' = key_to_item k"
  shows "drop 3 k' = drop 3 k \<longleftrightarrow> k' = k"
  using slot_suffix_inj [OF _ _ assms(3,4)] assms(1,2) by (auto simp: fca_member_def)

lemma fca_rec_item_wf:
  assumes "fca_inv bks fks fcs" "fca_member bks k" "i < length (fca_rec bks fcs k)"
  shows "item_wf (fca_rec bks fcs k ! i)"
proof -
  have "fc_inv (get_fast_conflict fcs k)" using fca_member_record [OF assms(1,2)] by metis
  then show ?thesis
    using assms(3) fc_invD(8) by (simp add: fca_rec_def fc_record_def)
qed

lemma fca_add_cases:
  assumes "fca_inv bks fks fcs" "fca_member bks k" "fca_add (Some bks) fks k b v fcs = (r, fcs')"
  obtains "r \<noteq> 0" "fcs' = fcs"
  | i where "r = 0" "v \<le> BUCKET_DATA_MAX_VERSION" "fca_look bks fks fcs k = None"
      "i < length (fca_rec bks fcs k)" "m_data_id (m_block_id (fca_rec bks fcs k ! i)) = 0"
      "fcs' = fca_put_item bks k i (fca_item b v (fca_rec bks fcs k ! i)) fcs"
proof (cases "r = 0")
  case False
  then have "fcs' = fcs"
    using assms(3) by (auto simp: fca_add_def Let_def split: if_splits option.splits sum.splits)
  then show ?thesis using False that(1) by simp
next
  case True
  then obtain i where i: "fca_first_unused (fca_rec bks fcs k) 0 = Some i"
      "v \<le> BUCKET_DATA_MAX_VERSION" "fst (fca_get (Some bks) fks fcs k) \<noteq> 0"
      "fcs' = fca_put_item bks k i (fca_item b v (fca_rec bks fcs k ! i)) fcs"
    using assms(3) fca_open_record_eq [OF assms(1,2)]
    by (auto simp: fca_add_def Let_def split: if_splits option.splits)
  have "fca_look bks fks fcs k = None" using i(3) by (auto simp: fca_look_def split: prod.splits)
  then show ?thesis using that(2) [of i] fca_first_unused_Some [OF i(1)] True i by simp
qed

lemma fca_add_correct:
  assumes inv: "fca_inv bks fks fcs" and k: "fca_member bks k" and b: "fca_names fks k b"
    and add: "fca_add (Some bks) fks k b v fcs = (r, fcs')"
  shows "fca_inv bks fks fcs'"
    and "fca_member bks k' \<Longrightarrow> fca_look bks fks fcs' k' =
      (if r = 0 \<and> k' = k then Some (b, stored_version v) else fca_look bks fks fcs k')"
proof -
  have "fca_inv bks fks fcs' \<and> (fca_member bks k' \<longrightarrow> fca_look bks fks fcs' k' =
      (if r = 0 \<and> k' = k then Some (b, stored_version v) else fca_look bks fks fcs k'))"
  proof (rule fca_add_cases [OF inv k add])
    fix i
    let ?fk = "get_fullkey fks k" and ?its = "fca_rec bks fcs k"
    let ?it = "fca_item b v (?its ! i)"
    assume i: "r = 0" "fca_look bks fks fcs k = None" "i < length ?its"
      "m_data_id (m_block_id (?its ! i)) = 0" "fcs' = fca_put_item bks k i ?it fcs"
    have wf: "item_wf ?it"
      using fca_item_wf fca_rec_item_wf [OF inv k i(3)] b by (simp add: fca_names_def)
    have nm: "rec_names ?fk sfx ?it \<longleftrightarrow> sfx = drop 3 k" for sfx
      using b fk_get_data_id by (auto simp: rec_names_def fca_names_def)
    have old: "\<not> rec_names ?fk sfx (?its ! i)" for sfx using i(4) by (simp add: rec_names_def)
    have ok: "rec_ok ?fk ?its" using fca_member_record [OF inv k] by metis
    have none: "\<not> rec_names ?fk (drop 3 k) (?its ! j)" if "j < length ?its" for j
      using i(2) that unfolding fca_look_eq [OF inv k] rec_look_None_iff by blast
    have fresh: "\<forall>sfx. \<forall>j<length ?its. rec_names ?fk sfx ?it \<longrightarrow> rec_names ?fk sfx (?its ! j) \<longrightarrow> j = i"
      using none unfolding nm by simp
    note ru = rec_update [OF ok i(3) fresh]
    note p = fca_put_item_correct [OF inv k i(3) wf ru(1)]
    have "fca_look bks fks fcs' k' =
      (if k' = k then Some (b, stored_version v) else fca_look bks fks fcs k')"
      if k': "fca_member bks k'"
    proof (cases "k' ! 0 = k ! 0 \<and> key_to_item k' = key_to_item k")
      case True
      then have eq: "get_fullkey fks k' = ?fk" "fca_rec bks fcs k' = ?its"
        by (simp_all add: get_fullkey_def fca_rec_def get_fast_conflict_def fca_slot_def get_bucket_def)
      show ?thesis
        using True ru(2) [where sfx = "drop 3 k'"] fca_same_slot_iff [OF k k'] nm old eq
        unfolding i(5) fca_look_eq [OF p(1) k'] fca_look_eq [OF inv k'] p(2) [OF k'] by auto
    next
      case False
      then show ?thesis
        unfolding i(5) fca_look_eq [OF p(1) k'] fca_look_eq [OF inv k'] p(2) [OF k'] by auto
    qed
    then show ?thesis using p(1) i(1,5) by simp
  qed (use inv in simp)
  then show "fca_inv bks fks fcs'" "fca_member bks k' \<Longrightarrow> fca_look bks fks fcs' k' =
      (if r = 0 \<and> k' = k then Some (b, stored_version v) else fca_look bks fks fcs k')" by blast+
qed

lemma fca_del_cases:
  assumes "fca_inv bks fks fcs" "fca_member bks k" "fca_del (Some bks) fks k fcs = (r, fcs')"
  obtains "r \<noteq> 0" "fcs' = fcs" "fca_look bks fks fcs k = None"
  | i where "r = 0" "i < length (fca_rec bks fcs k)"
      "rec_names (get_fullkey fks k) (drop 3 k) (fca_rec bks fcs k ! i)"
      "fcs' = fca_put_item bks k i item_zero fcs"
proof -
  have k: "length k = 16" using assms(2) by (simp add: fca_member_def)
  have d: "(case fca_scan (fca_matches fks k) (fca_rec bks fcs k) 0 0 of
      (Some i, _) \<Rightarrow> (0, fca_put_item bks k i item_zero fcs)
    | (None, valid) \<Rightarrow> (fca_absent (get_conflict_count (fca_slot bks k)) valid, fcs)) = (r, fcs')"
    using assms(3) by (simp add: fca_del_def fca_open_record_eq [OF assms(1,2)] fca_matches_def [abs_def])
  show thesis
  proof (rule fca_scan_cases [OF k, of fks "fca_rec bks fcs k"])
    fix i w
    assume "fca_scan (fca_matches fks k) (fca_rec bks fcs k) 0 0 = (Some i, w)"
      "i < length (fca_rec bks fcs k)"
      "rec_names (get_fullkey fks k) (drop 3 k) (fca_rec bks fcs k ! i)"
    then show thesis using that(2) [of i] d by simp
  next
    assume "fca_scan (fca_matches fks k) (fca_rec bks fcs k) 0 0
        = (None, length (filter (\<lambda>it. m_data_id (m_block_id it) \<noteq> 0) (fca_rec bks fcs k)))"
      "rec_look (get_fullkey fks k) (drop 3 k) (fca_rec bks fcs k) = None"
    then show thesis using that(1) d fca_look_eq [OF assms(1,2)] by auto
  qed
qed

lemma fca_del_correct:
  assumes inv: "fca_inv bks fks fcs" and k: "fca_member bks k"
    and del: "fca_del (Some bks) fks k fcs = (r, fcs')"
  shows "fca_inv bks fks fcs'"
    and "fca_member bks k' \<Longrightarrow> fca_look bks fks fcs' k' =
      (if r = 0 \<and> k' = k then None else fca_look bks fks fcs k')"
proof -
  have "fca_inv bks fks fcs' \<and> (fca_member bks k' \<longrightarrow> fca_look bks fks fcs' k' =
      (if r = 0 \<and> k' = k then None else fca_look bks fks fcs k'))"
  proof (rule fca_del_cases [OF inv k del])
    fix i
    let ?fk = "get_fullkey fks k" and ?its = "fca_rec bks fcs k"
    assume i: "r = 0" "i < length ?its" "rec_names ?fk (drop 3 k) (?its ! i)"
      "fcs' = fca_put_item bks k i item_zero fcs"
    have nm: "\<not> rec_names ?fk sfx item_zero" for sfx
      by (simp add: rec_names_def item_zero_def block_id_zero_def)
    have old: "rec_names ?fk sfx (?its ! i) \<longleftrightarrow> sfx = drop 3 k" for sfx
      using i(3) by (auto simp: rec_names_def)
    have ok: "rec_ok ?fk ?its" using fca_member_record [OF inv k] by metis
    have fresh: "\<forall>sfx. \<forall>j<length ?its. rec_names ?fk sfx item_zero \<longrightarrow> rec_names ?fk sfx (?its ! j) \<longrightarrow> j = i"
      using nm by simp
    note ru = rec_update [OF ok i(2) fresh]
    note p = fca_put_item_correct [OF inv k i(2) item_zero_wf ru(1)]
    have "fca_look bks fks fcs' k' = (if k' = k then None else fca_look bks fks fcs k')"
      if k': "fca_member bks k'"
    proof (cases "k' ! 0 = k ! 0 \<and> key_to_item k' = key_to_item k")
      case True
      then have eq: "get_fullkey fks k' = ?fk" "fca_rec bks fcs k' = ?its"
        by (simp_all add: get_fullkey_def fca_rec_def get_fast_conflict_def fca_slot_def get_bucket_def)
      show ?thesis
        using True ru(2) [where sfx = "drop 3 k'"] fca_same_slot_iff [OF k k'] nm old eq
        unfolding i(4) fca_look_eq [OF p(1) k'] fca_look_eq [OF inv k'] p(2) [OF k'] by auto
    next
      case False
      then show ?thesis
        unfolding i(4) fca_look_eq [OF p(1) k'] fca_look_eq [OF inv k'] p(2) [OF k'] by auto
    qed
    then show ?thesis using p(1) i(1,4) by simp
  qed (use inv in simp)
  then show "fca_inv bks fks fcs'" "fca_member bks k' \<Longrightarrow> fca_look bks fks fcs' k' =
      (if r = 0 \<and> k' = k then None else fca_look bks fks fcs k')" by blast+
qed

lemma fca_update_cases:
  assumes "fca_inv bks fks fcs" "fca_member bks k" "fca_update (Some bks) fks k b v fcs = (0, fcs')"
    "fca_look bks fks fcs k = Some (b, w)"
  obtains "v = w" "fcs' = fcs"
  | i where "i < length (fca_rec bks fcs k)" "rec_names (get_fullkey fks k) (drop 3 k) (fca_rec bks fcs k ! i)"
      "m_block_id (fca_rec bks fcs k ! i) = b" "v \<noteq> w"
      "fcs' = fca_put_item bks k i (set_version v (fca_rec bks fcs k ! i)) fcs"
proof -
  have k: "length k = 16" using assms(2) by (simp add: fca_member_def)
  note l = assms(4) [unfolded fca_look_eq [OF assms(1,2)]]
  show thesis
  proof (rule fca_scan_cases [OF k, of fks "fca_rec bks fcs k"])
    fix i x
    assume i: "fca_scan (fca_matches fks k) (fca_rec bks fcs k) 0 0 = (Some i, x)" "i < length (fca_rec bks fcs k)"
      "rec_names (get_fullkey fks k) (drop 3 k) (fca_rec bks fcs k ! i)"
      "rec_look (get_fullkey fks k) (drop 3 k) (fca_rec bks fcs k)
        = Some (m_block_id (fca_rec bks fcs k ! i), version (fca_rec bks fcs k ! i))"
    have e: "m_block_id (fca_rec bks fcs k ! i) = b" "version (fca_rec bks fcs k ! i) = w" using i(4) l by simp_all
    have "fcs' = (if w \<noteq> v then fca_put_item bks k i (set_version v (fca_rec bks fcs k ! i)) fcs else fcs)"
      using assms(3) i(1) e
      by (simp add: fca_update_def fca_open_record_eq [OF assms(1,2)] fca_matches_def [abs_def] split: if_splits)
    then show thesis using that i(2,3) e(1) by (cases "v = w") auto
  qed (use l in simp)
qed

lemma fca_update_correct:
  assumes inv: "fca_inv bks fks fcs" and k: "fca_member bks k"
    and up: "fca_update (Some bks) fks k b v fcs = (0, fcs')" and old: "fca_look bks fks fcs k = Some (b, w)"
  shows "fca_inv bks fks fcs'"
    and "fca_member bks k' \<Longrightarrow> fca_look bks fks fcs' k' =
      (if k' = k then Some (b, if v = w then w else stored_version v) else fca_look bks fks fcs k')"
proof -
  have "fca_inv bks fks fcs' \<and> (fca_member bks k' \<longrightarrow> fca_look bks fks fcs' k' =
      (if k' = k then Some (b, if v = w then w else stored_version v) else fca_look bks fks fcs k'))"
  proof (rule fca_update_cases [OF inv k up old])
    fix i
    let ?fk = "get_fullkey fks k" and ?its = "fca_rec bks fcs k"
    let ?it = "set_version v (?its ! i)"
    assume i: "i < length ?its" "rec_names ?fk (drop 3 k) (?its ! i)" "m_block_id (?its ! i) = b" "v \<noteq> w"
      "fcs' = fca_put_item bks k i ?it fcs"
    have blk: "m_block_id ?it = b" using i(3) by (simp add: set_version_def)
    have nm: "rec_names ?fk sfx ?it \<longleftrightarrow> sfx = drop 3 k" "rec_names ?fk sfx (?its ! i) \<longleftrightarrow> sfx = drop 3 k" for sfx
      using i(2,3) blk by (auto simp: rec_names_def)
    have ok: "rec_ok ?fk ?its" using fca_member_record [OF inv k] by metis
    have fresh: "\<forall>sfx. \<forall>j<length ?its. rec_names ?fk sfx ?it \<longrightarrow> rec_names ?fk sfx (?its ! j) \<longrightarrow> j = i"
    proof (intro allI impI)
      fix sfx j
      assume "j < length ?its" "rec_names ?fk sfx ?it" "rec_names ?fk sfx (?its ! j)"
      then show "j = i" using ok [unfolded rec_ok_def, rule_format, of j i "drop 3 k"] i(1,2) nm(1) by simp
    qed
    note ru = rec_update [OF ok i(1) fresh]
    note p = fca_put_item_correct [OF inv k i(1) set_version_wf [OF fca_rec_item_wf [OF inv k i(1)]] ru(1)]
    have "fca_look bks fks fcs' k' = (if k' = k then Some (b, stored_version v) else fca_look bks fks fcs k')"
      if k': "fca_member bks k'"
    proof (cases "k' ! 0 = k ! 0 \<and> key_to_item k' = key_to_item k")
      case True
      then have eq: "get_fullkey fks k' = ?fk" "fca_rec bks fcs k' = ?its"
        by (simp_all add: get_fullkey_def fca_rec_def get_fast_conflict_def fca_slot_def get_bucket_def)
      show ?thesis
        using True ru(2) [where sfx = "drop 3 k'"] fca_same_slot_iff [OF k k'] nm eq blk
        unfolding i(5) fca_look_eq [OF p(1) k'] fca_look_eq [OF inv k'] p(2) [OF k'] by auto
    next
      case False
      then show ?thesis
        unfolding i(5) fca_look_eq [OF p(1) k'] fca_look_eq [OF inv k'] p(2) [OF k'] by auto
    qed
    then show ?thesis using p(1) i(4,5) by simp
  qed (use inv old in simp)
  then show "fca_inv bks fks fcs'" "fca_member bks k' \<Longrightarrow> fca_look bks fks fcs' k' =
      (if k' = k then Some (b, if v = w then w else stored_version v) else fca_look bks fks fcs k')" by blast+
qed

interpretation fcidx: key_index "fca_look bks fks" "fca_add (Some bks) fks" "fca_del (Some bks) fks"
  "fca_inv bks fks" "fca_member bks" "fca_names fks" for bks fks
proof
  show "fca_inv bks fks s \<Longrightarrow> fca_member bks k \<Longrightarrow> fca_names fks k b \<Longrightarrow>
      fca_add (Some bks) fks k b v s = (r, s') \<Longrightarrow> fca_inv bks fks s'" for s k b v r s'
    by (rule fca_add_correct(1))
  show "fca_inv bks fks s \<Longrightarrow> fca_member bks k \<Longrightarrow> fca_names fks k b \<Longrightarrow>
      fca_add (Some bks) fks k b v s = (r, s') \<Longrightarrow> fca_member bks k' \<Longrightarrow>
      fca_look bks fks s' k' =
        (if r = 0 \<and> k' = k then Some (b, stored_version v) else fca_look bks fks s k')" for s k b v r s' k'
    by (rule fca_add_correct(2))
  show "fca_inv bks fks s \<Longrightarrow> fca_member bks k \<Longrightarrow> fca_del (Some bks) fks k s = (r, s') \<Longrightarrow>
      fca_inv bks fks s'" for s k r s'
    by (rule fca_del_correct(1))
  show "fca_inv bks fks s \<Longrightarrow> fca_member bks k \<Longrightarrow> fca_del (Some bks) fks k s = (r, s') \<Longrightarrow>
      fca_member bks k' \<Longrightarrow> fca_look bks fks s' k' =
        (if r = 0 \<and> k' = k then None else fca_look bks fks s k')" for s k r s' k'
    by (rule fca_del_correct(2))
qed

text \<open>A slot that turns into a conflict slot gets a record of its own with the two keys.\<close>

lemma fca_write_correct:
  assumes "fca_inv bks fks fcs" "grow_io_ok io" "block_id_wf b1" "block_id_wf b2"
    "fca_write io k b1 v1 b2 v2 fcs = (Some a, fcs')"
  obtains i where "a = block_id_set (unat (k ! 0)) i" "i < 4294967296" "i \<notin> fc_live (fcs (unat (k ! 0)))"
    "i \<in> fc_live (fcs' (unat (k ! 0)))" "fc_live (fcs (unat (k ! 0))) \<subseteq> fc_live (fcs' (unat (k ! 0)))"
    "\<forall>j. j \<noteq> i \<longrightarrow> fc_record (fcs' (unat (k ! 0))) j = fc_record (fcs (unat (k ! 0))) j"
    "fc_record (fcs' (unat (k ! 0))) i = fca_item b1 v1 item_zero # fca_item b2 v2 item_zero
       # replicate (fc_conflict_count (fcs (unat (k ! 0))) - 2) item_zero"
    "\<forall>f. f \<noteq> unat (k ! 0) \<longrightarrow> fcs' f = fcs f"
    "\<forall>f<256. fc_inv (fcs' f) \<and> fc_file_id (fcs' f) = f"
proof -
  let ?f = "unat (k ! 0)"
  have f: "?f < 256" by simp
  have inv: "\<forall>f<256. fc_inv (fcs f) \<and> fc_file_id (fcs f) = f" using assms(1) by (simp add: fca_inv_def)
  then have inv_f: "fc_inv (fcs ?f)" "fc_file_id (fcs ?f) = ?f" using f by blast+
  obtain c where w: "fc_write io (fca_item b1 v1 item_zero) (fca_item b2 v2 item_zero) (fcs ?f) = (Some a, c)"
      and fcs': "fcs' = fcs(?f := c)"
    using assms(5) by (auto simp: fca_write_def get_fast_conflict_def Let_def split: if_splits prod.splits)
  note c = fc_write_correct [OF inv_f(1) assms(2) fca_item_wf [OF item_zero_wf assms(3)]
      fca_item_wf [OF item_zero_wf assms(4)] w]
  then obtain i where i: "a = block_id_set ?f i" "i \<notin> fc_live (fcs ?f)"
      "fc_live c = insert i (fc_live (fcs ?f))" "\<forall>k. k \<noteq> i \<longrightarrow> fc_record c k = fc_record (fcs ?f) k"
      "fc_record c i = fca_item b1 v1 item_zero # fca_item b2 v2 item_zero
         # replicate (fc_conflict_count (fcs ?f) - 2) item_zero"
    using inv_f(2) by auto
  have "fc_inv c" "fc_file_id c = ?f" using c inv_f(2) by auto
  then show ?thesis
    using that [of i] i inv fc_live_bounds(4) [of c i] by (simp add: fcs' subset_insertI)
qed

lemma fca_slot_write:
  "fca_slot (bks(unat (k ! 0) := bucket_write (key_to_item k) it (bks (unat (k ! 0))))) k'
     = (if same_slot k' k then it else fca_slot bks k')"
  by (auto simp: fca_slot_def get_bucket_def bucket_write_def same_slot_def dest: byte_eqI)

lemma rec_look_pair:
  assumes "fca_names fks k1 b1" "fca_names fks k2 b2" "get_fullkey fks k1 = fk" "get_fullkey fks k2 = fk"
    "drop 3 k1 \<noteq> drop 3 k2"
    "its = fca_item b1 v1 item_zero # fca_item b2 v2 item_zero # replicate n item_zero"
  shows "rec_ok fk its" "rec_look fk sfx its =
    (if sfx = drop 3 k1 then Some (b1, stored_version v1)
     else if sfx = drop 3 k2 then Some (b2, stored_version v2) else None)"
proof -
  have nm: "rec_names fk sfx (fca_item b1 v1 item_zero) \<longleftrightarrow> sfx = drop 3 k1"
    "rec_names fk sfx (fca_item b2 v2 item_zero) \<longleftrightarrow> sfx = drop 3 k2"
    "\<not> rec_names fk sfx item_zero" for sfx
    using assms(1-4) fk_get_data_id
    by (auto simp: rec_names_def fca_names_def item_zero_def block_id_zero_def)
  have z: "find (rec_names fk sfx) (replicate n item_zero) = None" for sfx
    using nm(3) by (auto simp: find_None_iff)
  show "rec_look fk sfx its = (if sfx = drop 3 k1 then Some (b1, stored_version v1)
     else if sfx = drop 3 k2 then Some (b2, stored_version v2) else None)"
    using assms(5) by (simp add: rec_look_def assms(6) nm z)
  have "rec_names fk sfx (its ! i) \<Longrightarrow> i < length its \<Longrightarrow> i = (if sfx = drop 3 k1 then 0 else 1)" for sfx i
    using assms(5) nm by (auto simp: assms(6) nth_Cons' split: if_splits)
  then show "rec_ok fk its" unfolding rec_ok_def by blast
qed

lemma fca_split_core:
  fixes k1 :: bytes
  defines "f \<equiv> unat (k1 ! 0)" and "n \<equiv> key_to_item k1"
  assumes inv: "fca_inv bks fks fcs" and slot: "m_type (bk_item (bks f) n) \<noteq> BUCKET_CONFLICT_DATA"
    and it: "m_type it = BUCKET_CONFLICT_DATA" "m_block_id it = block_id_set f i" "i < 4294967296"
    and i: "i \<notin> fc_live (fcs f)" "i \<in> fc_live (fcs' f)" "fc_live (fcs f) \<subseteq> fc_live (fcs' f)"
    and rec [rule_format]: "\<forall>j. j \<noteq> i \<longrightarrow> fc_record (fcs' f) j = fc_record (fcs f) j"
      "rec_ok (fks f) (fc_record (fcs' f) i)"
    and oth [rule_format]: "\<forall>g. g \<noteq> f \<longrightarrow> fcs' g = fcs g"
      "\<forall>g<256. fc_inv (fcs' g) \<and> fc_file_id (fcs' g) = g"
    and bks': "bks' = bks(f := bucket_write n it (bks f))"
  shows "fca_inv bks' fks fcs'"
    and "fca_member bks k \<Longrightarrow> fca_member bks' k \<and> \<not> same_slot k k1 \<and> fca_rec bks' fcs' k = fca_rec bks fcs k"
    and "same_slot k k1 \<Longrightarrow> fca_rec bks' fcs' k = fc_record (fcs' f) i"
proof -
  have ty: "m_type (bk_item (bks' g) m) = BUCKET_CONFLICT_DATA \<longleftrightarrow>
      (g = f \<and> m = n) \<or> m_type (bk_item (bks g) m) = BUCKET_CONFLICT_DATA" for g m
    using it(1) by (simp add: bks' bucket_write_def)
  have old: "\<exists>j\<in>fc_live (fcs g). m_block_id (bk_item (bks g) m) = block_id_set g j
      \<and> rec_ok (fks g) (fc_record (fcs g) j) \<and> j < 4294967296"
    if "g < 256" "m < bucket_item_count" "m_type (bk_item (bks g) m) = BUCKET_CONFLICT_DATA" for g m
    using inv that fc_live_bounds(4) unfolding fca_inv_def by fastforce
  have same: "bk_item (bks' g) m = bk_item (bks g) m" if "\<not> (g = f \<and> m = n)" for g m
    using that by (auto simp: bks' bucket_write_def)
  have new: "bk_item (bks' f) n = it" by (simp add: bks' bucket_write_def)
  have A: "\<exists>j\<in>fc_live (fcs' g). m_block_id (bk_item (bks' g) m) = block_id_set g j
      \<and> rec_ok (fks g) (fc_record (fcs' g) j)"
    if g: "g < 256" "m < bucket_item_count" "m_type (bk_item (bks' g) m) = BUCKET_CONFLICT_DATA" for g m
  proof (cases "g = f \<and> m = n")
    case True
    then show ?thesis using it(2) i(2) rec(2) new by blast
  next
    case False
    then obtain j where j: "j \<in> fc_live (fcs g)" "m_block_id (bk_item (bks g) m) = block_id_set g j"
        "rec_ok (fks g) (fc_record (fcs g) j)"
      using old [OF g(1,2)] g(3) ty [of g m] False by blast
    have "fc_record (fcs' g) j = fc_record (fcs g) j" "j \<in> fc_live (fcs' g)"
      using j(1) i(1,3) rec(1) [of j] oth(1) [of g] by (cases "g = f"; auto)+
    then show ?thesis using j same [OF False] by auto
  qed
  have B: "m_data_id (m_block_id (bk_item (bks f) m)) \<noteq> i"
    if "m < bucket_item_count" "m_type (bk_item (bks f) m) = BUCKET_CONFLICT_DATA" for m
    using old [of f m] that i(1) by (auto simp: f_def block_id_set_def trunc_def)
  have d: "m_data_id (m_block_id it) = i" using it(2,3) by (simp add: block_id_set_def)
  have "inj_on (\<lambda>m. m_data_id (m_block_id (bk_item (bks' g) m)))
      {m. m < bucket_item_count \<and> m_type (bk_item (bks' g) m) = BUCKET_CONFLICT_DATA}" if "g < 256" for g
  proof -
    have "inj_on (\<lambda>m. m_data_id (m_block_id (bk_item (bks g) m)))
      {m. m < bucket_item_count \<and> m_type (bk_item (bks g) m) = BUCKET_CONFLICT_DATA}"
      using inv that unfolding fca_inv_def by blast
    then have o: "x = y" if "x < bucket_item_count" "m_type (bk_item (bks g) x) = BUCKET_CONFLICT_DATA"
        "y < bucket_item_count" "m_type (bk_item (bks g) y) = BUCKET_CONFLICT_DATA"
        "m_data_id (m_block_id (bk_item (bks g) x)) = m_data_id (m_block_id (bk_item (bks g) y))" for x y
      using that by (simp add: inj_on_def)
    show ?thesis
    proof (rule inj_onI, unfold mem_Collect_eq ty, goal_cases)
      case (1 x y)
      then show ?case
        using o [of x y] B [of x] B [of y] d new same [of g x] same [of g y]
        by (cases "g = f \<and> x = n"; cases "g = f \<and> y = n") auto
    qed
  qed
  then show "fca_inv bks' fks fcs'" unfolding fca_inv_def using A oth(2) by blast
  note sl = fca_slot_write [of bks k1 it k, folded f_def n_def, folded bks']
  show "fca_rec bks' fcs' k = fc_record (fcs' f) i" if "same_slot k k1"
    using that d sl by (simp add: fca_rec_def get_fast_conflict_def same_slot_def f_def)
  show "fca_member bks' k \<and> \<not> same_slot k k1 \<and> fca_rec bks' fcs' k = fca_rec bks fcs k"
    if k: "fca_member bks k"
  proof -
    have ns: "\<not> same_slot k k1"
      using k slot by (auto simp: same_slot_def fca_member_def fca_slot_def get_bucket_def f_def n_def)
    have "fc_record (fcs' (unat (k ! 0))) (m_data_id (m_block_id (fca_slot bks k)))
        = fc_record (fcs (unat (k ! 0))) (m_data_id (m_block_id (fca_slot bks k)))"
      using B [of "key_to_item k"] k key_to_item_less [of k] rec(1) oth(1)
      by (cases "unat (k ! 0) = f") (auto simp: fca_member_def fca_slot_def get_bucket_def)
    then show ?thesis using ns sl k by (simp add: fca_member_def fca_rec_def get_fast_conflict_def)
  qed
qed

lemma ex_simps [simp]:
  "length (ex_key i) = 16" "key_to_item (ex_key i) = 0" "ex_key i ! 0 = 0"
  "get_fullkey ex_fks (ex_key i) = ex_fks 0" "get_bucket ex_bks (ex_key i) = ex_bks 0"
  by (simp_all add: ex_key_def key_to_item_sum get_fullkey_def get_bucket_def nth_append)

lemma ex_key_inj [simp]: "i < 256 \<Longrightarrow> j < 256 \<Longrightarrow> drop 3 (ex_key i) = drop 3 (ex_key j) \<longleftrightarrow> i = j"
  by (auto simp: ex_key_def dest!: arg_cong [where f = unat])

lemma ex_key_eq [simp]: "i < 256 \<Longrightarrow> j < 256 \<Longrightarrow> ex_key i = ex_key j \<longleftrightarrow> i = j"
  using ex_key_inj by metis

lemma ex_fk_get: "1 \<le> i \<Longrightarrow> i \<le> 3 \<Longrightarrow> fk_get (ex_fks 0) (block_id_set 0 i) = Some (drop 3 (ex_key i))"
  by (simp add: fk_get_def fk_parse_block_id_def block_id_set_def trunc_def ex_fks_def fk_new_file_def
      width_simps)

lemma ex_names: "1 \<le> i \<Longrightarrow> i \<le> 3 \<Longrightarrow> fca_names ex_fks (ex_key i) (block_id_set 0 i)"
  by (simp add: fca_names_def ex_fk_get block_id_set_wf)

lemma ex_member: "fca_member ex_bks (ex_key i)"
  by (simp add: fca_member_def fca_slot_def ex_bks_def bucket_write_def set_conflict_count_def
      BUCKET_DATA_MAX_VERSION_def)

lemma ex_new_fcs_file:
  assumes "f < 256"
  shows "fc_inv (ex_new_fcs f)" "fc_live (ex_new_fcs f) = {}" "fc_file_id (ex_new_fcs f) = f"
    "fc_conflict_count (ex_new_fcs f) = 3"
proof -
  have "fast_conflict_open [47] (int f) 3 None True id True True = (Some (ex_new_fcs f), Some (fc_new_file 3))"
    using assms by (simp add: fast_conflict_open_def fast_conflict_create_file_def ex_new_fcs_def Let_def
        width_simps fc_new_file_def bucket_item_bytes_def)
  from fast_conflict_new_file_inv [OF this]
  show "fc_inv (ex_new_fcs f)" "fc_live (ex_new_fcs f) = {}" "fc_file_id (ex_new_fcs f) = f"
    "fc_conflict_count (ex_new_fcs f) = 3" by simp_all
qed

lemma ex_io_ok: "grow_io_ok ex_io"
  by (simp add: grow_io_ok_def ex_io_def)

lemma ex_write: "fca_write ex_io (ex_key 1) (block_id_set 0 1) 5 (block_id_set 0 2) 6 ex_new_fcs
    = (Some (block_id_set 0 1), ex_fcs)"
proof -
  have "fc_alloc_item ex_io (ex_new_fcs 0) = (Some 1, (ex_new_fcs 0)\<lparr>fc_count := 1\<rparr>)"
    by (simp add: fc_alloc_item_def fc_bump_def ex_new_fcs_def fc_new_file_def fc_get_max_def trunc_def
        fc_record_bytes_def bucket_item_bytes_def width_simps)
  from fc_write_eq [OF ex_new_fcs_file(1) ex_io_ok this]
  show ?thesis
    by (simp add: ex_fcs_def fca_write_def get_fast_conflict_def BUCKET_DATA_MAX_VERSION_def
        ex_new_fcs_file)
qed

lemma ex_free_inv: "fca_inv (\<lambda>_. zero_file bucket_bytes) ex_fks ex_new_fcs"
  using ex_new_fcs_file by (simp add: fca_inv_def zero_file_def item_zero_bytes)

lemma ex_fcs_file:
  shows "f < 256 \<Longrightarrow> fc_inv (ex_fcs f)" "f < 256 \<Longrightarrow> fc_file_id (ex_fcs f) = f" "1 \<in> fc_live (ex_fcs 0)"
    "fc_record (ex_fcs 0) 1 = [fca_item (block_id_set 0 1) 5 item_zero,
       fca_item (block_id_set 0 2) 6 item_zero, item_zero]"
proof -
  have "(\<forall>f<256. fc_inv (ex_fcs f) \<and> fc_file_id (ex_fcs f) = f) \<and> 1 \<in> fc_live (ex_fcs 0)
    \<and> fc_record (ex_fcs 0) 1 = [fca_item (block_id_set 0 1) 5 item_zero,
       fca_item (block_id_set 0 2) 6 item_zero, item_zero]"
  proof (rule fca_write_correct [OF ex_free_inv ex_io_ok block_id_set_wf block_id_set_wf ex_write],
      unfold ex_simps unsigned_0)
    fix i
    assume i: "block_id_set 0 1 = block_id_set 0 i" "i < 4294967296" "i \<in> fc_live (ex_fcs 0)"
      "fc_record (ex_fcs 0) i = fca_item (block_id_set 0 1) 5 item_zero
         # fca_item (block_id_set 0 2) 6 item_zero
         # replicate (fc_conflict_count (ex_new_fcs 0) - 2) item_zero"
      "\<forall>f<256. fc_inv (ex_fcs f) \<and> fc_file_id (ex_fcs f) = f"
    have "i = 1" using i(1,2) by (simp add: block_id_set_def trunc_def)
    moreover have "replicate (fc_conflict_count (ex_new_fcs 0) - 2) item_zero = [item_zero]"
      using ex_new_fcs_file(4) [of 0] by simp
    ultimately show ?thesis using i(3-5) by simp
  qed
  then show "f < 256 \<Longrightarrow> fc_inv (ex_fcs f)" "f < 256 \<Longrightarrow> fc_file_id (ex_fcs f) = f"
    "1 \<in> fc_live (ex_fcs 0)" "fc_record (ex_fcs 0) 1 = [fca_item (block_id_set 0 1) 5 item_zero,
       fca_item (block_id_set 0 2) 6 item_zero, item_zero]" by blast+
qed

lemma ex_rec: "fc_record (ex_fcs 0) 1 = [fca_item (block_id_set 0 1) 5 item_zero,
    fca_item (block_id_set 0 2) 6 item_zero, item_zero]"
  by (rule ex_fcs_file(4))

lemma ex_inv: "fca_inv ex_bks ex_fks ex_fcs"
proof -
  have z: "m_type (bk_item (ex_bks f) n) = BUCKET_CONFLICT_DATA \<longleftrightarrow> f = 0 \<and> n = 0" for f n
    by (simp add: ex_bks_def zero_file_def bucket_write_def item_zero_bytes set_conflict_count_def
        BUCKET_DATA_MAX_VERSION_def)
  have "rec_ok (ex_fks 0) (fc_record (ex_fcs 0) 1)"
    unfolding ex_rec rec_ok_def
    by (auto simp: rec_names_def nth_Cons' ex_fk_get item_zero_def block_id_zero_def split: if_splits)
  then show ?thesis
    unfolding fca_inv_def z
    using ex_fcs_file
    by (auto simp: ex_bks_def bucket_write_def set_conflict_count_def BUCKET_DATA_MAX_VERSION_def
        intro!: bexI [where x = 1] inj_onI)
qed

lemma ex_fca_rec: "fca_rec ex_bks ex_fcs (ex_key i) = [fca_item (block_id_set 0 1) 5 item_zero,
    fca_item (block_id_set 0 2) 6 item_zero, item_zero]"
  using ex_rec by (simp add: fca_rec_def get_fast_conflict_def fca_slot_def ex_bks_def bucket_write_def
      set_conflict_count_def BUCKET_DATA_MAX_VERSION_def block_id_set_def trunc_def)

lemma ex_look:
  "fca_look ex_bks ex_fks ex_fcs (ex_key 1) = Some (block_id_set 0 1, 5)"
  "fca_look ex_bks ex_fks ex_fcs (ex_key 2) = Some (block_id_set 0 2, 6)"
  "fca_look ex_bks ex_fks ex_fcs (ex_key 3) = None"
  unfolding fca_look_eq [OF ex_inv ex_member] ex_fca_rec
  by (simp_all add: rec_look_def rec_names_def ex_fk_get)
    (simp_all add: block_id_set_def trunc_def item_zero_def block_id_zero_def)

section \<open>Properties\<close>

text \<open>C11. The conflict files implement a partial map. For the keys of conflict slots, any
  sequence of \<open>add\<close> and \<open>del\<close> leaves the map in which exactly the calls that returned 0
  took effect: a key that was added is found with its block identifier and the version its
  item represents, a deleted key is not found, and no other key of the same slot, of
  another slot or of another file is affected.\<close>

theorem fast_conflict_refines_map:
  assumes "fca_inv bks fks fcs"
    and "\<And>op. op \<in> set ops \<Longrightarrow> fca_member bks (index_key op)"
    and "\<And>k b v. Index_Put k b v \<in> set ops \<Longrightarrow> fca_names fks k b"
    and "index_run (fca_add (Some bks) fks) (fca_del (Some bks) fks) ops fcs = (rs, fcs')"
    and "fca_member bks k"
  shows "(case fca_get (Some bks) fks fcs' k of (r, b, v) \<Rightarrow> if r = 0 then Some (b, v) else None)
    = index_spec ops rs (fca_look bks fks fcs) k"
proof -
  have "fca_inv bks fks fcs' \<and> (\<forall>k. fca_member bks k \<longrightarrow>
      fca_look bks fks fcs' k = index_spec ops rs (fca_look bks fks fcs) k)"
    by (rule fcidx.run_refines [OF assms(1) _ _ assms(4) refl]) (use assms(2,3) in blast)+
  with assms(5) have "fca_look bks fks fcs' k = index_spec ops rs (fca_look bks fks fcs) k" by blast
  then show ?thesis unfolding fca_look_def [of _ _ fcs'] .
qed

theorem fast_conflict_refines_map_witness:
  "\<exists>rs fcs'. index_run (fca_add (Some ex_bks) ex_fks) (fca_del (Some ex_bks) ex_fks)
       [Index_Del (ex_key 1), Index_Put (ex_key 3) (block_id_set 0 3) 7] ex_fcs = (rs, fcs')
     \<and> (case fca_get (Some ex_bks) ex_fks fcs' (ex_key 2) of (r, b, v) \<Rightarrow>
          if r = 0 then Some (b, v) else None) = Some (block_id_set 0 2, 6)"
proof -
  let ?ops = "[Index_Del (ex_key 1), Index_Put (ex_key 3) (block_id_set 0 3) 7]"
  obtain rs fcs' where run: "index_run (fca_add (Some ex_bks) ex_fks) (fca_del (Some ex_bks) ex_fks)
      ?ops ex_fcs = (rs, fcs')" by force
  have mem: "fca_member ex_bks (index_key op)" if "op \<in> set ?ops" for op
    using that ex_member by auto
  have nms: "fca_names ex_fks k b" if "Index_Put k b v \<in> set ?ops" for k b v
    using that ex_names [of 3] by auto
  have "ex_key 2 \<noteq> ex_key 1" "ex_key 2 \<noteq> ex_key 3"
    by simp_all
  then have "index_spec ?ops rs (fca_look ex_bks ex_fks ex_fcs) (ex_key 2) = Some (block_id_set 0 2, 6)"
    using run ex_look(2) by (auto split: prod.splits)
  moreover have "(case fca_get (Some ex_bks) ex_fks fcs' (ex_key 2) of (r, b, v) \<Rightarrow>
        if r = 0 then Some (b, v) else None) = index_spec ?ops rs (fca_look ex_bks ex_fks ex_fcs) (ex_key 2)"
    by (rule fast_conflict_refines_map [OF ex_inv _ _ run ex_member]) (use mem nms in blast)+
  ultimately show ?thesis using run by auto
qed

text \<open>C28. The return codes are exact. \<open>get\<close> answers with the definitive \<open>ENOENT\<close>, which
  stops the search, exactly when no item names the key and the record holds as many items
  as the slot counts conflicting keys. Provided the record holds no more items than the
  slot counts, \<open>add\<close> refuses a key that is there with \<open>EEXIST\<close>, answers -1, on which the
  caller turns to leveldb, exactly when the key is not there and no item is unused, and
  otherwise stores the key.\<close>

theorem fast_conflict_return_codes:
  assumes "fca_inv bks fks fcs" and "fca_member bks k" and "v \<le> BUCKET_DATA_MAX_VERSION"
    and "length (filter (\<lambda>it. m_data_id (m_block_id it) \<noteq> 0) (fca_rec bks fcs k))
      \<le> get_conflict_count (fca_slot bks k)"
  shows "(fst (fca_get (Some bks) fks fcs k) = ENOENT \<longleftrightarrow> fca_look bks fks fcs k = None
      \<and> get_conflict_count (fca_slot bks k)
        = length (filter (\<lambda>it. m_data_id (m_block_id it) \<noteq> 0) (fca_rec bks fcs k)))
    \<and> fst (fca_add (Some bks) fks k b v fcs) =
      (if fca_look bks fks fcs k \<noteq> None then EEXIST
       else if \<forall>it\<in>set (fca_rec bks fcs k). m_data_id (m_block_id it) \<noteq> 0 then - 1 else 0)"
proof -
  note g = fca_get_eq [OF assms(1,2)] and l = fca_look_eq [OF assms(1,2)]
  have "fst (fca_get (Some bks) fks fcs k) = ENOENT \<longleftrightarrow> fca_look bks fks fcs k = None
      \<and> get_conflict_count (fca_slot bks k)
        = length (filter (\<lambda>it. m_data_id (m_block_id it) \<noteq> 0) (fca_rec bks fcs k))"
    unfolding g l by (simp add: fca_absent_def split: option.split)
  moreover have "\<bar>fst (fca_get (Some bks) fks fcs k)\<bar> = (if fca_look bks fks fcs k \<noteq> None then 0 else ENOENT)"
    using assms(4) unfolding g l by (simp add: fca_absent_def split: option.split)
  then have "fst (fca_add (Some bks) fks k b v fcs) =
      (if fca_look bks fks fcs k \<noteq> None then EEXIST
       else if \<forall>it\<in>set (fca_rec bks fcs k). m_data_id (m_block_id it) \<noteq> 0 then - 1 else 0)"
    using assms(3) fca_first_unused_None [of "fca_rec bks fcs k" 0]
    by (auto simp: fca_add_def fca_open_record_eq [OF assms(1,2)] split: option.splits)
  ultimately show ?thesis by blast
qed

theorem fast_conflict_return_codes_witness:
  "fst (fca_add (Some ex_bks) ex_fks (ex_key 3) (block_id_set 0 3) 7 ex_fcs) = 0
   \<and> fst (fca_add (Some ex_bks) ex_fks (ex_key 2) (block_id_set 0 2) 7 ex_fcs) = EEXIST
   \<and> fst (fca_get (Some ex_bks) ex_fks ex_fcs (ex_key 3)) = ENOENT"
proof -
  have c: "get_conflict_count (fca_slot ex_bks (ex_key i)) = 2" for i
    by (simp add: fca_slot_def ex_bks_def bucket_write_def set_conflict_count_def set_version_def
        get_conflict_count_def BUCKET_DATA_MAX_VERSION_def)
  have u: "filter (\<lambda>it. m_data_id (m_block_id it) \<noteq> 0) (fca_rec ex_bks ex_fcs (ex_key i))
      = [fca_item (block_id_set 0 1) 5 item_zero, fca_item (block_id_set 0 2) 6 item_zero]" for i
    by (simp add: ex_fca_rec block_id_set_def trunc_def item_zero_def block_id_zero_def)
  have v: "7 \<le> BUCKET_DATA_MAX_VERSION" by (simp add: BUCKET_DATA_MAX_VERSION_def)
  have z: "\<not> (\<forall>it\<in>set (fca_rec ex_bks ex_fcs (ex_key 3)). m_data_id (m_block_id it) \<noteq> 0)"
    by (simp add: ex_fca_rec item_zero_def block_id_zero_def)
  note r = fast_conflict_return_codes [OF ex_inv ex_member v, unfolded c u, simplified]
  show ?thesis using r [of 3 "block_id_set 0 3"] r [of 2 "block_id_set 0 2"] z ex_look by simp
qed

text \<open>C14. When a second key arrives at a slot that holds one key directly, \<open>write\<close> creates a
  conflict record and the slot is turned into a conflict slot with its address. Both keys
  are then found with their block identifiers and versions, no third key of the slot is,
  the keys of every other conflict slot are found as before, and the structure stays
  well-formed.\<close>

theorem fast_conflict_split_slot:
  assumes "fca_inv bks fks fcs" and "grow_io_ok io"
    and "length k1 = 16" and "length k2 = 16" and "k2 ! 0 = k1 ! 0" and "key_to_item k2 = key_to_item k1"
    and "k1 \<noteq> k2" and "m_type (fca_slot bks k1) \<noteq> BUCKET_CONFLICT_DATA"
    and "fca_names fks k1 b1" and "fca_names fks k2 b2"
    and "fca_write io k1 b1 v1 b2 v2 fcs = (Some a, fcs')"
    and "m_type it = BUCKET_CONFLICT_DATA" and "m_block_id it = a"
    and "bks' = bks(unat (k1 ! 0) := bucket_write (key_to_item k1) it (bks (unat (k1 ! 0))))"
  shows "fca_inv bks' fks fcs'
    \<and> fca_look bks' fks fcs' k1 = Some (b1, stored_version v1)
    \<and> fca_look bks' fks fcs' k2 = Some (b2, stored_version v2)
    \<and> (\<forall>k. fca_member bks k \<longrightarrow> fca_look bks' fks fcs' k = fca_look bks fks fcs k)
    \<and> (\<forall>k. length k = 16 \<and> k ! 0 = k1 ! 0 \<and> key_to_item k = key_to_item k1 \<and> k \<noteq> k1 \<and> k \<noteq> k2
         \<longrightarrow> fca_look bks' fks fcs' k = None)"
proof -
  let ?f = "unat (k1 ! 0)"
  have b: "block_id_wf b1" "block_id_wf b2" using assms(9,10) by (simp_all add: fca_names_def)
  have fk: "get_fullkey fks k1 = fks ?f" "get_fullkey fks k2 = fks ?f"
    using assms(5) by (simp_all add: get_fullkey_def)
  have ne: "drop 3 k1 \<noteq> drop 3 k2" using slot_suffix_inj [OF assms(3,4)] assms(5-7) by metis
  note pair = rec_look_pair [OF assms(9,10) fk ne refl]
  show ?thesis
  proof (rule fca_write_correct [OF assms(1,2) b assms(11)])
    fix i
    assume i: "a = block_id_set ?f i" "i < 4294967296" "i \<notin> fc_live (fcs ?f)"
      "i \<in> fc_live (fcs' ?f)" "fc_live (fcs ?f) \<subseteq> fc_live (fcs' ?f)"
      and rec: "\<forall>j. j \<noteq> i \<longrightarrow> fc_record (fcs' ?f) j = fc_record (fcs ?f) j"
      and its: "fc_record (fcs' ?f) i = fca_item b1 v1 item_zero # fca_item b2 v2 item_zero
         # replicate (fc_conflict_count (fcs ?f) - 2) item_zero"
      and oth: "\<forall>f. f \<noteq> ?f \<longrightarrow> fcs' f = fcs f" "\<forall>f<256. fc_inv (fcs' f) \<and> fc_file_id (fcs' f) = f"
    have slot: "m_type (bk_item (bks ?f) (key_to_item k1)) \<noteq> BUCKET_CONFLICT_DATA"
      using assms(8) by (simp add: fca_slot_def get_bucket_def)
    note core = fca_split_core [OF assms(1) slot assms(12) assms(13) [unfolded i(1)] i(2-5) rec
        pair(1) [where n = "fc_conflict_count (fcs ?f) - 2", of v1 v2, folded its] oth assms(14)]
    have here: "fca_look bks' fks fcs' k = (if k = k1 then Some (b1, stored_version v1)
        else if k = k2 then Some (b2, stored_version v2) else None)"
      if k: "length k = 16" "k ! 0 = k1 ! 0" "key_to_item k = key_to_item k1" for k
    proof -
      have ss: "same_slot k k1" using k by (simp add: same_slot_def)
      have m: "fca_member bks' k"
        using k(1) ss assms(12,14) by (simp add: fca_member_def fca_slot_write)
      have "drop 3 k = drop 3 k1 \<longleftrightarrow> k = k1" "drop 3 k = drop 3 k2 \<longleftrightarrow> k = k2"
        using slot_suffix_inj [OF k(1) assms(3)] slot_suffix_inj [OF k(1) assms(4)] k assms(5,6) by metis+
      then show ?thesis
        using k(2) by (simp add: fca_look_eq [OF core(1) m] core(3) [OF ss] its pair(2) get_fullkey_def)
    qed
    have "fca_look bks' fks fcs' k = fca_look bks fks fcs k" if "fca_member bks k" for k
      using core(2) [OF that] fca_look_eq [OF core(1), of k] fca_look_eq [OF assms(1) that] by simp
    then show ?thesis
      using core(1) here [of k1] here [of k2] here assms(3-7) by auto
  qed
qed

theorem fast_conflict_split_slot_witness:
  "let it = set_conflict_count 2 (set_type BUCKET_CONFLICT_DATA (item_zero\<lparr>m_block_id := block_id_set 0 1\<rparr>));
       bks = (\<lambda>_. zero_file bucket_bytes);
       bks' = bks(unat (ex_key 1 ! 0) := bucket_write (key_to_item (ex_key 1)) it (bks (unat (ex_key 1 ! 0))))
   in fca_look bks' ex_fks ex_fcs (ex_key 1) = Some (block_id_set 0 1, 5)
      \<and> fca_look bks' ex_fks ex_fcs (ex_key 2) = Some (block_id_set 0 2, 6)
      \<and> fca_look bks' ex_fks ex_fcs (ex_key 3) = None"
proof -
  let ?it = "set_conflict_count 2 (set_type BUCKET_CONFLICT_DATA (item_zero\<lparr>m_block_id := block_id_set 0 1\<rparr>))"
  let ?bks = "\<lambda>_. zero_file bucket_bytes"
  have it: "m_type ?it = BUCKET_CONFLICT_DATA" "m_block_id ?it = block_id_set 0 1"
    by (simp_all add: set_conflict_count_def BUCKET_DATA_MAX_VERSION_def)
  have slot: "m_type (fca_slot ?bks (ex_key 1)) \<noteq> BUCKET_CONFLICT_DATA"
    by (simp add: fca_slot_def get_bucket_def zero_file_def item_zero_bytes)
  have ks: "ex_key 1 \<noteq> ex_key 2" "ex_key 3 \<noteq> ex_key 1" "ex_key 3 \<noteq> ex_key 2" by simp_all
  have h: "length (ex_key 1) = 16" "length (ex_key 2) = 16" "ex_key 2 ! 0 = ex_key 1 ! 0"
    "key_to_item (ex_key 2) = key_to_item (ex_key 1)" by simp_all
  have n: "fca_names ex_fks (ex_key 1) (block_id_set 0 1)" "fca_names ex_fks (ex_key 2) (block_id_set 0 2)"
    using ex_names [of 1] ex_names [of 2] by simp_all
  note r = fast_conflict_split_slot [OF ex_free_inv ex_io_ok h ks(1) slot n ex_write it refl]
  show ?thesis unfolding Let_def using r ks by simp
qed

end
