(* ===== verification/Md5db.thy ===== *)
theory Md5db
  imports Kv_Array Content_Array Fast_Conflict_Array
begin

text \<open>
  The md5db engine (\<open>module/kv/md5db/kv_md5db.cpp\<close>): put, get, exists and del over the
  buckets, the key files, the value files, the two conflict stores and the leveldb
  array. The locks, the performance counters and the count of conflicts per size are
  not modelled. \<open>m_inner\<close> and the key file of a bucket are never null once the engine is
  open, so the branches for null pointers are left out.
\<close>

section \<open>State\<close>

record query_ctxt_t =
  qc_tbkey :: bytes
  qc_table_len :: nat
  qc_wttl :: nat
  qc_rttl :: nat

definition query_ctxt_reset :: query_ctxt_t where
  "query_ctxt_reset = \<lparr>qc_tbkey = [], qc_table_len = 0, qc_wttl = 0, qc_rttl = 0\<rparr>"

record 'd md5db =
  md_buckets :: "nat \<Rightarrow> bucket_t"
  md_fullkeys :: "nat \<Rightarrow> fullkey_t"
  md_contents :: content_array_t
  md_fast_conflicts :: "nat \<Rightarrow> fast_conflict_t"
  md_conflicts :: "'d kv_leveldb_t list"
  md_data :: "'d kv_array_t"
  md_query_ctxts :: "nat \<Rightarrow> query_ctxt_t"
  md_now :: nat

text \<open>
  What the engine is given: leveldb and the MD5 function, and the outcomes of the file
  operations and of the allocation of the value buffer during one request.
\<close>

record 'd md5db_env =
  e_ldb :: "'d leveldb"
  e_md5 :: "bytes \<Rightarrow> bytes"
  e_contents :: "nat \<Rightarrow> content_io"
  e_fullkey :: grow_io
  e_fast :: grow_io
  e_alloc :: bool

definition MAX_KEY_LEN :: nat where
  [width_simps]: "MAX_KEY_LEN = 16777215"

definition MAX_VAL_LEN :: nat where
  [width_simps]: "MAX_VAL_LEN = 267386880"

abbreviation (input) ZSET_TB :: byte where "ZSET_TB \<equiv> 124"
abbreviation (input) ZSET_SCORE_LEN :: nat where "ZSET_SCORE_LEN \<equiv> 21"

definition md_item :: "'d md5db \<Rightarrow> bytes \<Rightarrow> bucket_data_item_t" where
  "md_item md k = bk_item (get_bucket (md_buckets md) k) (key_to_item k)"

definition md_set_item :: "bytes \<Rightarrow> bucket_data_item_t \<Rightarrow> 'd md5db \<Rightarrow> 'd md5db" where
  "md_set_item k it md = md\<lparr>md_buckets := (md_buckets md)(unat (k ! 0) :=
     bucket_write (key_to_item k) it (get_bucket (md_buckets md) k))\<rparr>"

definition md_fk :: "'d md5db \<Rightarrow> bytes \<Rightarrow> fullkey_t" where
  "md_fk md k = get_fullkey (md_fullkeys md) k"

definition md_set_fk :: "bytes \<Rightarrow> fullkey_t \<Rightarrow> 'd md5db \<Rightarrow> 'd md5db" where
  "md_set_fk k fk md = md\<lparr>md_fullkeys := (md_fullkeys md)(unat (k ! 0) := fk)\<rparr>"

definition md_ctxt :: "'d md5db \<Rightarrow> conn_ctxt_t \<Rightarrow> query_ctxt_t" where
  "md_ctxt md conn = md_query_ctxts md (worker_id conn)"

definition md_upd_ctxt :: "conn_ctxt_t \<Rightarrow> query_ctxt_t \<Rightarrow> 'd md5db \<Rightarrow> 'd md5db" where
  "md_upd_ctxt conn qc md = md\<lparr>md_query_ctxts := (md_query_ctxts md)(worker_id conn := qc)\<rparr>"

section \<open>Keys and versions\<close>

definition check_user_key :: "bytes \<Rightarrow> bool" where
  "check_user_key user_key \<longleftrightarrow> \<not> (length user_key = 0 \<or> length user_key > MAX_KEY_LEN)"

definition add_version :: "nat \<Rightarrow> nat" where
  "add_version ver = (if ver < BUCKET_DATA_MAX_VERSION then ver + 1 else 1)"

definition binlog_version_valid :: "nat \<Rightarrow> nat \<Rightarrow> bool" where
  "binlog_version_valid user_version cur_version =
     (if user_version \<ge> cur_version then True
      else if (BUCKET_DATA_MAX_VERSION + UINT32_MOD - cur_version) mod UINT32_MOD \<le> 100000
              \<and> user_version \<le> 100000
      then True else False)"

definition user_key_to_inner :: "'d md5db_env \<Rightarrow> bytes \<Rightarrow> bytes" where
  "user_key_to_inner E user_key = (if user_key = [] then replicate 16 0 else e_md5 E user_key)"

definition set_inner_ttl :: "nat \<Rightarrow> conn_ctxt_t \<Rightarrow> 'd md5db \<Rightarrow> 'd md5db" where
  "set_inner_ttl ttl conn md = md_upd_ctxt conn ((md_ctxt md conn)\<lparr>qc_wttl := ttl\<rparr>) md"

definition get_inner_ttl :: "conn_ctxt_t \<Rightarrow> 'd md5db \<Rightarrow> nat" where
  "get_inner_ttl conn md = qc_rttl (md_ctxt md conn)"

definition set_inner_table :: "bytes option \<Rightarrow> byte \<Rightarrow> bytes option \<Rightarrow> conn_ctxt_t \<Rightarrow> 'd md5db \<Rightarrow> 'd md5db" where
  "set_inner_table table ty added conn md =
     (let qc = (md_ctxt md conn)\<lparr>qc_tbkey := [], qc_table_len := 0\<rparr>;
          qc' = (case table of
                   None \<Rightarrow> qc
                 | Some t \<Rightarrow>
                     if length t > 0
                     then (let a = (case added of None \<Rightarrow> [] | Some s \<Rightarrow> takeWhile (\<lambda>c. c \<noteq> 0) s)
                           in qc\<lparr>qc_tbkey := t @ [ty] @ a, qc_table_len := length t + 1 + length a\<rparr>)
                     else qc)
      in md_upd_ctxt conn qc' md)"

definition get_inner_tbkey :: "bytes \<Rightarrow> conn_ctxt_t \<Rightarrow> 'd md5db \<Rightarrow> bytes \<times> 'd md5db" where
  "get_inner_tbkey key conn md =
     (let qc = md_ctxt md conn in
      if key = [] \<or> qc_tbkey qc = [] then (key, md)
      else if qc_table_len qc = length (qc_tbkey qc)
      then (qc_tbkey qc @ key, md_upd_ctxt conn (qc\<lparr>qc_tbkey := qc_tbkey qc @ key\<rparr>) md)
      else (qc_tbkey qc, md))"

text \<open>The table part of the key, and the file a key is hashed to.\<close>

definition md_table :: "conn_ctxt_t \<Rightarrow> 'd md5db \<Rightarrow> bytes" where
  "md_table conn md = take (qc_table_len (md_ctxt md conn)) (qc_tbkey (md_ctxt md conn))"

definition md_hash :: "conn_ctxt_t \<Rightarrow> bytes \<Rightarrow> 'd md5db \<Rightarrow> errno \<times> item_ctxt_t" where
  "md_hash conn inner_key md =
     (let qc = md_ctxt md conn in
      if qc_tbkey qc = [] then hash_with_md5db inner_key (md_data md)
      else if qc_table_len qc > ZSET_SCORE_LEN
              \<and> qc_tbkey qc ! (qc_table_len qc - ZSET_SCORE_LEN - 1) = ZSET_TB
      then hash_with_md5db (take (qc_table_len qc - ZSET_SCORE_LEN) (qc_tbkey qc)) (md_data md)
      else hash_with_md5db (md_table conn md) (md_data md))"

section \<open>Values\<close>

text \<open>
  A stored value is the user's value, the user's key and a descriptor. \<open>md_value\<close> builds
  it and leaves the descriptor in the item context.
\<close>

definition md_kv_data :: "conn_ctxt_t \<Rightarrow> bytes \<Rightarrow> item_ctxt_t \<Rightarrow> 'd md5db \<Rightarrow> kv_data_item_t" where
  "md_kv_data conn user_key ctxt md =
     (ic_kv_data ctxt)\<lparr>kd_user_key_len := trunc 24 (length user_key), kd_compress_type := compress_type conn,
       kd_ttl := qc_wttl (md_ctxt md conn), kd_timestamp := trunc 32 (md_now md)\<rparr>"

definition md_value ::
  "conn_ctxt_t \<Rightarrow> bytes \<Rightarrow> bytes \<Rightarrow> item_ctxt_t \<Rightarrow> 'd md5db \<Rightarrow> bytes \<times> item_ctxt_t" where
  "md_value conn user_key val ctxt md =
     (let kd = md_kv_data conn user_key ctxt md
      in (val @ user_key @ kv_data_bytes kd, ctxt\<lparr>ic_kv_data := kd\<rparr>))"

definition add_data_to_content_db ::
  "'d md5db_env \<Rightarrow> conn_ctxt_t \<Rightarrow> bytes \<Rightarrow> block_id_t \<Rightarrow> bytes \<Rightarrow> bytes \<Rightarrow> item_ctxt_t \<Rightarrow> 'd md5db
   \<Rightarrow> errno \<times> item_ctxt_t \<times> 'd md5db" where
  "add_data_to_content_db E conn k block_id user_key val ctxt md =
     (if \<not> e_alloc E then (ENOMEM, ctxt, md)
      else let (value, ctxt1) = md_value conn user_key val ctxt md;
               (h, ca) = ca_write (e_contents E) value (md_contents md);
               md1 = md\<lparr>md_contents := ca\<rparr>
           in case h of
                None \<Rightarrow> (EFAULT, ctxt1, md1)
              | Some (file_id, data_id) \<Rightarrow>
                  if data_id = 0 then (EFAULT, ctxt1, md1)
                  else let (b, fk) = fk_set_content_id block_id
                                       (content_id_set (trunc 8 file_id) data_id (trunc 32 (length value))) (md_fk md1 k)
                       in if \<not> b then (EFAULT, ctxt1, md1)
                          else let md2 = md_set_fk k fk md1;
                                   (r, ctxt2, ka) = put_from_md5db (e_ldb E) (e_md5 E) block_id (file_of_ctxt ctxt1)
                                      (md_table conn md2) [] (qc_wttl (md_ctxt md2 conn)) ctxt1 (md_data md2)
                               in (r, ctxt2, md2\<lparr>md_data := ka\<rparr>))"

definition set_data_to_content_db ::
  "'d md5db_env \<Rightarrow> conn_ctxt_t \<Rightarrow> bytes \<Rightarrow> block_id_t \<Rightarrow> bytes \<Rightarrow> bytes \<Rightarrow> item_ctxt_t \<Rightarrow> 'd md5db
   \<Rightarrow> errno \<times> item_ctxt_t \<times> 'd md5db" where
  "set_data_to_content_db E conn k block_id user_key val ctxt md =
     (case fk_get_content_id (md_fk md k) block_id of
        None \<Rightarrow> (EFAULT, ctxt, md)
      | Some cid \<Rightarrow>
          if content_data_len cid = 0 then (EFAULT, ctxt, md)
          else if \<not> e_alloc E then (ENOMEM, ctxt, md)
          else let (value, ctxt1) = md_value conn user_key val ctxt md;
                   (b, data_id, ca) = ca_update (e_contents E) (content_file_id cid) (content_data_id cid)
                                        (content_data_len cid) value (md_contents md);
                   md1 = md\<lparr>md_contents := ca\<rparr>
               in if \<not> b then (EFAULT, ctxt1, md1)
                  else let (b', fk) = fk_set_content_id block_id
                             (content_id_set (content_file_id cid) data_id (trunc 32 (length value))) (md_fk md1 k)
                       in if \<not> b' then (EFAULT, ctxt1, md1) else (0, ctxt1, md_set_fk k fk md1))"

definition set_data_to_kv_array ::
  "'d md5db_env \<Rightarrow> conn_ctxt_t \<Rightarrow> block_id_t \<Rightarrow> bytes \<Rightarrow> bytes \<Rightarrow> item_ctxt_t \<Rightarrow> 'd md5db
   \<Rightarrow> errno \<times> item_ctxt_t \<times> 'd md5db" where
  "set_data_to_kv_array E conn block_id user_key val ctxt md =
     (if \<not> e_alloc E then (ENOMEM, ctxt, md)
      else let (value, ctxt1) = md_value conn user_key val ctxt md;
               (r, ctxt2, ka) = put_from_md5db (e_ldb E) (e_md5 E) block_id (file_of_ctxt ctxt1)
                                  (md_table conn md) value (qc_wttl (md_ctxt md conn)) ctxt1 (md_data md)
           in (r, ctxt2, md\<lparr>md_data := ka\<rparr>))"

definition set_data ::
  "'d md5db_env \<Rightarrow> conn_ctxt_t \<Rightarrow> bytes \<Rightarrow> block_id_t \<Rightarrow> bytes \<Rightarrow> bytes \<Rightarrow> item_ctxt_t \<Rightarrow> 'd md5db
   \<Rightarrow> errno \<times> item_ctxt_t \<times> 'd md5db" where
  "set_data E conn k block_id user_key val ctxt md =
     (if ca_ok (md_contents md) then set_data_to_content_db E conn k block_id user_key val ctxt md
      else set_data_to_kv_array E conn block_id user_key val ctxt md)"

text \<open>Storing the value of a new key.\<close>

definition add_data ::
  "'d md5db_env \<Rightarrow> conn_ctxt_t \<Rightarrow> bytes \<Rightarrow> block_id_t \<Rightarrow> bytes \<Rightarrow> bytes \<Rightarrow> item_ctxt_t \<Rightarrow> 'd md5db
   \<Rightarrow> errno \<times> item_ctxt_t \<times> 'd md5db" where
  "add_data E conn k block_id user_key val ctxt md =
     (if ca_ok (md_contents md) then add_data_to_content_db E conn k block_id user_key val ctxt md
      else set_data_to_kv_array E conn block_id user_key val ctxt md)"

text \<open>
  Taking a stored value apart, shared by the two ways of reading it. A null \<open>rsp\<close> is \<open>None\<close>.
\<close>

definition md_check_value ::
  "conn_ctxt_t \<Rightarrow> bytes \<Rightarrow> bytes \<Rightarrow> item_ctxt_t \<Rightarrow> 'd md5db
   \<Rightarrow> errno \<times> bytes option \<times> item_ctxt_t \<times> 'd md5db" where
  "md_check_value conn user_key rsp ctxt md =
     (if length rsp \<le> 12 then (EFAULT, Some rsp, ctxt, md)
      else let kd = kv_data_of_bytes (drop (length rsp - 12) rsp);
               ctxt1 = ctxt\<lparr>ic_kv_data := kd\<rparr>;
               md1 = md_upd_ctxt conn ((md_ctxt md conn)\<lparr>qc_rttl := kd_ttl kd\<rparr>) md
           in if kd_user_key_len kd = 0 \<or> length user_key \<noteq> kd_user_key_len kd
                 \<or> length rsp < 12 + length user_key
              then (EFAULT, Some rsp, ctxt1, md1)
              else if take (length user_key) (drop (length rsp - 12 - length user_key) rsp) \<noteq> user_key
              then (EFAULT, Some rsp, ctxt1, md1)
              else (0, Some (take (length rsp - 12 - length user_key) rsp), ctxt1, md1))"

definition get_data_from_content_db ::
  "'d md5db_env \<Rightarrow> conn_ctxt_t \<Rightarrow> bytes \<Rightarrow> block_id_t \<Rightarrow> bytes \<Rightarrow> item_ctxt_t \<Rightarrow> 'd md5db
   \<Rightarrow> errno \<times> bytes option \<times> item_ctxt_t \<times> 'd md5db" where
  "get_data_from_content_db E conn k block_id user_key ctxt md =
     (case fk_get_content_id (md_fk md k) block_id of
        None \<Rightarrow> (EFAULT, None, ctxt, md)
      | Some cid \<Rightarrow>
          if content_data_len cid = 0 then (EFAULT, None, ctxt, md)
          else if \<not> e_alloc E then (EFAULT, Some [], ctxt, md)
          else case ca_get (e_contents E) (content_file_id cid) (content_data_id cid)
                      (content_data_len cid) (md_contents md) of
                 None \<Rightarrow> (EFAULT, Some [], ctxt, md)
               | Some rsp \<Rightarrow> md_check_value conn user_key rsp ctxt md)"

definition get_data_from_kv_array ::
  "'d md5db_env \<Rightarrow> conn_ctxt_t \<Rightarrow> block_id_t \<Rightarrow> bytes \<Rightarrow> item_ctxt_t \<Rightarrow> 'd md5db
   \<Rightarrow> errno \<times> bytes option \<times> item_ctxt_t \<times> 'd md5db" where
  "get_data_from_kv_array E conn block_id user_key ctxt md =
     (case get_from_md5db (e_ldb E) (e_md5 E) block_id (file_of_ctxt ctxt) (md_table conn md) ctxt (md_data md) of
        (r, rsp, ctxt1) \<Rightarrow>
          if r \<noteq> 0 then (r, rsp, ctxt1, md)
          else case rsp of
                 None \<Rightarrow> (EFAULT, None, ctxt1, md)
               | Some v \<Rightarrow> md_check_value conn user_key v ctxt1 md)"

definition get_data ::
  "'d md5db_env \<Rightarrow> conn_ctxt_t \<Rightarrow> bytes \<Rightarrow> block_id_t \<Rightarrow> bytes \<Rightarrow> item_ctxt_t \<Rightarrow> 'd md5db
   \<Rightarrow> errno \<times> bytes option \<times> item_ctxt_t \<times> 'd md5db" where
  "get_data E conn k block_id user_key ctxt md =
     (if ca_ok (md_contents md) then get_data_from_content_db E conn k block_id user_key ctxt md
      else get_data_from_kv_array E conn block_id user_key ctxt md)"

section \<open>Conflicting keys\<close>

definition get_conflict_block_id :: "'d md5db_env \<Rightarrow> bytes \<Rightarrow> 'd md5db \<Rightarrow> errno \<times> block_id_t \<times> nat" where
  "get_conflict_block_id E k md =
     (case fca_get (Some (md_buckets md)) (md_fullkeys md) (md_fast_conflicts md) k of
        (r, b, v) \<Rightarrow>
          if r = 0 then (0, b, v) else if r > 0 then (r, b, v)
          else cfa_get (e_ldb E) (e_md5 E) (md_conflicts md) k)"

definition check_same_key :: "bytes \<Rightarrow> block_id_t \<Rightarrow> 'd md5db \<Rightarrow> errno" where
  "check_same_key k block_id md = (if fk_compare (md_fk md k) block_id k then 0 else 1)"

text \<open>A slot that held one key directly gets a second one.\<close>

definition add_conflict_data ::
  "'d md5db_env \<Rightarrow> conn_ctxt_t \<Rightarrow> bytes \<Rightarrow> bytes \<Rightarrow> bytes \<Rightarrow> nat \<Rightarrow> bool \<Rightarrow> item_ctxt_t \<Rightarrow> 'd md5db
   \<Rightarrow> errno \<times> nat \<times> item_ctxt_t \<times> 'd md5db" where
  "add_conflict_data E conn k user_key val user_version from_binlog ctxt md =
     (if \<not> from_binlog \<and> user_version \<noteq> 0 then (EINVAL, 0, ctxt, md)
      else let item = md_item md k;
               first_block_id = m_block_id item;
               first_version = version item
           in case fk_get (md_fk md k) first_block_id of
                None \<Rightarrow> (EFAULT, 0, ctxt, md)
              | Some suffix \<Rightarrow>
                  (case fk_write (e_fullkey E) k (md_fk md k) of
                     (None, fk) \<Rightarrow> (EFAULT, 0, ctxt, md_set_fk k fk md)
                   | (Some second_block_id, fk) \<Rightarrow>
                       let md1 = md_set_fk k fk md;
                           ver = (if \<not> from_binlog then 1 else user_version);
                           (addr, fcs) = fca_write (e_fast E) (take 3 k @ suffix) first_block_id first_version
                                           second_block_id ver (md_fast_conflicts md1);
                           md2 = md1\<lparr>md_fast_conflicts := fcs\<rparr>
                       in case addr of
                            None \<Rightarrow> (EFAULT, 0, ctxt, md_set_fk k (snd (fk_del second_block_id (md_fk md2 k))) md2)
                          | Some fast_conflict_addr \<Rightarrow>
                              (case add_data E conn k second_block_id user_key val ctxt md2 of
                                 (r, ctxt1, md3) \<Rightarrow>
                                   if r \<noteq> 0 then (r, 0, ctxt1, md3)
                                   else (0, ver, ctxt1, md_set_item k (set_type BUCKET_CONFLICT_DATA
                                          ((set_conflict_count 2 (md_item md3 k))\<lparr>m_block_id := fast_conflict_addr\<rparr>)) md3))))"

definition new_data ::
  "'d md5db_env \<Rightarrow> conn_ctxt_t \<Rightarrow> bytes \<Rightarrow> bytes \<Rightarrow> bytes \<Rightarrow> nat \<Rightarrow> bool \<Rightarrow> item_ctxt_t \<Rightarrow> 'd md5db
   \<Rightarrow> errno \<times> nat \<times> item_ctxt_t \<times> 'd md5db" where
  "new_data E conn k user_key val user_version from_binlog ctxt md =
     (if \<not> from_binlog \<and> user_version \<noteq> 0 then (EINVAL, 0, ctxt, md)
      else case fk_write (e_fullkey E) k (md_fk md k) of
             (None, fk) \<Rightarrow> (EFAULT, 0, ctxt, md_set_fk k fk md)
           | (Some block_id, fk) \<Rightarrow>
               (case add_data E conn k block_id user_key val ctxt (md_set_fk k fk md) of
                  (r, ctxt1, md1) \<Rightarrow>
                    if r \<noteq> 0 then (r, 0, ctxt1, md_set_fk k (snd (fk_del block_id (md_fk md1 k))) md1)
                    else let item = set_version (if \<not> from_binlog then 1 else user_version)
                                      (set_type BUCKET_DIRECT_DATA ((md_item md1 k)\<lparr>m_block_id := block_id\<rparr>))
                         in (0, version item, ctxt1, md_set_item k item md1)))"

text \<open>
  The search that replacing and deleting share: the conflict record of the slot, and
  leveldb when the record does not decide. The flag tells which of the two holds the key.
\<close>

definition md_find_conflict :: "'d md5db_env \<Rightarrow> bytes \<Rightarrow> 'd md5db \<Rightarrow> errno \<times> block_id_t \<times> nat \<times> bool" where
  "md_find_conflict E k md =
     (case fca_get (Some (md_buckets md)) (md_fullkeys md) (md_fast_conflicts md) k of
        (r, b, v) \<Rightarrow>
          if r = 0 then (0, b, v, True)
          else if r > 0 then (r, b, v, False)
          else (case cfa_get (e_ldb E) (e_md5 E) (md_conflicts md) k of (r', b', v') \<Rightarrow> (r', b', v', False)))"

text \<open>A key that is not there yet joins the conflicting keys of its slot.\<close>

definition set_conflict_new ::
  "'d md5db_env \<Rightarrow> conn_ctxt_t \<Rightarrow> bytes \<Rightarrow> bytes \<Rightarrow> bytes \<Rightarrow> nat \<Rightarrow> bool \<Rightarrow> item_ctxt_t \<Rightarrow> 'd md5db
   \<Rightarrow> errno \<times> nat \<times> item_ctxt_t \<times> 'd md5db" where
  "set_conflict_new E conn k user_key val user_version from_binlog ctxt md =
     (if \<not> from_binlog \<and> user_version \<noteq> 0 then (EINVAL, 0, ctxt, md)
      else case fk_write (e_fullkey E) k (md_fk md k) of
             (None, fk) \<Rightarrow> (EFAULT, 0, ctxt, md_set_fk k fk md)
           | (Some block_id, fk) \<Rightarrow>
               (case add_data E conn k block_id user_key val ctxt (md_set_fk k fk md) of
                  (r, ctxt1, md1) \<Rightarrow>
                    if r \<noteq> 0 then (r, 0, ctxt1, md_set_fk k (snd (fk_del block_id (md_fk md1 k))) md1)
                    else let ver = (if from_binlog then user_version else 1);
                             (r1, fcs) = fca_add (Some (md_buckets md1)) (md_fullkeys md1) k block_id ver
                                           (md_fast_conflicts md1);
                             md2 = md1\<lparr>md_fast_conflicts := fcs\<rparr>
                         in if r1 > 0 then (EFAULT, ver, ctxt1, md2)
                            else let (r2, md3) =
                                       (if r1 = 0 then (0, md2)
                                        else (case cfa_put (e_ldb E) (e_md5 E) k block_id ver (md_conflicts md2) of
                                                (r', cs) \<Rightarrow> (r', md2\<lparr>md_conflicts := cs\<rparr>)))
                                 in if r2 \<noteq> 0 then (r2, 0, ctxt1, md3)
                                    else let ctxt2 = ctxt1\<lparr>ic_kv_type := NEW_KV\<rparr>;
                                             (b, item) = add_conflict_count (md_item md3 k)
                                         in if \<not> b then (EFAULT, ver, ctxt2, md3)
                                            else (0, ver, ctxt2, md_set_item k item md3)))"

definition set_conflict_data ::
  "'d md5db_env \<Rightarrow> conn_ctxt_t \<Rightarrow> bytes \<Rightarrow> bytes \<Rightarrow> bytes \<Rightarrow> nat \<Rightarrow> bool \<Rightarrow> item_ctxt_t \<Rightarrow> 'd md5db
   \<Rightarrow> errno \<times> nat \<times> item_ctxt_t \<times> 'd md5db" where
  "set_conflict_data E conn k user_key val user_version from_binlog ctxt md =
     (case md_find_conflict E k md of
        (r, block_id, cur, in_fast) \<Rightarrow>
          if r \<noteq> 0 then
            if r \<noteq> ENOENT then (r, cur, ctxt, md)
            else set_conflict_new E conn k user_key val user_version from_binlog ctxt md
          else if user_version \<noteq> 0 \<and> \<not> from_binlog \<and> user_version \<noteq> cur
          then (EINVAL, cur, ctxt\<lparr>ic_is_version_error := True\<rparr>, md)
          else if user_version \<noteq> 0 \<and> from_binlog \<and> \<not> binlog_version_valid user_version cur
          then (0, cur, ctxt\<lparr>ic_is_version_error := True\<rparr>, md)
          else (case set_data E conn k block_id user_key val ctxt md of
                  (r1, ctxt1, md1) \<Rightarrow>
                    if r1 \<noteq> 0 then (r1, cur, ctxt1, md1)
                    else let t = (if \<not> from_binlog then add_version cur else user_version);
                             (r2, md2) =
                               (if in_fast
                                then (case fca_update (Some (md_buckets md1)) (md_fullkeys md1) k block_id t
                                             (md_fast_conflicts md1) of
                                        (r', fcs) \<Rightarrow> (r', md1\<lparr>md_fast_conflicts := fcs\<rparr>))
                                else (case cfa_put (e_ldb E) (e_md5 E) k block_id t (md_conflicts md1) of
                                        (r', cs) \<Rightarrow> (r', md1\<lparr>md_conflicts := cs\<rparr>)))
                         in if r2 \<noteq> 0 then (r2, cur, ctxt1, md2) else (0, t, ctxt1, md2)))"

section \<open>Reading\<close>

definition md5db_exists :: "'d md5db_env \<Rightarrow> bytes \<Rightarrow> conn_ctxt_t \<Rightarrow> 'd md5db \<Rightarrow> errno \<times> nat \<times> 'd md5db" where
  "md5db_exists E user_key conn md =
     (if \<not> check_user_key user_key then (EINVAL, 0, md)
      else let (new_user_key, md1) = get_inner_tbkey user_key conn md;
               k = user_key_to_inner E new_user_key
           in case bucket_find (get_bucket (md_buckets md1) k) k of
                (r, None) \<Rightarrow> (if r = 0 then EFAULT else r, 0, md1)
              | (r, Some _) \<Rightarrow>
                  let item = md_item md1 k in
                  if m_type item = BUCKET_DIRECT_DATA then
                    if check_same_key k (m_block_id item) md1 = 0 then (0, version item, md1) else (ENOENT, 0, md1)
                  else if m_type item = BUCKET_CONFLICT_DATA then
                    (case get_conflict_block_id E k md1 of
                       (r1, b, v) \<Rightarrow> (if r1 \<noteq> 0 \<and> r1 \<noteq> ENOENT then EFAULT else r1, v, md1))
                  else if m_type item = BUCKET_NO_DATA then (ENOENT, 0, md1)
                  else (EFAULT, 0, md1))"

definition md5db_get ::
  "'d md5db_env \<Rightarrow> bytes \<Rightarrow> conn_ctxt_t \<Rightarrow> 'd md5db
   \<Rightarrow> errno \<times> nat \<times> bytes option \<times> item_ctxt_t option \<times> 'd md5db" where
  "md5db_get E user_key conn md =
     (if \<not> check_user_key user_key then (EINVAL, 0, None, None, md)
      else let (new_user_key, md1) = get_inner_tbkey user_key conn md;
               k = user_key_to_inner E new_user_key;
               (r, ctxt) = md_hash conn k md1
           in if r < 0 then (r, 0, None, Some ctxt, md1)
              else case bucket_find (get_bucket (md_buckets md1) k) k of
                (r, None) \<Rightarrow> (if r = 0 then EFAULT else r, 0, None, Some ctxt, md1)
              | (r, Some _) \<Rightarrow>
                  let item = md_item md1 k in
                  if m_type item = BUCKET_DIRECT_DATA then
                    if check_same_key k (m_block_id item) md1 = 0
                    then (case get_data E conn k (m_block_id item) user_key ctxt md1 of
                            (r1, rsp, ctxt1, md2) \<Rightarrow> (r1, version item, rsp, Some ctxt1, md2))
                    else (ENOENT, 0, None, Some ctxt, md1)
                  else if m_type item = BUCKET_CONFLICT_DATA then
                    (case get_conflict_block_id E k md1 of
                       (r1, b, v) \<Rightarrow>
                         if r1 \<noteq> 0 then (if r1 \<noteq> ENOENT then EFAULT else r1, v, None, Some ctxt, md1)
                         else (case get_data E conn k b user_key ctxt md1 of
                                 (r2, rsp, ctxt1, md2) \<Rightarrow>
                                   (if r2 = ENOENT then EFAULT else r2, v, rsp, Some ctxt1, md2)))
                  else if m_type item = BUCKET_NO_DATA then (ENOENT, 0, None, Some ctxt, md1)
                  else (EFAULT, 0, None, Some ctxt, md1))"

section \<open>Deleting\<close>

definition del_conflict_block_id ::
  "'d md5db_env \<Rightarrow> bytes \<Rightarrow> nat \<Rightarrow> bool \<Rightarrow> item_ctxt_t \<Rightarrow> 'd md5db
   \<Rightarrow> errno \<times> block_id_t \<times> content_id_t \<times> nat \<times> item_ctxt_t \<times> 'd md5db" where
  "del_conflict_block_id E k user_version from_binlog ctxt md =
     (case md_find_conflict E k md of
        (r, block_id, cur, in_fast) \<Rightarrow>
          if r \<noteq> 0 then (r, block_id, content_id_zero, cur, ctxt, md)
          else if user_version \<noteq> 0 \<and> \<not> from_binlog \<and> user_version \<noteq> cur
          then (EINVAL, block_id, content_id_zero, cur, ctxt\<lparr>ic_is_version_error := True\<rparr>, md)
          else if user_version \<noteq> 0 \<and> from_binlog \<and> \<not> binlog_version_valid user_version cur
          then (0, block_id, content_id_zero, cur, ctxt\<lparr>ic_is_version_error := True\<rparr>, md)
          else let md1 = (if in_fast
                          then md\<lparr>md_fast_conflicts := snd (fca_del (Some (md_buckets md)) (md_fullkeys md) k
                                                          (md_fast_conflicts md))\<rparr>
                          else md\<lparr>md_conflicts := snd (cfa_del (e_ldb E) k (md_conflicts md))\<rparr>);
                   cid = (case fk_get_content_id (md_fk md1 k) block_id of
                            None \<Rightarrow> content_id_zero | Some c \<Rightarrow> c);
                   md2 = md_set_fk k (snd (fk_del block_id (md_fk md1 k))) md1;
                   (count, item) = dec_conflict_count (md_item md2 k);
                   item' = (if count = 0 then set_type BUCKET_NO_DATA item else item)
               in (0, block_id, cid, cur, ctxt, md_set_item k item' md2))"

definition delete_conflict_data ::
  "'d md5db_env \<Rightarrow> conn_ctxt_t \<Rightarrow> bytes \<Rightarrow> nat \<Rightarrow> bool \<Rightarrow> item_ctxt_t \<Rightarrow> 'd md5db
   \<Rightarrow> errno \<times> nat \<times> item_ctxt_t \<times> 'd md5db" where
  "delete_conflict_data E conn k user_version from_binlog ctxt md =
     (case del_conflict_block_id E k user_version from_binlog ctxt md of
        (r, block_id, cid, ver, ctxt1, md1) \<Rightarrow>
          if r \<noteq> 0 then (r, ver, ctxt1, md1)
          else let ctxt2 = ctxt1\<lparr>ic_kv_data := (ic_kv_data ctxt1)\<lparr>kd_ttl := content_data_len cid\<rparr>\<rparr>;
                   (b, md2) = (if ca_ok (md_contents md1)
                               then (case ca_del (e_contents E) (content_file_id cid) (content_data_id cid)
                                            (content_data_len cid) (md_contents md1) of
                                       (b, ca) \<Rightarrow> (b, md1\<lparr>md_contents := ca\<rparr>))
                               else (True, md1))
               in if \<not> b then (EFAULT, ver, ctxt2, md2)
                  else (case del_from_md5db (e_ldb E) block_id (file_of_ctxt ctxt2) (md_table conn md2) ctxt2
                               (md_data md2) of
                          (r1, ctxt3, ka) \<Rightarrow> (r1, ver, ctxt3, md2\<lparr>md_data := ka\<rparr>)))"

text \<open>A null context is \<open>None\<close>.\<close>

definition delete_direct_data ::
  "'d md5db_env \<Rightarrow> conn_ctxt_t \<Rightarrow> bytes \<Rightarrow> block_id_t \<Rightarrow> item_ctxt_t \<Rightarrow> 'd md5db
   \<Rightarrow> errno \<times> item_ctxt_t option \<times> 'd md5db" where
  "delete_direct_data E conn k block_id ctxt md =
     (let (b, ctxt1, md1) =
            (if ca_ok (md_contents md)
             then (case fk_get_content_id (md_fk md k) block_id of
                     None \<Rightarrow> (False, ctxt, md)
                   | Some cid \<Rightarrow>
                       if content_data_len cid = 0 then (False, ctxt, md)
                       else (case ca_del (e_contents E) (content_file_id cid) (content_data_id cid)
                                    (content_data_len cid) (md_contents md) of
                               (b, ca) \<Rightarrow>
                                 (b, ctxt\<lparr>ic_kv_data := (ic_kv_data ctxt)\<lparr>kd_ttl := content_data_len cid\<rparr>\<rparr>,
                                  md\<lparr>md_contents := ca\<rparr>)))
             else (True, ctxt, md))
      in if \<not> b then (EFAULT, Some ctxt1, md1)
         else let (b', fk) = fk_del block_id (md_fk md1 k); md2 = md_set_fk k fk md1
              in if \<not> b' then (EFAULT, None, md2)
                 else (case del_from_md5db (e_ldb E) block_id (file_of_ctxt ctxt1) (md_table conn md2) ctxt1
                              (md_data md2) of
                         (r, ctxt2, ka) \<Rightarrow> (r, Some ctxt2, md2\<lparr>md_data := ka\<rparr>)))"

text \<open>
  \<open>del_inner\<close> with the context the caller passes, which the early returns leave as it is.
\<close>

definition del_direct ::
  "'d md5db_env \<Rightarrow> conn_ctxt_t \<Rightarrow> bytes \<Rightarrow> nat \<Rightarrow> bool \<Rightarrow> item_ctxt_t \<Rightarrow> 'd md5db
   \<Rightarrow> errno \<times> nat \<times> item_ctxt_t option \<times> 'd md5db" where
  "del_direct E conn k user_version from_binlog ctxt md =
     (let item = md_item md k; cur = version item in
      if check_same_key k (m_block_id item) md \<noteq> 0 then (ENOENT, 0, Some ctxt, md)
      else if user_version \<noteq> 0 \<and> \<not> from_binlog \<and> user_version \<noteq> cur
      then (EINVAL, cur, Some (ctxt\<lparr>ic_is_version_error := True\<rparr>), md)
      else if user_version \<noteq> 0 \<and> from_binlog \<and> \<not> binlog_version_valid user_version cur
      then (0, cur, Some (ctxt\<lparr>ic_is_version_error := True\<rparr>), md)
      else (case delete_direct_data E conn k (m_block_id item) ctxt md of
              (r, ctxt1, md1) \<Rightarrow>
                if r \<noteq> 0 then (if r = ENOENT then EFAULT else r, cur, ctxt1, md1)
                else (0, cur, ctxt1, md_set_item k (set_type BUCKET_NO_DATA
                                       ((md_item md1 k)\<lparr>m_block_id := block_id_zero\<rparr>)) md1)))"

definition del_inner ::
  "'d md5db_env \<Rightarrow> bytes \<Rightarrow> nat \<Rightarrow> conn_ctxt_t \<Rightarrow> bool \<Rightarrow> item_ctxt_t option \<Rightarrow> 'd md5db
   \<Rightarrow> errno \<times> nat \<times> item_ctxt_t option \<times> 'd md5db" where
  "del_inner E user_key user_version conn from_binlog ctxt0 md =
     (if user_version > BUCKET_DATA_MAX_VERSION then (EINVAL, 0, ctxt0, md)
      else if \<not> check_user_key user_key then (EINVAL, 0, ctxt0, md)
      else let (new_user_key, md1) = get_inner_tbkey user_key conn md;
               k = user_key_to_inner E new_user_key;
               (r, ctxt) = md_hash conn k md1
           in if r < 0 then (r, 0, Some ctxt, md1)
              else case bucket_find (get_bucket (md_buckets md1) k) k of
                (r, None) \<Rightarrow> (if r = 0 then EFAULT else r, 0, Some ctxt, md1)
              | (r, Some _) \<Rightarrow>
                  let t = m_type (md_item md1 k) in
                  if t = BUCKET_DIRECT_DATA then del_direct E conn k user_version from_binlog ctxt md1
                  else if t = BUCKET_CONFLICT_DATA then
                    (case delete_conflict_data E conn k user_version from_binlog ctxt md1 of
                       (r1, ver, ctxt1, md2) \<Rightarrow> (r1, ver, Some ctxt1, md2))
                  else if t = BUCKET_NO_DATA then (ENOENT, 0, Some ctxt, md1)
                  else (EFAULT, 0, Some ctxt, md1))"

definition md5db_del ::
  "'d md5db_env \<Rightarrow> bytes \<Rightarrow> nat \<Rightarrow> bool \<Rightarrow> conn_ctxt_t \<Rightarrow> item_ctxt_t option \<Rightarrow> 'd md5db
   \<Rightarrow> errno \<times> nat \<times> item_ctxt_t option \<times> 'd md5db" where
  "md5db_del E user_key user_version is_dup conn ctxt0 md =
     del_inner E user_key user_version conn is_dup ctxt0 md"

section \<open>Writing\<close>

text \<open>The branch of \<open>put_inner\<close> for a slot that holds one key.\<close>

definition put_direct ::
  "'d md5db_env \<Rightarrow> conn_ctxt_t \<Rightarrow> bytes \<Rightarrow> bytes \<Rightarrow> bytes \<Rightarrow> nat \<Rightarrow> bool \<Rightarrow> item_ctxt_t \<Rightarrow> 'd md5db
   \<Rightarrow> errno \<times> nat \<times> item_ctxt_t \<times> 'd md5db" where
  "put_direct E conn k user_key val user_version from_binlog ctxt md =
     (let item = md_item md k; cur = version item in
      if check_same_key k (m_block_id item) md = 0 then
        if user_version \<noteq> 0 \<and> \<not> from_binlog \<and> user_version \<noteq> cur
        then (EINVAL, cur, ctxt\<lparr>ic_is_version_error := True\<rparr>, md)
        else if user_version \<noteq> 0 \<and> from_binlog \<and> \<not> binlog_version_valid user_version cur
        then (0, cur, ctxt\<lparr>ic_is_version_error := True\<rparr>, md)
        else (case set_data E conn k (m_block_id item) user_key val ctxt md of
                (r, ctxt1, md1) \<Rightarrow>
                  if r \<noteq> 0 then (r, version (md_item md1 k), ctxt1, md1)
                  else let ver = (if \<not> from_binlog then add_version (version (md_item md1 k)) else user_version);
                           md2 = md_set_item k (set_version ver (md_item md1 k)) md1
                       in if ver = 0 then (EFAULT, ver, ctxt1, md2) else (0, ver, ctxt1, md2))
      else (case add_conflict_data E conn k user_key val user_version from_binlog ctxt md of
              (r, ver, ctxt1, md1) \<Rightarrow>
                if r \<noteq> 0 then (r, ver, ctxt1, md1)
                else if ver = 0 then (EFAULT, ver, ctxt1, md1)
                else (0, ver, ctxt1\<lparr>ic_kv_type := NEW_KV\<rparr>, md1)))"

text \<open>
  What \<open>put_inner\<close> does with the result of \<open>set_conflict_data\<close> and \<open>new_data\<close>: a version
  error of a binlog request is not an error.
\<close>

definition put_result ::
  "bool \<Rightarrow> bool \<Rightarrow> errno \<times> nat \<times> item_ctxt_t \<times> 'd md5db \<Rightarrow> errno \<times> nat \<times> item_ctxt_t \<times> 'd md5db" where
  "put_result from_binlog is_new res =
     (case res of
        (r, ver, ctxt, md) \<Rightarrow>
          if r = 0 then
            if ver = 0 then (EFAULT, ver, ctxt, md)
            else (0, ver, if is_new then ctxt\<lparr>ic_kv_type := NEW_KV\<rparr> else ctxt, md)
          else if ic_is_version_error ctxt \<and> from_binlog then (0, ver, ctxt, md)
          else (r, ver, ctxt, md))"

text \<open>What \<open>put_inner\<close> does with the slot, by its type.\<close>

definition put_slot ::
  "'d md5db_env \<Rightarrow> conn_ctxt_t \<Rightarrow> bytes \<Rightarrow> bytes \<Rightarrow> bytes \<Rightarrow> nat \<Rightarrow> bool \<Rightarrow> item_ctxt_t \<Rightarrow> 'd md5db
   \<Rightarrow> errno \<times> nat \<times> item_ctxt_t \<times> 'd md5db" where
  "put_slot E conn k user_key val user_version from_binlog ctxt md =
     (let t = m_type (md_item md k) in
      if t = BUCKET_DIRECT_DATA then put_direct E conn k user_key val user_version from_binlog ctxt md
      else if t = BUCKET_CONFLICT_DATA
      then put_result from_binlog False (set_conflict_data E conn k user_key val user_version from_binlog ctxt md)
      else if t = BUCKET_NO_DATA
      then put_result from_binlog True (new_data E conn k user_key val user_version from_binlog ctxt md)
      else (EFAULT, 0, ctxt, md))"

definition put_inner ::
  "'d md5db_env \<Rightarrow> bytes \<Rightarrow> bytes \<Rightarrow> nat \<Rightarrow> conn_ctxt_t \<Rightarrow> bool \<Rightarrow> 'd md5db
   \<Rightarrow> errno \<times> nat \<times> item_ctxt_t option \<times> 'd md5db" where
  "put_inner E user_key val user_version conn from_binlog md =
     (if user_version > BUCKET_DATA_MAX_VERSION then (EINVAL, 0, None, md)
      else if from_binlog \<and> user_version = 0 then (EINVAL, 0, None, md)
      else if \<not> check_user_key user_key \<or> length user_key + length val > MAX_VAL_LEN
      then (EINVAL, 0, None, md)
      else let (new_user_key, md1) = get_inner_tbkey user_key conn md;
               k = user_key_to_inner E new_user_key;
               (r, ctxt) = md_hash conn k md1
           in if r \<noteq> 0 then (r, 0, Some ctxt, md1)
              else case bucket_find (get_bucket (md_buckets md1) k) k of
                (r, None) \<Rightarrow> (if r = 0 then EFAULT else r, 0, Some ctxt, md1)
              | (r, Some _) \<Rightarrow>
                  (case put_slot E conn k user_key val user_version from_binlog ctxt md1 of
                     (r1, ver, ctxt1, md2) \<Rightarrow> (r1, ver, Some ctxt1, md2)))"

definition md5db_put ::
  "'d md5db_env \<Rightarrow> bytes \<Rightarrow> bytes \<Rightarrow> nat \<Rightarrow> bool \<Rightarrow> conn_ctxt_t \<Rightarrow> 'd md5db
   \<Rightarrow> errno \<times> nat \<times> item_ctxt_t option \<times> 'd md5db" where
  "md5db_put E user_key val user_version is_dup conn md =
     (case put_inner E user_key val user_version conn is_dup md of
        (r, ver, ctxt, md1) \<Rightarrow>
          (if r \<noteq> 0 \<and> (case ctxt of None \<Rightarrow> False | Some c \<Rightarrow> ic_is_version_error c) \<and> is_dup then 0 else r,
           ver, ctxt, md1))"

end
