(* ===== verification/Md5db_Index.thy ===== *)
theory Md5db_Index
  imports Md5db
begin

text \<open>
  The index of the md5db engine: the slots, the key files, the conflict files and the
  leveldb conflict store together locate the record of a digest. The invariant of the
  index, what a lookup returns under it, and the effect of every update the engine makes.
\<close>

section \<open>Locating a digest\<close>

definition md_names :: "'d md5db \<Rightarrow> bytes \<Rightarrow> block_id_t \<Rightarrow> bool" where
  "md_names md k b \<longleftrightarrow> (\<exists>i\<in>fk_live (md_fk md k). b = block_id_set (unat (k ! 0)) i
     \<and> m_md5_suffix (fk_data (md_fk md k) i) = drop 3 k)"

definition md_fast :: "'d md5db \<Rightarrow> bytes \<Rightarrow> (block_id_t \<times> nat) option" where
  "md_fast md k = fca_look (md_buckets md) (md_fullkeys md) (md_fast_conflicts md) k"

definition md_slow :: "'d md5db_env \<Rightarrow> 'd md5db \<Rightarrow> bytes \<Rightarrow> (block_id_t \<times> nat) option" where
  "md_slow E md k = cfa_look (e_ldb E) (e_md5 E) (md_conflicts md) k"

definition md_loc :: "'d md5db_env \<Rightarrow> 'd md5db \<Rightarrow> bytes \<Rightarrow> (block_id_t \<times> nat) option" where
  "md_loc E md k =
     (let item = md_item md k in
      if m_type item = BUCKET_DIRECT_DATA
      then (if fk_get (md_fk md k) (m_block_id item) = Some (drop 3 k)
            then Some (m_block_id item, version item) else None)
      else if m_type item = BUCKET_CONFLICT_DATA
      then (case md_fast md k of Some e \<Rightarrow> Some e | None \<Rightarrow> md_slow E md k)
      else None)"

text \<open>The digests of the slot of \<open>k\<close> that are located.\<close>

definition md_slot_keys :: "'d md5db_env \<Rightarrow> 'd md5db \<Rightarrow> bytes \<Rightarrow> bytes set" where
  "md_slot_keys E md k = {k'. length k' = 16 \<and> same_slot k' k \<and> md_loc E md k' \<noteq> None}"

definition cfa_answers :: "'d leveldb \<Rightarrow> (bytes \<Rightarrow> bytes) \<Rightarrow> 'd kv_leveldb_t list \<Rightarrow> bool" where
  "cfa_answers L md5 cs \<longleftrightarrow> (\<forall>k. length k = 16 \<longrightarrow> cfa_look L md5 cs k = None \<longrightarrow>
     cfa_get L md5 cs k = (ENOENT, block_id_zero, 0))"

text \<open>What holds of one slot.\<close>

definition md_slot_ok :: "'d md5db_env \<Rightarrow> 'd md5db \<Rightarrow> bytes \<Rightarrow> bool" where
  "md_slot_ok E md k \<longleftrightarrow>
     (m_type (md_item md k) = BUCKET_DIRECT_DATA \<longrightarrow>
        (\<exists>k'. length k' = 16 \<and> same_slot k' k \<and> md_names md k' (m_block_id (md_item md k))))
     \<and> (m_type (md_item md k) = BUCKET_CONFLICT_DATA \<longrightarrow>
          (\<forall>it\<in>set (fca_rec (md_buckets md) (md_fast_conflicts md) k). m_data_id (m_block_id it) \<noteq> 0 \<longrightarrow>
             (\<exists>k'. length k' = 16 \<and> same_slot k' k \<and> md_names md k' (m_block_id it)))
          \<and> get_conflict_count (md_item md k) = card (md_slot_keys E md k)
          \<and> card (md_slot_keys E md k) < 64)
     \<and> (\<forall>b v. md_slow E md k = Some (b, v) \<longrightarrow>
          m_type (md_item md k) = BUCKET_CONFLICT_DATA \<and> md_names md k b \<and> md_fast md k = None)
     \<and> m_type (md_item md k) \<le> BUCKET_CONFLICT_DATA"

definition md_index_inv :: "'d md5db_env \<Rightarrow> ('d \<Rightarrow> bytes \<Rightarrow> bytes option) \<Rightarrow> 'd md5db \<Rightarrow> bool" where
  "md_index_inv E contents md \<longleftrightarrow>
     (\<forall>f<256. fk_inv (md_fullkeys md f) \<and> fk_file_id (md_fullkeys md f) = f)
     \<and> fca_inv (md_buckets md) (md_fullkeys md) (md_fast_conflicts md)
     \<and> cfa_inv (e_ldb E) (e_md5 E) contents (md_conflicts md)
     \<and> cfa_answers (e_ldb E) (e_md5 E) (md_conflicts md)
     \<and> (\<forall>k. length k = 16 \<longrightarrow> md_slot_ok E md k)
     \<and> (\<forall>k k' b v v'. length k = 16 \<and> length k' = 16 \<and> md_loc E md k = Some (b, v)
          \<and> md_loc E md k' = Some (b, v') \<longrightarrow> k' = k)"

section \<open>Basic facts\<close>

lemma md_item_slot: "md_item md k = fca_slot (md_buckets md) k"
  by (simp add: md_item_def fca_slot_def)

lemma md_member_iff:
  "fca_member (md_buckets md) k \<longleftrightarrow> length k = 16 \<and> m_type (md_item md k) = BUCKET_CONFLICT_DATA"
  by (simp add: fca_member_def md_item_slot)

lemma same_slot_refl [simp]: "same_slot k k"
  by (simp add: same_slot_def)

lemma same_slot_sym: "same_slot k k' \<Longrightarrow> same_slot k' k"
  by (simp add: same_slot_def)

lemma same_slot_trans: "same_slot a b \<Longrightarrow> same_slot b c \<Longrightarrow> same_slot a c"
  by (simp add: same_slot_def)

lemma same_slot_item:
  assumes "same_slot k' k"
  shows "md_item md k' = md_item md k" "md_fk md k' = md_fk md k"
    "fca_rec bks fcs k' = fca_rec bks fcs k" "k' ! 0 = k ! 0" "key_to_item k' = key_to_item k"
  using assms by (simp_all add: same_slot_def md_item_def md_fk_def get_fullkey_def get_bucket_def
      fca_rec_def get_fast_conflict_def fca_slot_def)

lemma same_slot_eqI: "same_slot k' k \<Longrightarrow> length k' = 16 \<Longrightarrow> length k = 16 \<Longrightarrow> drop 3 k' = drop 3 k \<Longrightarrow> k' = k"
  unfolding same_slot_def using slot_suffix_inj by blast

lemma md_index_invD:
  assumes "md_index_inv E contents md"
  shows "fk_inv (md_fk md k)" "fk_file_id (md_fk md k) = unat (k ! 0)"
    "fca_inv (md_buckets md) (md_fullkeys md) (md_fast_conflicts md)"
    "cfa_inv (e_ldb E) (e_md5 E) contents (md_conflicts md)"
    "cfa_answers (e_ldb E) (e_md5 E) (md_conflicts md)"
    "length k = 16 \<Longrightarrow> md_slot_ok E md k"
    "length k = 16 \<Longrightarrow> length k' = 16 \<Longrightarrow> md_loc E md k = Some (b, v) \<Longrightarrow> md_loc E md k' = Some (b, v')
      \<Longrightarrow> k' = k"
proof -
  have "unat (k ! 0) < 256" by simp
  then show "fk_inv (md_fk md k)" "fk_file_id (md_fk md k) = unat (k ! 0)"
    using assms unfolding md_index_inv_def md_fk_def get_fullkey_def by blast+
qed (use assms in \<open>auto simp: md_index_inv_def\<close>)

lemma md_index_invI:
  assumes "\<forall>f<256. fk_inv (md_fullkeys md f) \<and> fk_file_id (md_fullkeys md f) = f"
    "fca_inv (md_buckets md) (md_fullkeys md) (md_fast_conflicts md)"
    "cfa_inv (e_ldb E) (e_md5 E) contents (md_conflicts md)"
    "cfa_answers (e_ldb E) (e_md5 E) (md_conflicts md)"
    "\<And>k. length k = 16 \<Longrightarrow> md_slot_ok E md k"
    "\<And>k k' b v v'. length k = 16 \<Longrightarrow> length k' = 16 \<Longrightarrow> md_loc E md k = Some (b, v) \<Longrightarrow>
      md_loc E md k' = Some (b, v') \<Longrightarrow> k' = k"
  shows "md_index_inv E contents md"
  using assms unfolding md_index_inv_def by blast

lemma md_names_fca:
  assumes "md_index_inv E contents md" "md_names md k b"
  shows "fca_names (md_fullkeys md) k b" "fk_get (md_fk md k) b = Some (drop 3 k)" "m_data_id b \<noteq> 0"
proof -
  obtain i where i: "i \<in> fk_live (md_fk md k)" "b = block_id_set (unat (k ! 0)) i"
      "m_md5_suffix (fk_data (md_fk md k) i) = drop 3 k"
    using assms(2) by (auto simp: md_names_def)
  note d = md_index_invD(1,2) [OF assms(1), of k]
  show g: "fk_get (md_fk md k) b = Some (drop 3 k)"
    using fk_parse_live [OF d(1) i(1)] d(2) i(2,3) by (simp add: fk_get_def)
  then show "fca_names (md_fullkeys md) k b"
    by (simp add: fca_names_def i(2) block_id_set_wf) (simp add: md_fk_def)
  show "m_data_id b \<noteq> 0" by (rule fk_get_data_id [OF g])
qed

text \<open>A block identifier names one suffix only.\<close>

lemma md_names_unique:
  assumes "md_index_inv E contents md" "md_names md k b" "md_names md k' b"
  shows "k' ! 0 = k ! 0" "drop 3 k' = drop 3 k"
proof -
  have "unat (k' ! 0) = unat (k ! 0)"
    using assms(2,3) by (auto simp: md_names_def block_id_set_def trunc_def)
  then show z: "k' ! 0 = k ! 0" by (rule byte_eqI)
  then have "md_fk md k' = md_fk md k" by (simp add: md_fk_def get_fullkey_def)
  then show "drop 3 k' = drop 3 k"
    using md_names_fca(2) [OF assms(1,2)] md_names_fca(2) [OF assms(1,3)] by simp
qed

section \<open>Lookups\<close>

lemma md_slot_okD:
  assumes "md_index_inv E contents md" "length k = 16"
  shows "m_type (md_item md k) = BUCKET_DIRECT_DATA \<Longrightarrow>
      \<exists>k'. length k' = 16 \<and> same_slot k' k \<and> md_names md k' (m_block_id (md_item md k))"
    "m_type (md_item md k) = BUCKET_CONFLICT_DATA \<Longrightarrow>
      it \<in> set (fca_rec (md_buckets md) (md_fast_conflicts md) k) \<Longrightarrow> m_data_id (m_block_id it) \<noteq> 0 \<Longrightarrow>
      \<exists>k'. length k' = 16 \<and> same_slot k' k \<and> md_names md k' (m_block_id it)"
    "m_type (md_item md k) = BUCKET_CONFLICT_DATA \<Longrightarrow>
      get_conflict_count (md_item md k) = card (md_slot_keys E md k)"
    "m_type (md_item md k) = BUCKET_CONFLICT_DATA \<Longrightarrow> card (md_slot_keys E md k) < 64"
    "md_slow E md k = Some (b, v) \<Longrightarrow>
      m_type (md_item md k) = BUCKET_CONFLICT_DATA \<and> md_names md k b \<and> md_fast md k = None"
    "m_type (md_item md k) \<le> BUCKET_CONFLICT_DATA"
  using md_index_invD(6) [OF assms] unfolding md_slot_ok_def by blast+

lemma md_direct:
  assumes inv: "md_index_inv E contents md" and k: "length k = 16"
    and t: "m_type (md_item md k) = BUCKET_DIRECT_DATA"
  obtains k1 where "length k1 = 16" "same_slot k1 k" "md_names md k1 (m_block_id (md_item md k))"
    "\<forall>k'. length k' = 16 \<and> same_slot k' k \<longrightarrow> md_loc E md k' =
       (if k' = k1 then Some (m_block_id (md_item md k), version (md_item md k)) else None)"
proof -
  obtain k1 where k1: "length k1 = 16" "same_slot k1 k" "md_names md k1 (m_block_id (md_item md k))"
    using md_slot_okD(1) [OF inv k t] by blast
  have "md_loc E md k' = (if k' = k1 then Some (m_block_id (md_item md k), version (md_item md k)) else None)"
    if k': "length k' = 16" "same_slot k' k" for k'
  proof -
    have ss: "same_slot k' k1" using k'(2) k1(2) same_slot_sym same_slot_trans by blast
    have "fk_get (md_fk md k') (m_block_id (md_item md k)) = Some (drop 3 k1)"
      using md_names_fca(2) [OF inv k1(3)] same_slot_item(2) [OF ss, of md] by simp
    moreover have "drop 3 k1 = drop 3 k' \<longleftrightarrow> k' = k1" using same_slot_eqI [OF ss k'(1) k1(1)] by auto
    ultimately show ?thesis
      using t by (simp add: md_loc_def Let_def same_slot_item(1) [OF k'(2)])
  qed
  then show thesis using that k1 by blast
qed

lemma md_fast_eq:
  assumes "md_index_inv E contents md" "length k = 16" "m_type (md_item md k) = BUCKET_CONFLICT_DATA"
  shows "md_fast md k = rec_look (md_fk md k) (drop 3 k) (fca_rec (md_buckets md) (md_fast_conflicts md) k)"
  using fca_look_eq [OF md_index_invD(3) [OF assms(1)]] assms(2,3)
  by (simp add: md_fast_def md_member_iff md_fk_def)

lemma md_rec_ok:
  assumes "md_index_inv E contents md" "length k = 16" "m_type (md_item md k) = BUCKET_CONFLICT_DATA"
  shows "rec_ok (md_fk md k) (fca_rec (md_buckets md) (md_fast_conflicts md) k)"
  using fca_member_record [OF md_index_invD(3) [OF assms(1)], of k] assms(2,3)
  by (metis md_member_iff md_fk_def)

text \<open>Used items of a conflict record and the keys that they locate.\<close>

lemma md_fast_item:
  assumes inv: "md_index_inv E contents md" and k: "length k = 16"
    and t: "m_type (md_item md k) = BUCKET_CONFLICT_DATA"
    and it: "it \<in> set (fca_rec (md_buckets md) (md_fast_conflicts md) k)" "m_data_id (m_block_id it) \<noteq> 0"
  obtains k' where "length k' = 16" "same_slot k' k" "md_names md k' (m_block_id it)"
    "md_fast md k' = Some (m_block_id it, version it)" "md_loc E md k' = Some (m_block_id it, version it)"
proof -
  obtain k' where k': "length k' = 16" "same_slot k' k" "md_names md k' (m_block_id it)"
    using md_slot_okD(2) [OF inv k t it] by blast
  have t': "m_type (md_item md k') = BUCKET_CONFLICT_DATA" using t by (simp add: same_slot_item(1) [OF k'(2)])
  have "rec_names (md_fk md k') (drop 3 k') it"
    using md_names_fca(2,3) [OF inv k'(3)] by (simp add: rec_names_def)
  then have "md_fast md k' = Some (m_block_id it, version it)"
    using it(1) rec_look_Some_iff [OF md_rec_ok [OF inv k'(1) t']]
    by (auto simp: md_fast_eq [OF inv k'(1) t'] in_set_conv_nth same_slot_item(3) [OF k'(2)])
  moreover from this have "md_loc E md k' = Some (m_block_id it, version it)" using t' by (simp add: md_loc_def)
  ultimately show thesis using that k' by blast
qed

lemma md_fast_names:
  assumes inv: "md_index_inv E contents md" and k: "length k = 16"
    and t: "m_type (md_item md k) = BUCKET_CONFLICT_DATA" and f: "md_fast md k = Some (b, v)"
  shows "md_names md k b"
proof -
  let ?its = "fca_rec (md_buckets md) (md_fast_conflicts md) k"
  obtain i where i: "i < length ?its" "rec_names (md_fk md k) (drop 3 k) (?its ! i)" "b = m_block_id (?its ! i)"
    using f rec_look_Some_iff [OF md_rec_ok [OF inv k t]] by (auto simp: md_fast_eq [OF inv k t])
  have it: "?its ! i \<in> set ?its" "m_data_id (m_block_id (?its ! i)) \<noteq> 0"
    using i by (auto simp: rec_names_def)
  obtain k' where k': "length k' = 16" "same_slot k' k" "md_names md k' b"
    using md_slot_okD(2) [OF inv k t it] i(3) by blast
  have "fk_get (md_fk md k) b = Some (drop 3 k)" using i(2,3) by (simp add: rec_names_def)
  then have "drop 3 k' = drop 3 k"
    using md_names_fca(2) [OF inv k'(3)] same_slot_item(2) [OF k'(2), of md] by simp
  then show ?thesis using same_slot_eqI [OF k'(2,1) k] k'(3) by simp
qed

lemma md_loc_names:
  assumes inv: "md_index_inv E contents md" and k: "length k = 16" and l: "md_loc E md k = Some (b, v)"
  shows "md_names md k b"
    "m_type (md_item md k) = BUCKET_DIRECT_DATA \<or> m_type (md_item md k) = BUCKET_CONFLICT_DATA"
proof -
  show t: "m_type (md_item md k) = BUCKET_DIRECT_DATA \<or> m_type (md_item md k) = BUCKET_CONFLICT_DATA"
    using l by (auto simp: md_loc_def Let_def split: if_splits)
  show "md_names md k b"
  proof (cases "m_type (md_item md k) = BUCKET_DIRECT_DATA")
    case True
    obtain k1 where k1: "md_names md k1 (m_block_id (md_item md k))"
      "\<forall>k'. length k' = 16 \<and> same_slot k' k \<longrightarrow> md_loc E md k' =
         (if k' = k1 then Some (m_block_id (md_item md k), version (md_item md k)) else None)"
      using md_direct [OF inv k True] by metis
    have "md_loc E md k = (if k = k1 then Some (m_block_id (md_item md k), version (md_item md k)) else None)"
      using k1(2) k by simp
    then show ?thesis using l k1(1) by (auto split: if_splits)
  next
    case False
    with t have c: "m_type (md_item md k) = BUCKET_CONFLICT_DATA" by simp
    show ?thesis
    proof (cases "md_fast md k")
      case None
      then have "md_slow E md k = Some (b, v)" using l c by (simp add: md_loc_def)
      then show ?thesis using md_slot_okD(5) [OF inv k] by blast
    next
      case (Some e)
      then show ?thesis using md_fast_names [OF inv k c] l c by (simp add: md_loc_def)
    qed
  qed
qed

lemma finite_digests: "finite {k :: bytes. length k = 16 \<and> P k}"
  by (rule finite_subset [OF _ finite_lists_length_eq [of "UNIV :: byte set" 16]]) auto

lemma finite_slot_keys [simp]: "finite (md_slot_keys E md k)"
  unfolding md_slot_keys_def by (rule finite_digests)

lemma md_used_le:
  assumes inv: "md_index_inv E contents md" and k: "length k = 16"
    and t: "m_type (md_item md k) = BUCKET_CONFLICT_DATA"
  shows "length (filter (\<lambda>it. m_data_id (m_block_id it) \<noteq> 0) (fca_rec (md_buckets md) (md_fast_conflicts md) k))
    \<le> card {k'. length k' = 16 \<and> same_slot k' k \<and> md_fast md k' \<noteq> None}"
proof -
  let ?its = "fca_rec (md_buckets md) (md_fast_conflicts md) k"
  let ?I = "{i. i < length ?its \<and> m_data_id (m_block_id (?its ! i)) \<noteq> 0}"
  let ?K = "{k'. length k' = 16 \<and> same_slot k' k \<and> md_fast md k' \<noteq> None}"
  have "\<exists>k'. k' \<in> ?K \<and> md_names md k' (m_block_id (?its ! i))" if "i \<in> ?I" for i
  proof -
    have "?its ! i \<in> set ?its" "m_data_id (m_block_id (?its ! i)) \<noteq> 0" using that by simp_all
    from md_fast_item [OF inv k t this] obtain k' where "length k' = 16" "same_slot k' k"
      "md_names md k' (m_block_id (?its ! i))" "md_fast md k' = Some (m_block_id (?its ! i), version (?its ! i))"
      by blast
    then show ?thesis by (intro exI [of _ k']) simp
  qed
  then have "\<forall>i\<in>?I. \<exists>k'. k' \<in> ?K \<and> md_names md k' (m_block_id (?its ! i))" by blast
  from bchoice [OF this] obtain g where
    g: "\<And>i. i \<in> ?I \<Longrightarrow> g i \<in> ?K \<and> md_names md (g i) (m_block_id (?its ! i))" by blast
  have "inj_on g ?I"
  proof (rule inj_onI)
    fix i j assume ij: "i \<in> ?I" "j \<in> ?I" "g i = g j"
    have "rec_names (md_fk md k) (drop 3 (g x)) (?its ! x)" if "x \<in> ?I" for x
      using md_names_fca(2) [OF inv, of "g x"] g [OF that] that same_slot_item(2) [of "g x" k md]
      by (simp add: rec_names_def)
    from this [OF ij(1)] this [OF ij(2)] show "i = j"
      using md_rec_ok [OF inv k t] ij unfolding rec_ok_def by auto
  qed
  moreover have "g ` ?I \<subseteq> ?K" using g by blast
  ultimately have "card ?I \<le> card ?K" by (rule card_inj_on_le) (rule finite_digests)
  then show ?thesis by (simp add: length_filter_conv_card)
qed

lemma md_fast_get:
  assumes inv: "md_index_inv E contents md" and k: "length k = 16"
    and t: "m_type (md_item md k) = BUCKET_CONFLICT_DATA"
  shows "case md_fast md k of
      Some (b, v) \<Rightarrow> fca_get (Some (md_buckets md)) (md_fullkeys md) (md_fast_conflicts md) k = (0, b, v)
    | None \<Rightarrow> \<exists>r. fca_get (Some (md_buckets md)) (md_fullkeys md) (md_fast_conflicts md) k = (r, block_id_zero, 0)
        \<and> (r = ENOENT \<and> md_slow E md k = None \<or> r < 0)"
proof -
  let ?its = "fca_rec (md_buckets md) (md_fast_conflicts md) k"
  let ?n = "length (filter (\<lambda>it. m_data_id (m_block_id it) \<noteq> 0) ?its)"
  have m: "fca_member (md_buckets md) k" using k t by (simp add: md_member_iff)
  note g = fca_get_eq [OF md_index_invD(3) [OF inv] m, folded md_fk_def, folded md_fast_eq [OF inv k t]]
  have "get_conflict_count (fca_slot (md_buckets md) k) \<noteq> ?n" if "md_fast md k = None" "md_slow E md k \<noteq> None"
  proof -
    let ?K = "{k'. length k' = 16 \<and> same_slot k' k \<and> md_fast md k' \<noteq> None}"
    have "insert k ?K \<subseteq> md_slot_keys E md k"
      using that k t by (auto simp: md_slot_keys_def md_loc_def Let_def same_slot_item(1) split: option.splits)
    then have "card (insert k ?K) \<le> card (md_slot_keys E md k)" by (intro card_mono) simp_all
    moreover have "card (insert k ?K) = Suc (card ?K)" using that(1) finite_digests by (subst card_insert_disjoint) auto
    ultimately show ?thesis
      using md_slot_okD(3) [OF inv k t] md_used_le [OF inv k t] by (simp add: md_item_slot)
  qed
  then show ?thesis
    unfolding g by (cases "md_slow E md k") (auto simp: fca_absent_def split: option.splits)
qed

lemma md_slow_get:
  assumes "md_index_inv E contents md" "length k = 16"
  shows "cfa_get (e_ldb E) (e_md5 E) (md_conflicts md) k =
    (case md_slow E md k of Some (b, v) \<Rightarrow> (0, b, v) | None \<Rightarrow> (ENOENT, block_id_zero, 0))"
proof (cases "md_slow E md k")
  case None
  then show ?thesis using md_index_invD(5) [OF assms(1)] assms(2) by (simp add: cfa_answers_def md_slow_def)
next
  case (Some e)
  then show ?thesis by (auto simp: md_slow_def cfa_look_def split: prod.splits if_splits)
qed

text \<open>The two searches the engine makes in a conflict slot.\<close>

lemma md_find_conflict_eq:
  assumes "md_index_inv E contents md" "length k = 16" "m_type (md_item md k) = BUCKET_CONFLICT_DATA"
  shows "md_find_conflict E k md =
    (case md_fast md k of
       Some (b, v) \<Rightarrow> (0, b, v, True)
     | None \<Rightarrow> (case md_slow E md k of
          Some (b, v) \<Rightarrow> (0, b, v, False) | None \<Rightarrow> (ENOENT, block_id_zero, 0, False)))"
  using md_fast_get [OF assms] unfolding md_find_conflict_def md_slow_get [OF assms(1,2)]
  by (auto split: option.splits)

lemma get_conflict_block_id_eq:
  assumes "md_index_inv E contents md" "length k = 16" "m_type (md_item md k) = BUCKET_CONFLICT_DATA"
  shows "get_conflict_block_id E k md =
    (case md_loc E md k of Some (b, v) \<Rightarrow> (0, b, v) | None \<Rightarrow> (ENOENT, block_id_zero, 0))"
  using md_fast_get [OF assms] assms(3) unfolding get_conflict_block_id_def md_slow_get [OF assms(1,2)] md_loc_def
  by (auto split: option.splits)

lemma check_same_key_eq:
  assumes "length k = 16" "m_type (md_item md k) = BUCKET_DIRECT_DATA"
  shows "check_same_key k (m_block_id (md_item md k)) md = 0 \<longleftrightarrow> md_loc E md k \<noteq> None"
    "md_loc E md k = Some e \<Longrightarrow> e = (m_block_id (md_item md k), version (md_item md k))"
  using assms by (auto simp: check_same_key_def md_loc_def fk_compare_get Let_def split: if_splits)

section \<open>Changes of the key files\<close>

lemma slot_key_exists:
  assumes "f < 256" "n < bucket_item_count"
  shows "\<exists>k. length k = 16 \<and> unat (k ! 0) = f \<and> key_to_item k = n"
proof -
  define k where "k = [byte_of f, byte_of (n div 4096), byte_of (n div 16 mod 256), byte_of (16 * (n mod 16))]
    @ replicate 12 (0 :: byte)"
  have b: "n div 4096 < 256" "16 * (n mod 16) < 256" using assms(2) by (simp_all add: width_simps)
  have "n div 4096 = n div 16 div 256" by (simp add: div_mult2_eq [symmetric])
  then have n: "n mod 16 + 16 * (n div 16 mod 256 + 256 * (n div 4096)) = n"
    by (simp only: mod_mult_div_eq)
  have "key_to_item k = n mod 16 + 16 * (n div 16 mod 256 + 256 * (n div 4096))"
    unfolding key_to_item_sum using b by (simp add: k_def nth_append)
  then have "key_to_item k = n" using n by simp
  moreover have "length k = 16" "unat (k ! 0) = f" using assms(1) by (simp_all add: k_def)
  ultimately show ?thesis by blast
qed

lemma fca_invI:
  assumes files: "\<forall>f<256. fc_inv (fcs f) \<and> fc_file_id (fcs f) = f"
    and slots: "\<And>k. fca_member bks k \<Longrightarrow> \<exists>i\<in>fc_live (get_fast_conflict fcs k).
      m_block_id (fca_slot bks k) = block_id_set (unat (k ! 0)) i \<and> rec_ok (get_fullkey fks k) (fca_rec bks fcs k)"
    and inj: "\<And>k k'. fca_member bks k \<Longrightarrow> fca_member bks k' \<Longrightarrow> k' ! 0 = k ! 0 \<Longrightarrow>
      m_data_id (m_block_id (fca_slot bks k')) = m_data_id (m_block_id (fca_slot bks k)) \<Longrightarrow>
      key_to_item k' = key_to_item k"
  shows "fca_inv bks fks fcs"
proof -
  have rep: "\<exists>k. fca_member bks k \<and> unat (k ! 0) = f \<and> key_to_item k = n"
    if fn: "f < 256" "n < bucket_item_count" "m_type (bk_item (bks f) n) = BUCKET_CONFLICT_DATA" for f n
    using slot_key_exists [OF fn(1,2)] fn(3) by (auto simp: fca_member_def fca_slot_def get_bucket_def)
  have A: "\<exists>i\<in>fc_live (fcs f). m_block_id (bk_item (bks f) n) = block_id_set f i
      \<and> rec_ok (fks f) (fc_record (fcs f) i)"
    if fn: "f < 256" "n < bucket_item_count" "m_type (bk_item (bks f) n) = BUCKET_CONFLICT_DATA" for f n
  proof -
    obtain k where k: "fca_member bks k" "unat (k ! 0) = f" "key_to_item k = n" using rep [OF fn] by blast
    have sl: "fca_slot bks k = bk_item (bks f) n" using k by (simp add: fca_slot_def get_bucket_def)
    obtain i where i: "i \<in> fc_live (fcs f)" "m_block_id (bk_item (bks f) n) = block_id_set f i"
        "rec_ok (fks f) (fca_rec bks fcs k)"
      using slots [OF k(1)] unfolding sl get_fast_conflict_def get_fullkey_def k(2) by blast
    have "i < 4294967296" using fc_live_bounds(4) [of "fcs f" i] files i(1) fn(1) by simp
    then have "fca_rec bks fcs k = fc_record (fcs f) i"
      using i(2) k(2) sl by (simp add: fca_rec_def get_fast_conflict_def block_id_set_def trunc_def)
    then show ?thesis using i by auto
  qed
  have "inj_on (\<lambda>n. m_data_id (m_block_id (bk_item (bks f) n)))
      {n. n < bucket_item_count \<and> m_type (bk_item (bks f) n) = BUCKET_CONFLICT_DATA}" if f: "f < 256" for f
  proof (rule inj_onI, unfold mem_Collect_eq)
    fix n n'
    assume n: "n < bucket_item_count \<and> m_type (bk_item (bks f) n) = BUCKET_CONFLICT_DATA"
      "n' < bucket_item_count \<and> m_type (bk_item (bks f) n') = BUCKET_CONFLICT_DATA"
      "m_data_id (m_block_id (bk_item (bks f) n)) = m_data_id (m_block_id (bk_item (bks f) n'))"
    obtain k k' where k: "fca_member bks k" "unat (k ! 0) = f" "key_to_item k = n"
        "fca_member bks k'" "unat (k' ! 0) = f" "key_to_item k' = n'"
      using rep [OF f, of n] rep [OF f, of n'] n(1,2) by blast
    have "k' ! 0 = k ! 0" using k(2,5) by (intro byte_eqI) simp
    then show "n = n'"
      using inj [OF k(1,4)] n(3) k by (simp add: fca_slot_def get_bucket_def)
  qed
  then show ?thesis unfolding fca_inv_def using files A by blast
qed

lemma fca_inv_slot_inj:
  assumes "fca_inv bks fks fcs" "fca_member bks k" "fca_member bks k'" "k' ! 0 = k ! 0"
    "m_data_id (m_block_id (fca_slot bks k')) = m_data_id (m_block_id (fca_slot bks k))"
  shows "key_to_item k' = key_to_item k"
proof -
  have "unat (k ! 0) < 256" by simp
  then have "inj_on (\<lambda>n. m_data_id (m_block_id (bk_item (bks (unat (k ! 0))) n)))
      {n. n < bucket_item_count \<and> m_type (bk_item (bks (unat (k ! 0))) n) = BUCKET_CONFLICT_DATA}"
    using assms(1) unfolding fca_inv_def by blast
  then show ?thesis
    using assms(2-5) key_to_item_less [of k] key_to_item_less [of k']
    by (auto simp: inj_on_def fca_member_def fca_slot_def get_bucket_def)
qed

lemma rec_frame:
  assumes "\<forall>it\<in>set its. m_data_id (m_block_id it) \<noteq> 0 \<longrightarrow> fk_get fk' (m_block_id it) = fk_get fk (m_block_id it)"
  shows "rec_ok fk' its = rec_ok fk its" "rec_look fk' sfx its = rec_look fk sfx its"
proof -
  have n: "rec_names fk' s it = rec_names fk s it" if "it \<in> set its" for s it
    using assms that by (auto simp: rec_names_def)
  then show "rec_look fk' sfx its = rec_look fk sfx its"
    unfolding rec_look_def by (auto intro: arg_cong [where f = "map_option _"] find_cong)
  show "rec_ok fk' its = rec_ok fk its" unfolding rec_ok_def using n by auto
qed

lemma md_names_get:
  assumes "\<forall>f<256. fk_inv (md_fullkeys md f) \<and> fk_file_id (md_fullkeys md f) = f" "md_names md k b"
  shows "fk_get (md_fk md k) b = Some (drop 3 k)"
proof -
  have "unat (k ! 0) < 256" by simp
  then have d: "fk_inv (md_fk md k)" "fk_file_id (md_fk md k) = unat (k ! 0)"
    using assms(1) unfolding md_fk_def get_fullkey_def by blast+
  obtain i where i: "i \<in> fk_live (md_fk md k)" "b = block_id_set (unat (k ! 0)) i"
      "m_md5_suffix (fk_data (md_fk md k) i) = drop 3 k"
    using assms(2) by (auto simp: md_names_def)
  show ?thesis using fk_parse_live [OF d(1) i(1)] d(2) i(2,3) by (simp add: fk_get_def)
qed

text \<open>
  Replacing the key files keeps the index as long as every located record stays: new
  records may appear, unlocated ones may go.
\<close>

lemma md_fk_frame:
  assumes inv: "md_index_inv E contents md"
    and md': "md' = md\<lparr>md_fullkeys := fks'\<rparr>"
    and ok: "\<forall>f<256. fk_inv (fks' f) \<and> fk_file_id (fks' f) = f"
    and keep: "\<And>k b v. length k = 16 \<Longrightarrow> md_loc E md k = Some (b, v) \<Longrightarrow> md_names md' k b"
  shows "md_index_inv E contents md'" "\<And>k. length k = 16 \<Longrightarrow> md_loc E md' k = md_loc E md k"
proof -
  let ?bks = "md_buckets md" and ?fcs = "md_fast_conflicts md"
  have sel: "md_item md' k = md_item md k" "md_slow E md' k = md_slow E md k" "md_buckets md' = ?bks"
    "md_fast_conflicts md' = ?fcs" "md_conflicts md' = md_conflicts md" "md_fullkeys md' = fks'" for k
    by (simp_all add: md' md_item_def md_slow_def)
  have ok': "\<forall>f<256. fk_inv (md_fullkeys md' f) \<and> fk_file_id (md_fullkeys md' f) = f" using ok by (simp add: sel)
  have get: "fk_get (md_fk md' k) b = fk_get (md_fk md k) b"
    if "length k1 = 16" "same_slot k1 k" "md_loc E md k1 = Some (b, v)" "md_names md k1 b" for k k1 b v
    using md_names_get [OF ok' keep [OF that(1,3)]] md_names_fca(2) [OF inv that(4)]
    by (simp add: same_slot_item(2) [OF that(2)])
  have dir: "fk_get (md_fk md' k) (m_block_id (md_item md k)) = fk_get (md_fk md k) (m_block_id (md_item md k))"
    if k: "length k = 16" "m_type (md_item md k) = BUCKET_DIRECT_DATA" for k
    using md_direct [OF inv k] get by metis
  have itm: "fk_get (md_fk md' k) (m_block_id it) = fk_get (md_fk md k) (m_block_id it)"
    if k: "length k = 16" "m_type (md_item md k) = BUCKET_CONFLICT_DATA" "it \<in> set (fca_rec ?bks ?fcs k)"
      "m_data_id (m_block_id it) \<noteq> 0" for k it
    using md_fast_item [OF inv k] get by metis
  have fr: "rec_ok (md_fk md' k) (fca_rec ?bks ?fcs k)"
    "rec_look (md_fk md' k) sfx (fca_rec ?bks ?fcs k) = rec_look (md_fk md k) sfx (fca_rec ?bks ?fcs k)"
    if k: "length k = 16" "m_type (md_item md k) = BUCKET_CONFLICT_DATA" for k sfx
    using rec_frame [of "fca_rec ?bks ?fcs k" "md_fk md' k" "md_fk md k"] itm [OF k] md_rec_ok [OF inv k] by blast+
  note finv = md_index_invD(3) [OF inv]
  have fca: "fca_inv ?bks fks' ?fcs"
  proof (rule fca_invI)
    show "\<forall>f<256. fc_inv (?fcs f) \<and> fc_file_id (?fcs f) = f" using finv by (simp add: fca_inv_def)
    fix k assume k: "fca_member ?bks k"
    then have k': "length k = 16" "m_type (md_item md k) = BUCKET_CONFLICT_DATA" by (simp_all add: md_member_iff)
    have r: "rec_ok (get_fullkey fks' k) (fca_rec ?bks ?fcs k)" using fr(1) [OF k'] by (simp add: md_fk_def sel)
    show "\<exists>i\<in>fc_live (get_fast_conflict ?fcs k). m_block_id (fca_slot ?bks k) = block_id_set (unat (k ! 0)) i
        \<and> rec_ok (get_fullkey fks' k) (fca_rec ?bks ?fcs k)"
      using fca_member_record [OF finv k] r by metis
    fix k2
    assume k2: "fca_member ?bks k2" "k2 ! 0 = k ! 0"
      "m_data_id (m_block_id (fca_slot ?bks k2)) = m_data_id (m_block_id (fca_slot ?bks k))"
    show "key_to_item k2 = key_to_item k" by (rule fca_inv_slot_inj [OF finv k k2])
  qed
  have fast: "md_fast md' k = md_fast md k"
    if k: "length k = 16" "m_type (md_item md k) = BUCKET_CONFLICT_DATA" for k
  proof -
    have m: "fca_member ?bks k" using k by (simp add: md_member_iff)
    show ?thesis
      using fca_look_eq [OF fca m] fr(2) [OF k] md_fast_eq [OF inv k] by (simp add: md_fast_def sel md_fk_def)
  qed
  show loc: "md_loc E md' k = md_loc E md k" if "length k = 16" for k
    using dir [OF that] fast [OF that] by (simp add: md_loc_def sel Let_def cong: option.case_cong)
  have sk: "md_slot_keys E md' k = md_slot_keys E md k" for k using loc by (auto simp: md_slot_keys_def)
  have "md_slot_ok E md' k" if k: "length k = 16" for k
    unfolding md_slot_ok_def sel sk
  proof (intro conjI impI allI ballI)
    assume "m_type (md_item md k) = BUCKET_DIRECT_DATA"
    from md_direct [OF inv k this] keep
    show "\<exists>k'. length k' = 16 \<and> same_slot k' k \<and> md_names md' k' (m_block_id (md_item md k))" by metis
  next
    fix it
    assume "m_type (md_item md k) = BUCKET_CONFLICT_DATA" "it \<in> set (fca_rec ?bks ?fcs k)" "m_data_id (m_block_id it) \<noteq> 0"
    from md_fast_item [OF inv k this] keep
    show "\<exists>k'. length k' = 16 \<and> same_slot k' k \<and> md_names md' k' (m_block_id it)" by metis
  next
    fix b v assume sl: "md_slow E md k = Some (b, v)"
    note d = md_slot_okD(5) [OF inv k sl]
    show "m_type (md_item md k) = BUCKET_CONFLICT_DATA" using d by blast
    show "md_fast md' k = None" using d fast k by simp
    have "md_loc E md k = Some (b, v)" using d sl by (simp add: md_loc_def)
    then show "md_names md' k b" by (rule keep [OF k])
  qed (use md_slot_okD(3,4,6) [OF inv k] in blast)+
  then show "md_index_inv E contents md'"
  proof (intro md_index_invI, unfold sel)
    show "k' = k" if "length k = 16" "length k' = 16" "md_loc E md' k = Some (b, v)"
        "md_loc E md' k' = Some (b, v')" for k k' b v v'
      using md_index_invD(7) [OF inv that(1,2)] that loc by simp
  qed (use ok fca md_index_invD(4,5) [OF inv] in simp_all)
qed

section \<open>Slots that hold one key\<close>

lemma md_set_item_sel [simp]:
  "md_fullkeys (md_set_item k it md) = md_fullkeys md" "md_conflicts (md_set_item k it md) = md_conflicts md"
  "md_fast_conflicts (md_set_item k it md) = md_fast_conflicts md" "md_contents (md_set_item k it md) = md_contents md"
  "md_data (md_set_item k it md) = md_data md" "md_fk (md_set_item k it md) k' = md_fk md k'"
  "md_slow E (md_set_item k it md) k' = md_slow E md k'" "md_names (md_set_item k it md) k' b = md_names md k' b"
  "md_query_ctxts (md_set_item k it md) = md_query_ctxts md" "md_now (md_set_item k it md) = md_now md"
  by (simp_all add: md_set_item_def md_fk_def md_slow_def md_names_def)

lemma md_item_set:
  "md_item (md_set_item k it md) k' = (if same_slot k' k then it else md_item md k')"
  unfolding md_item_slot using fca_slot_write [of "md_buckets md" k it k']
  by (simp add: md_set_item_def get_bucket_def)

lemma md_rec_set:
  "\<not> same_slot k' k \<Longrightarrow> fca_rec (md_buckets (md_set_item k it md)) fcs k' = fca_rec (md_buckets md) fcs k'"
  using md_item_set [of k it md k'] by (simp add: fca_rec_def md_item_slot)

text \<open>The conflict structure when slots keep their record or stop being conflict slots.\<close>

lemma fca_fewer_slots:
  assumes inv: "fca_inv bks fks fcs"
    and sub [rule_format]: "\<forall>k. fca_member bks' k \<longrightarrow>
      fca_member bks k \<and> m_block_id (fca_slot bks' k) = m_block_id (fca_slot bks k)"
  shows "fca_inv bks' fks fcs" "fca_member bks' k \<Longrightarrow> fca_rec bks' fcs k = fca_rec bks fcs k"
    "fca_member bks' k \<Longrightarrow> fca_look bks' fks fcs k = fca_look bks fks fcs k"
proof -
  have rec: "fca_rec bks' fcs k = fca_rec bks fcs k" if "fca_member bks' k" for k
    using sub [OF that] by (simp add: fca_rec_def)
  then show "fca_member bks' k \<Longrightarrow> fca_rec bks' fcs k = fca_rec bks fcs k" .
  show fca: "fca_inv bks' fks fcs"
  proof (rule fca_invI)
    show "\<forall>f<256. fc_inv (fcs f) \<and> fc_file_id (fcs f) = f" using inv by (simp add: fca_inv_def)
    fix k1 assume m': "fca_member bks' k1"
    then have m: "fca_member bks k1" using sub by blast
    show "\<exists>i\<in>fc_live (get_fast_conflict fcs k1). m_block_id (fca_slot bks' k1) = block_id_set (unat (k1 ! 0)) i
        \<and> rec_ok (get_fullkey fks k1) (fca_rec bks' fcs k1)"
      unfolding conjunct2 [OF sub [OF m']] rec [OF m'] using fca_member_record [OF inv m] by metis
    fix k2
    assume k2: "fca_member bks' k2" "k2 ! 0 = k1 ! 0"
      "m_data_id (m_block_id (fca_slot bks' k2)) = m_data_id (m_block_id (fca_slot bks' k1))"
    show "key_to_item k2 = key_to_item k1"
      by (rule fca_inv_slot_inj [OF inv m conjunct1 [OF sub [OF k2(1)]] k2(2)])
        (use k2(3) in \<open>simp only: conjunct2 [OF sub [OF m']] conjunct2 [OF sub [OF k2(1)]]\<close>)
  qed
  show "fca_look bks' fks fcs k = fca_look bks fks fcs k" if "fca_member bks' k"
    using sub [OF that] rec [OF that] by (simp add: fca_look_eq [OF fca that] fca_look_eq [OF inv])
qed

text \<open>A change of one slot: what is outside stays located as it was.\<close>

lemma md_slot_step:
  assumes inv: "md_index_inv E contents md" and fks: "md_fullkeys md' = md_fullkeys md"
    and fca: "fca_inv (md_buckets md') (md_fullkeys md) (md_fast_conflicts md')"
    and cfa: "cfa_inv (e_ldb E) (e_md5 E) contents (md_conflicts md')"
      "cfa_answers (e_ldb E) (e_md5 E) (md_conflicts md')"
    and out: "\<And>k'. length k' = 16 \<Longrightarrow> \<not> same_slot k' k \<Longrightarrow>
      md_item md' k' = md_item md k' \<and> md_slow E md' k' = md_slow E md k'"
    and rec: "\<And>k'. fca_member (md_buckets md) k' \<Longrightarrow> \<not> same_slot k' k \<Longrightarrow>
      fca_rec (md_buckets md') (md_fast_conflicts md') k' = fca_rec (md_buckets md) (md_fast_conflicts md) k'"
    and ins: "\<And>k'. length k' = 16 \<Longrightarrow> same_slot k' k \<Longrightarrow> md_slot_ok E md' k'"
    and locs: "\<And>k' b v. length k' = 16 \<Longrightarrow> same_slot k' k \<Longrightarrow> md_loc E md' k' = Some (b, v) \<Longrightarrow>
      md_names md k' b \<and> (\<forall>k'' v'. length k'' = 16 \<longrightarrow> \<not> same_slot k'' k \<longrightarrow> md_loc E md k'' \<noteq> Some (b, v'))"
  shows "md_index_inv E contents md'
    \<and> (\<forall>k'. length k' = 16 \<longrightarrow> \<not> same_slot k' k \<longrightarrow> md_loc E md' k' = md_loc E md k')"
proof -
  have fk: "md_fk md' k' = md_fk md k'" "md_names md' k' b = md_names md k' b" for k' b
    by (simp_all add: md_fk_def fks md_names_def)
  have fast: "md_fast md' k' = md_fast md k'"
    if k': "length k' = 16" "m_type (md_item md k') = BUCKET_CONFLICT_DATA" "\<not> same_slot k' k" for k'
  proof -
    have m: "fca_member (md_buckets md) k'" "fca_member (md_buckets md') k'"
      using k' out [OF k'(1,3)] by (simp_all add: md_member_iff)
    show ?thesis
      using fca_look_eq [OF fca m(2)] fca_look_eq [OF md_index_invD(3) [OF inv] m(1)] rec [OF m(1) k'(3)]
      by (simp add: md_fast_def fks)
  qed
  have loc: "md_loc E md' k' = md_loc E md k'" if "length k' = 16" "\<not> same_slot k' k" for k'
    using fast [OF that(1) _ that(2)] out [OF that] by (simp add: md_loc_def fk Let_def cong: option.case_cong)
  have sk: "md_slot_keys E md' k' = md_slot_keys E md k'" if "\<not> same_slot k' k" for k'
    using loc that same_slot_sym same_slot_trans unfolding md_slot_keys_def by (metis (no_types, opaque_lifting))
  have "md_slot_ok E md' k'" if k': "length k' = 16" for k'
  proof (cases "same_slot k' k")
    case False
    note d = md_index_invD(6) [OF inv k', unfolded md_slot_ok_def]
    show ?thesis
      unfolding md_slot_ok_def fk sk [OF False] using d out [OF k' False] fast [OF k' _ False] rec [of k'] k' False
      by (auto simp: md_member_iff)
  qed (rule ins [OF k'])
  then have "md_index_inv E contents md'"
  proof (intro md_index_invI)
    fix k1 k2 b v v'
    assume h: "length k1 = 16" "length k2 = 16" "md_loc E md' k1 = Some (b, v)" "md_loc E md' k2 = Some (b, v')"
    show "k2 = k1"
    proof (cases "same_slot k1 k")
      case s1: True
      note l1 = locs [OF h(1) s1 h(3)]
      have s2: "same_slot k2 k" using l1 h(2,4) loc by metis
      have "drop 3 k2 = drop 3 k1" using md_names_unique(2) [OF inv] l1 locs [OF h(2) s2 h(4)] by blast
      then show ?thesis using same_slot_eqI same_slot_trans [OF s2 same_slot_sym [OF s1]] h(1,2) by blast
    next
      case False
      then have "\<not> same_slot k2 k" using locs [OF h(2) _ h(4)] h(1,3) loc by metis
      then show ?thesis using md_index_invD(7) [OF inv h(1,2)] h loc False by simp
    qed
  qed (use fca cfa inv in \<open>auto simp: md_index_inv_def fks\<close>)
  then show ?thesis using loc by blast
qed

text \<open>
  A slot without conflicts gets an item without conflicts: it is empty afterwards, or it
  holds \<open>k\<close>, whose record must not be that of a key of another slot.
\<close>

lemma md_direct_step:
  assumes inv: "md_index_inv E contents md" and k: "length k = 16"
    and t: "m_type (md_item md k) \<noteq> BUCKET_CONFLICT_DATA" and t': "m_type it < BUCKET_CONFLICT_DATA"
    and nm: "m_type it = BUCKET_DIRECT_DATA \<Longrightarrow> md_names md k (m_block_id it)"
    and fresh: "\<And>k' v. m_type it = BUCKET_DIRECT_DATA \<Longrightarrow> length k' = 16 \<Longrightarrow> \<not> same_slot k' k \<Longrightarrow>
      md_loc E md k' \<noteq> Some (m_block_id it, v)"
  shows "md_index_inv E contents (md_set_item k it md)"
    "\<And>k'. length k' = 16 \<Longrightarrow> md_loc E (md_set_item k it md) k' =
      (if same_slot k' k then if k' = k \<and> m_type it = BUCKET_DIRECT_DATA then Some (m_block_id it, version it) else None
       else md_loc E md k')"
proof -
  let ?md = "md_set_item k it md"
  let ?bks = "md_buckets md" and ?bks' = "md_buckets ?md"
  have sub: "\<forall>k'. fca_member ?bks' k' \<longrightarrow>
      fca_member ?bks k' \<and> m_block_id (fca_slot ?bks' k') = m_block_id (fca_slot ?bks k')"
    using t' unfolding md_member_iff md_item_slot [symmetric] by (auto simp: md_item_set)
  note few = fca_fewer_slots [OF md_index_invD(3) [OF inv] sub]
  have get: "fk_get (md_fk md k') (m_block_id it) = Some (drop 3 k') \<longleftrightarrow> k' = k"
    if "m_type it = BUCKET_DIRECT_DATA" "length k' = 16" "same_slot k' k" for k'
    using md_names_fca(2) [OF inv nm [OF that(1)]] same_slot_eqI [OF that(3,2) k]
    by (auto simp: same_slot_item(2) [OF that(3)])
  have loc: "md_loc E ?md k' = (if k' = k \<and> m_type it = BUCKET_DIRECT_DATA then Some (m_block_id it, version it) else None)"
    if "length k' = 16" "same_slot k' k" for k'
    using get [OF _ that] get [OF _ k] that t' by (auto simp: md_loc_def md_item_set)
  have ins: "md_slot_ok E ?md k'" if k': "length k' = 16" "same_slot k' k" for k'
  proof -
    have "md_slow E md k' = None"
      using md_slot_okD(5) [OF inv k'(1)] t k'(2) by (cases "md_slow E md k'") (auto simp: same_slot_item(1))
    then show ?thesis
      using k'(2) t' nm k same_slot_sym by (auto simp: md_slot_ok_def md_item_set)
  qed
  have fca: "fca_inv ?bks' (md_fullkeys md) (md_fast_conflicts ?md)" using few(1) by simp
  have cfa: "cfa_inv (e_ldb E) (e_md5 E) contents (md_conflicts ?md)"
      "cfa_answers (e_ldb E) (e_md5 E) (md_conflicts ?md)" using md_index_invD(4,5) [OF inv] by simp_all
  have locs: "md_names md k' b \<and> (\<forall>k'' v'. length k'' = 16 \<longrightarrow> \<not> same_slot k'' k \<longrightarrow> md_loc E md k'' \<noteq> Some (b, v'))"
    if "length k' = 16" "same_slot k' k" "md_loc E ?md k' = Some (b, v)" for k' b v
    using loc [OF that(1,2)] that(3) nm fresh by (auto split: if_splits)
  have st: "md_index_inv E contents ?md
      \<and> (\<forall>k'. length k' = 16 \<longrightarrow> \<not> same_slot k' k \<longrightarrow> md_loc E ?md k' = md_loc E md k')"
    by (rule md_slot_step [OF inv _ fca cfa]) (use ins locs in \<open>simp_all add: md_item_set md_rec_set\<close>)
  then show "md_index_inv E contents ?md" by blast
  show "md_loc E ?md k' =
      (if same_slot k' k then if k' = k \<and> m_type it = BUCKET_DIRECT_DATA then Some (m_block_id it, version it) else None
       else md_loc E md k')" if "length k' = 16" for k'
    using loc [OF that] st that by simp
qed

end
