(* ===== verification/Md5db_Slots.thy ===== *)
theory Md5db_Slots
  imports Md5db_Index
begin

text \<open>
  The updates of conflict slots: a direct slot is split, a key is added to, updated in or
  deleted from the conflict files or the leveldb conflict store. Each keeps the invariant
  of the index and changes the location of one digest.
\<close>

section \<open>One conflict slot\<close>

text \<open>
  The digests of the slot after \<open>k\<close> was given the locations \<open>F\<close> in the conflict files and
  \<open>S\<close> in leveldb.
\<close>

definition slot_keys_upd ::
  "'d md5db_env \<Rightarrow> 'd md5db \<Rightarrow> bytes \<Rightarrow> (block_id_t \<times> nat) option \<Rightarrow> (block_id_t \<times> nat) option \<Rightarrow> bytes set" where
  "slot_keys_upd E md k F S =
     (if F = None \<and> S = None then md_slot_keys E md k - {k} else insert k (md_slot_keys E md k))"

text \<open>The invariant holds in \<open>md'\<close> and the location of \<open>k\<close> alone has changed.\<close>

definition md_loc_upd ::
  "'d md5db_env \<Rightarrow> ('d \<Rightarrow> bytes \<Rightarrow> bytes option) \<Rightarrow> 'd md5db \<Rightarrow> 'd md5db \<Rightarrow> bytes \<Rightarrow> (block_id_t \<times> nat) option \<Rightarrow> bool" where
  "md_loc_upd E contents md md' k x \<longleftrightarrow> md_index_inv E contents md'
     \<and> (\<forall>k'. length k' = 16 \<longrightarrow> md_loc E md' k' = (if k' = k then x else md_loc E md k'))"

text \<open>The item of a slot that locates \<open>n\<close> digests by conflict records.\<close>

definition slot_count_ok :: "bucket_data_item_t \<Rightarrow> nat \<Rightarrow> bool" where
  "slot_count_ok it n \<longleftrightarrow>
     (if m_type it = BUCKET_CONFLICT_DATA then get_conflict_count it = n \<and> n < 64
      else m_type it = BUCKET_NO_DATA \<and> n = 0)"

lemma md_conflict_step:
  assumes inv: "md_index_inv E contents md" and k: "length k = 16"
    and t: "m_type (md_item md k) = BUCKET_CONFLICT_DATA"
    and md': "md' = md_set_item k it (md\<lparr>md_fast_conflicts := fcs', md_conflicts := cs'\<rparr>)"
    and fca: "fca_inv (md_buckets md) (md_fullkeys md) fcs'"
    and rec_out: "\<And>k'. fca_member (md_buckets md) k' \<Longrightarrow> \<not> same_slot k' k \<Longrightarrow>
      fca_rec (md_buckets md) fcs' k' = fca_rec (md_buckets md) (md_fast_conflicts md) k'"
    and rec_in: "\<And>x. x \<in> set (fca_rec (md_buckets md) fcs' k) \<Longrightarrow> m_data_id (m_block_id x) \<noteq> 0 \<Longrightarrow>
      x \<in> set (fca_rec (md_buckets md) (md_fast_conflicts md) k) \<or> md_names md k (m_block_id x)"
    and look: "\<And>k'. fca_member (md_buckets md) k' \<Longrightarrow>
      fca_look (md_buckets md) (md_fullkeys md) fcs' k' = (if k' = k then F else md_fast md k')"
    and cfa: "cfa_inv (e_ldb E) (e_md5 E) contents cs'" "cfa_answers (e_ldb E) (e_md5 E) cs'"
    and slow: "\<And>k'. length k' = 16 \<Longrightarrow> cfa_look (e_ldb E) (e_md5 E) cs' k' = (if k' = k then S else md_slow E md k')"
    and FS: "F = None \<or> S = None"
    and new: "\<And>b v. F = Some (b, v) \<or> S = Some (b, v) \<Longrightarrow> md_names md k b
      \<and> (\<forall>k' v'. length k' = 16 \<longrightarrow> \<not> same_slot k' k \<longrightarrow> md_loc E md k' \<noteq> Some (b, v'))"
    and blk: "m_block_id it = m_block_id (md_item md k)"
    and count_ok: "slot_count_ok it (card (slot_keys_upd E md k F S))"
  shows "md_loc_upd E contents md md' k (case F of Some e \<Rightarrow> Some e | None \<Rightarrow> S)"
proof -
  note cnt = count_ok [unfolded slot_count_ok_def]
  let ?bks = "md_buckets md" and ?bks' = "md_buckets md'" and ?K = "slot_keys_upd E md k F S"
  have sel: "md_fullkeys md' = md_fullkeys md" "md_fast_conflicts md' = fcs'" "md_conflicts md' = cs'"
    by (simp_all add: md')
  have item: "md_item md' k' = (if same_slot k' k then it else md_item md k')" for k'
    unfolding md' md_item_set by (simp add: md_item_def)
  have sub: "fca_member ?bks k' \<and> m_block_id (fca_slot ?bks' k') = m_block_id (fca_slot ?bks k')"
    if "fca_member ?bks' k'" for k'
    using that t blk unfolding md_member_iff md_item_slot [symmetric]
    by (cases "same_slot k' k") (auto simp: item same_slot_item(1))
  have "\<forall>k'. fca_member ?bks' k' \<longrightarrow>
      fca_member ?bks k' \<and> m_block_id (fca_slot ?bks' k') = m_block_id (fca_slot ?bks k')" using sub by blast
  note few = fca_fewer_slots [OF fca this]
  have fast: "md_fast md' k' = (if k' = k then F else md_fast md k')"
    if "length k' = 16" "same_slot k' k" "m_type it = BUCKET_CONFLICT_DATA" for k'
  proof -
    have m: "fca_member ?bks' k'" using that by (simp add: md_member_iff item)
    show ?thesis using few(3) [OF m] look [of k'] sub [OF m] by (simp add: md_fast_def sel)
  qed
  have sl: "md_slow E md' k' = (if k' = k then S else md_slow E md k')" if "length k' = 16" for k'
    using slow [OF that] by (simp add: md_slow_def sel)
  have finK: "finite ?K" by (simp add: slot_keys_upd_def)
  have loc: "md_loc E md' k' = (if k' = k then (case F of Some e \<Rightarrow> Some e | None \<Rightarrow> S) else md_loc E md k')"
    if k': "length k' = 16" "same_slot k' k" for k'
  proof (cases "m_type it = BUCKET_CONFLICT_DATA")
    case True
    then show ?thesis
      using fast [OF k' True] sl [OF k'(1)] k' t by (simp add: md_loc_def item same_slot_item(1) cong: option.case_cong)
  next
    case False
    then have "?K = {}" using cnt finK by simp
    then have "F = None" "S = None" "k' \<noteq> k \<Longrightarrow> md_loc E md k' = None"
      using k' by (auto simp: slot_keys_upd_def md_slot_keys_def split: if_splits)
    then show ?thesis using cnt False k' by (simp add: md_loc_def item)
  qed
  have nk: "(case F of Some e \<Rightarrow> Some e | None \<Rightarrow> S) = None \<longleftrightarrow> F = None \<and> S = None" by (simp split: option.split)
  have K: "md_slot_keys E md' k' = ?K" if s: "same_slot k' k" for k'
  proof (rule set_eqI)
    fix x
    have ss: "same_slot x k' \<longleftrightarrow> same_slot x k" using s same_slot_trans same_slot_sym by blast
    show "x \<in> md_slot_keys E md' k' \<longleftrightarrow> x \<in> ?K"
      using loc [of x] k nk unfolding md_slot_keys_def slot_keys_upd_def mem_Collect_eq ss
      by (cases "x = k"; cases "length x = 16 \<and> same_slot x k") auto
  qed
  have names: "md_names md' k' b = md_names md k' b" for k' b by (simp add: md_names_def md_fk_def sel)
  have ins: "md_slot_ok E md' k'" if k': "length k' = 16" "same_slot k' k" for k'
  proof (cases "m_type it = BUCKET_CONFLICT_DATA")
    case True
    have rc: "fca_rec ?bks' fcs' k' = fca_rec ?bks fcs' k"
      using few(2) [of k'] k' True same_slot_item(3) [OF k'(2)] by (simp add: md_member_iff item)
    have "\<exists>k2. length k2 = 16 \<and> same_slot k2 k' \<and> md_names md k2 (m_block_id x)"
      if x: "x \<in> set (fca_rec ?bks fcs' k)" "m_data_id (m_block_id x) \<noteq> 0" for x
      using rec_in [OF x] md_slot_okD(2) [OF inv k t _ x(2)] k k'(2) same_slot_trans same_slot_sym by metis
    moreover have "md_names md k' b \<and> md_fast md' k' = None" if "md_slow E md' k' = Some (b, v)" for b v
      using that sl [OF k'(1)] fast [OF k' True] new [of b v] FS md_slot_okD(5) [OF inv k'(1)]
      by (auto split: if_splits)
    ultimately show ?thesis
      unfolding md_slot_ok_def K [OF k'(2)] sel names rc using True cnt k'(2) by (simp add: item)
  next
    case False
    have "md_slow E md' k' = None"
    proof (rule ccontr)
      assume a: "md_slow E md' k' \<noteq> None"
      have "?K = {}" using False cnt finK by simp
      then have "S = None" "k' \<noteq> k \<Longrightarrow> md_loc E md k' = None"
        using k' by (auto simp: slot_keys_upd_def md_slot_keys_def split: if_splits)
      then show False
        using a sl [OF k'(1)] t k'(2) by (auto simp: md_loc_def same_slot_item(1) split: if_splits option.splits)
    qed
    then show ?thesis using False cnt k'(2) by (simp add: md_slot_ok_def item)
  qed
  have locs: "md_names md k' b \<and> (\<forall>k'' v'. length k'' = 16 \<longrightarrow> \<not> same_slot k'' k \<longrightarrow> md_loc E md k'' \<noteq> Some (b, v'))"
    if k': "length k' = 16" "same_slot k' k" "md_loc E md' k' = Some (b, v)" for k' b v
  proof (cases "k' = k")
    case True
    then show ?thesis using loc [OF k'(1,2)] k'(3) new [of b v] by (auto split: option.splits)
  next
    case False
    then have l: "md_loc E md k' = Some (b, v)" using loc [OF k'(1,2)] k'(3) by simp
    then show ?thesis using md_loc_names(1) [OF inv k'(1) l] md_index_invD(7) [OF inv k'(1) _ l] k'(2) by blast
  qed
  have "md_index_inv E contents md'
      \<and> (\<forall>k'. length k' = 16 \<longrightarrow> \<not> same_slot k' k \<longrightarrow> md_loc E md' k' = md_loc E md k')"
  proof (rule md_slot_step [OF inv sel(1)])
    show "fca_inv ?bks' (md_fullkeys md) (md_fast_conflicts md')" using few(1) by (simp add: sel)
    show "fca_rec ?bks' (md_fast_conflicts md') k' = fca_rec ?bks (md_fast_conflicts md) k'"
      if "fca_member ?bks k'" "\<not> same_slot k' k" for k'
      using few(2) [of k'] rec_out [OF that] that by (simp add: sel md_member_iff item)
  qed (use cfa ins locs sl k in \<open>auto simp: sel item\<close>)
  then show ?thesis using loc unfolding md_loc_upd_def by (metis same_slot_refl)
qed

section \<open>The leveldb conflict store\<close>

lemma cfa_answers_iff:
  assumes "cfa_inv L md5 contents cs"
  shows "cfa_answers L md5 cs \<longleftrightarrow> (\<forall>k. length k = 16 \<longrightarrow>
    conflict_item (kv_look contents (cs ! get_conflict cs k) k) = None \<longrightarrow>
    kv_look contents (cs ! get_conflict cs k) k = None)"
proof -
  have "cfa_look L md5 cs k = conflict_item (kv_look contents (cs ! get_conflict cs k) k)
      \<and> (cfa_look L md5 cs k = None \<longrightarrow> (cfa_get L md5 cs k = (ENOENT, block_id_zero, 0) \<longleftrightarrow>
           kv_look contents (cs ! get_conflict cs k) k = None))" if k: "length k = 16" for k
  proof -
    have L: "leveldb_ok L contents" "ldb_reads L" using assms by (simp_all add: cfa_inv_def)
    note g = kv_get_correct [OF L cfa_inv_nth [OF assms] digest_check_key [OF k]]
    have "cfa_look L md5 cs k = conflict_item (kv_look contents (cs ! get_conflict cs k) k)"
      using cfa_look_eq [OF assms] k by (simp add: digest_key_def)
    then show ?thesis
      using k by (auto simp: cfa_get_def conflict_get_def g conflict_item_def Let_def split: option.splits if_splits)
  qed
  then show ?thesis unfolding cfa_answers_def by simp
qed

lemma cfa_answers_step:
  assumes inv: "cfa_inv L md5 contents cs" "cfa_answers L md5 cs" and c: "kv_inv md5 contents c"
    and look: "kv_look contents c = (kv_look contents (cs ! get_conflict cs k))(k := x)"
    and x: "x = kv_look contents (cs ! get_conflict cs k) k \<or> x = None \<or> conflict_item x \<noteq> None" and k: "length k = 16"
  shows "cfa_answers L md5 (cs[get_conflict cs k := c])"
proof -
  have d: "digest_key k" using k by (simp add: digest_key_def)
  have l: "get_conflict cs k < length cs" using inv(1) by (simp add: cfa_inv_def get_conflict_less)
  have "kv_look contents (cs[get_conflict cs k := c] ! get_conflict cs k') k' =
      (if k' = k then x else kv_look contents (cs ! get_conflict cs k') k')" for k'
    using look l by (cases "get_conflict cs k' = get_conflict cs k") auto
  then show ?thesis
    using x k unfolding cfa_answers_iff [OF cfa_step(1) [OF inv(1) c look d]]
    using inv(2) [unfolded cfa_answers_iff [OF inv(1)]] by auto
qed

lemma cfa_put_answers:
  assumes inv: "cfa_inv L md5 contents cs" "cfa_answers L md5 cs" and k: "length k = 16" and b: "block_id_wf b"
    and put: "cfa_put L md5 k b v cs = (r, cs')"
  shows "cfa_answers L md5 cs'"
proof -
  let ?i = "get_conflict cs k" and ?d = "item_bytes ((set_version v item_zero)\<lparr>m_block_id := b\<rparr>)"
  have L: "leveldb_ok L contents" using inv by (simp add: cfa_inv_def)
  obtain c where c: "conflict_put L md5 k b v (cs ! ?i) = (r, c)" and cs': "cs' = cs[?i := c]"
    using put by (auto simp: cfa_put_def Let_def split: prod.splits)
  have c': "c = cs ! ?i \<and> r \<noteq> 0 \<or> kv_put L md5 k ?d (cs ! ?i) = (r, c)"
    using c by (auto simp: conflict_put_def Let_def split: if_splits)
  have kc: "kv_inv md5 contents c"
    "kv_look contents c = (kv_look contents (cs ! ?i))(k := (if r = 0 then Some ?d else kv_look contents (cs ! ?i) k))"
    using c' kv_put_correct [OF L cfa_inv_nth [OF inv(1)]] cfa_inv_nth [OF inv(1), of k] by auto
  show ?thesis
    unfolding cs' by (rule cfa_answers_step [OF inv kc _ k]) (simp add: conflict_item_put [OF b])
qed

lemma cfa_del_answers:
  assumes inv: "cfa_inv L md5 contents cs" "cfa_answers L md5 cs" and k: "length k = 16"
    and del: "cfa_del L k cs = (r, cs')"
  shows "cfa_answers L md5 cs'"
proof -
  let ?i = "get_conflict cs k"
  have L: "leveldb_ok L contents" using inv by (simp add: cfa_inv_def)
  obtain c where c: "kv_del L k (cs ! ?i) = (r, c)" and cs': "cs' = cs[?i := c]"
    using del by (auto simp: cfa_del_def conflict_del_def Let_def split: prod.splits)
  note kc = kv_del_correct [OF L cfa_inv_nth [OF inv(1)] c]
  have "kv_look contents c = (kv_look contents (cs ! ?i))(k := (if r = 0 then None else kv_look contents (cs ! ?i) k))"
    using kc(2) by auto
  then show ?thesis unfolding cs' by (intro cfa_answers_step [OF inv kc(1) _ _ k]) auto
qed

section \<open>Adding, updating and deleting\<close>

text \<open>The item of the slot with the count of the conflicting keys changed.\<close>

lemma conflict_count_items:
  assumes "get_conflict_count it = n" "n < 63"
  shows "add_conflict_count it = (True, set_version (Suc n) it)" "get_conflict_count (set_version (Suc n) it) = Suc n"
  using assms by (simp_all add: add_conflict_count_def get_conflict_count_def set_version_def trunc_def
      BUCKET_DATA_MAX_VERSION_def)

lemma conflict_count_dec:
  assumes "get_conflict_count it = n" "n < 64"
  shows "dec_conflict_count it = (n - 1, set_version (n - 1) it)" "get_conflict_count (set_version (n - 1) it) = n - 1"
  using assms by (auto simp: dec_conflict_count_def get_conflict_count_def set_version_def trunc_def Let_def)

lemma set_version_sel [simp]: "m_block_id (set_version v it) = m_block_id it" "m_type (set_version v it) = m_type it"
  by (simp_all add: set_version_def)

lemma md_set_item_self [simp]: "md_set_item k (md_item md k) md = md"
  by (simp add: md_set_item_def md_item_def bucket_write_def get_bucket_def)

lemma slot_keys_upd_card:
  "md_loc E md k = None \<Longrightarrow> F \<noteq> None \<or> S \<noteq> None \<Longrightarrow> card (slot_keys_upd E md k F S) = Suc (card (md_slot_keys E md k))"
  "md_loc E md k \<noteq> None \<Longrightarrow> length k = 16 \<Longrightarrow> F \<noteq> None \<or> S \<noteq> None \<Longrightarrow> slot_keys_upd E md k F S = md_slot_keys E md k"
  "md_loc E md k \<noteq> None \<Longrightarrow> length k = 16 \<Longrightarrow> card (slot_keys_upd E md k None None) = card (md_slot_keys E md k) - 1"
  by (auto simp: slot_keys_upd_def md_slot_keys_def finite_digests card_insert_if)

lemma md_put_item_rec:
  assumes "md_index_inv E contents md" "fca_member (md_buckets md) k"
    "i < length (fca_rec (md_buckets md) (md_fast_conflicts md) k)"
    "fcs' = fca_put_item (md_buckets md) k i x (md_fast_conflicts md)"
  shows "fca_member (md_buckets md) k' \<Longrightarrow> \<not> same_slot k' k \<Longrightarrow>
      fca_rec (md_buckets md) fcs' k' = fca_rec (md_buckets md) (md_fast_conflicts md) k'"
    "y \<in> set (fca_rec (md_buckets md) fcs' k) \<Longrightarrow> y = x \<or> y \<in> set (fca_rec (md_buckets md) (md_fast_conflicts md) k)"
proof -
  note r = fca_put_item_rec [OF md_index_invD(3) [OF assms(1)] assms(2) _ assms(3), of _ x, folded assms(4)]
  show "fca_member (md_buckets md) k' \<Longrightarrow> \<not> same_slot k' k \<Longrightarrow>
      fca_rec (md_buckets md) fcs' k' = fca_rec (md_buckets md) (md_fast_conflicts md) k'"
    using r [of k'] by (auto simp: same_slot_def)
  show "y \<in> set (fca_rec (md_buckets md) fcs' k) \<Longrightarrow> y = x \<or> y \<in> set (fca_rec (md_buckets md) (md_fast_conflicts md) k)"
    using r [OF assms(2)] set_update_subset_insert [of "fca_rec (md_buckets md) (md_fast_conflicts md) k" i x] by auto
qed

lemma md_add_fast:
  assumes inv: "md_index_inv E contents md" and k: "length k = 16"
    and t: "m_type (md_item md k) = BUCKET_CONFLICT_DATA" and l: "md_loc E md k = None"
    and nm: "md_names md k b" and fresh: "\<forall>k' v'. length k' = 16 \<longrightarrow> md_loc E md k' \<noteq> Some (b, v')"
    and add: "fca_add (Some (md_buckets md)) (md_fullkeys md) k b v (md_fast_conflicts md) = (0, fcs')"
    and n: "card (md_slot_keys E md k) < 63"
  shows "md_loc_upd E contents md (md_set_item k (snd (add_conflict_count (md_item md k))) (md\<lparr>md_fast_conflicts := fcs'\<rparr>))
    k (Some (b, stored_version v))"
proof -
  let ?bks = "md_buckets md" and ?fcs = "md_fast_conflicts md"
  have m: "fca_member ?bks k" using k t by (simp add: md_member_iff)
  note finv = md_index_invD(3) [OF inv] and d = md_slot_okD [OF inv k]
  note ok = fca_add_correct [OF finv m md_names_fca(1) [OF inv nm] add]
  have sl: "md_slow E md k = None" using l t by (simp add: md_loc_def split: option.splits)
  obtain i where i: "i < length (fca_rec ?bks ?fcs k)"
      "fcs' = fca_put_item ?bks k i (fca_item b v (fca_rec ?bks ?fcs k ! i)) ?fcs"
    using fca_add_cases [OF finv m add] by metis
  note r = md_put_item_rec [OF inv m i]
  note c = conflict_count_items [OF d(3) [OF t] n] and card = slot_keys_upd_card(1) [OF l]
  have "md_loc_upd E contents md (md_set_item k (set_version (Suc (card (md_slot_keys E md k))) (md_item md k))
      (md\<lparr>md_fast_conflicts := fcs'\<rparr>)) k (case Some (b, stored_version v) of Some e \<Rightarrow> Some e | None \<Rightarrow> None)"
  proof (rule md_conflict_step [OF inv k t, where cs' = "md_conflicts md"])
    show "x \<in> set (fca_rec ?bks ?fcs k) \<or> md_names md k (m_block_id x)"
      if "x \<in> set (fca_rec ?bks fcs' k)" for x
      using r(2) [OF that] nm by auto
    show "slot_count_ok (set_version (Suc (card (md_slot_keys E md k))) (md_item md k))
        (card (slot_keys_upd E md k (Some (b, stored_version v)) None))"
      using c card n t by (simp add: slot_count_ok_def)
  qed (use ok r(1) sl nm fresh md_index_invD(4,5) [OF inv] in \<open>auto simp: md_fast_def md_slow_def\<close>)
  then show ?thesis unfolding c(1) by simp
qed

lemma md_slow_put:
  assumes inv: "md_index_inv E contents md" and k: "length k = 16" and b: "block_id_wf b"
    and put: "cfa_put (e_ldb E) (e_md5 E) k b v (md_conflicts md) = (0, cs')"
  shows "cfa_inv (e_ldb E) (e_md5 E) contents cs'" "cfa_answers (e_ldb E) (e_md5 E) cs'"
    "length k' = 16 \<Longrightarrow> cfa_look (e_ldb E) (e_md5 E) cs' k' = (if k' = k then Some (b, stored_version v) else md_slow E md k')"
  using cfa_put_correct [OF md_index_invD(4) [OF inv] _ b put] cfa_put_answers [OF md_index_invD(4,5) [OF inv] k b put] k
  by (simp_all add: digest_key_def md_slow_def)

text \<open>
  A step that gives \<open>k\<close> a location in leveldb: an unlocated \<open>k\<close> with a record of its own,
  or a \<open>k\<close> that leveldb locates already.
\<close>

lemma md_put_slow:
  assumes inv: "md_index_inv E contents md" and k: "length k = 16"
    and t: "m_type (md_item md k) = BUCKET_CONFLICT_DATA" and f: "md_fast md k = None"
    and nm: "md_names md k b"
    and fresh: "\<forall>k' v'. length k' = 16 \<longrightarrow> \<not> same_slot k' k \<longrightarrow> md_loc E md k' \<noteq> Some (b, v')"
    and put: "cfa_put (e_ldb E) (e_md5 E) k b v (md_conflicts md) = (0, cs')"
    and it: "m_block_id it = m_block_id (md_item md k)"
      "slot_count_ok it (card (slot_keys_upd E md k None (Some (b, stored_version v))))"
  shows "md_loc_upd E contents md (md_set_item k it (md\<lparr>md_conflicts := cs'\<rparr>)) k (Some (b, stored_version v))"
proof -
  have b: "block_id_wf b" using md_names_fca(1) [OF inv nm] by (simp add: fca_names_def)
  have "md_loc_upd E contents md (md_set_item k it (md\<lparr>md_conflicts := cs'\<rparr>)) k
      (case None of Some e \<Rightarrow> Some e | None \<Rightarrow> Some (b, stored_version v))"
    by (rule md_conflict_step [OF inv k t, where fcs' = "md_fast_conflicts md" and F = None])
      (use md_index_invD(3) [OF inv] md_slow_put [OF inv k b put] f nm fresh it in \<open>auto simp: md_fast_def\<close>)
  then show ?thesis by simp
qed

lemma md_add_slow:
  assumes inv: "md_index_inv E contents md" and k: "length k = 16"
    and t: "m_type (md_item md k) = BUCKET_CONFLICT_DATA" and l: "md_loc E md k = None"
    and nm: "md_names md k b" and fresh: "\<forall>k' v'. length k' = 16 \<longrightarrow> md_loc E md k' \<noteq> Some (b, v')"
    and put: "cfa_put (e_ldb E) (e_md5 E) k b v (md_conflicts md) = (0, cs')"
    and n: "card (md_slot_keys E md k) < 63"
  shows "md_loc_upd E contents md (md_set_item k (snd (add_conflict_count (md_item md k))) (md\<lparr>md_conflicts := cs'\<rparr>))
    k (Some (b, stored_version v))"
proof -
  note c = conflict_count_items [OF md_slot_okD(3) [OF inv k t] n]
  have f: "md_fast md k = None" using l t by (simp add: md_loc_def split: option.splits)
  show ?thesis
    unfolding c(1) by (rule md_put_slow [OF inv k t f nm _ put])
      (use fresh c(2) n t slot_keys_upd_card(1) [OF l] in \<open>simp_all add: slot_count_ok_def\<close>)
qed

lemma md_count_self:
  assumes "md_index_inv E contents md" "length k = 16" "m_type (md_item md k) = BUCKET_CONFLICT_DATA"
    "md_loc E md k \<noteq> None" "F \<noteq> None \<or> S \<noteq> None"
  shows "slot_count_ok (md_item md k) (card (slot_keys_upd E md k F S))"
  using md_slot_okD(3,4) [OF assms(1,2,3)] slot_keys_upd_card(2) [OF assms(4,2,5)] assms(3)
  by (simp add: slot_count_ok_def)

lemma md_loc_elsewhere:
  assumes "md_index_inv E contents md" "length k = 16" "md_loc E md k = Some (b, w)"
  shows "\<forall>k' v'. length k' = 16 \<longrightarrow> \<not> same_slot k' k \<longrightarrow> md_loc E md k' \<noteq> Some (b, v')"
  using md_index_invD(7) [OF assms(1,2) _ assms(3)] by fastforce

lemma md_update_slow:
  assumes inv: "md_index_inv E contents md" and k: "length k = 16"
    and s: "md_slow E md k = Some (b, w)"
    and put: "cfa_put (e_ldb E) (e_md5 E) k b v (md_conflicts md) = (0, cs')"
  shows "md_loc_upd E contents md (md\<lparr>md_conflicts := cs'\<rparr>) k (Some (b, stored_version v))"
proof -
  note d = md_slot_okD(5) [OF inv k s]
  have t: "m_type (md_item md k) = BUCKET_CONFLICT_DATA" using d by blast
  have l: "md_loc E md k = Some (b, w)" using d s by (simp add: md_loc_def)
  have "md_loc_upd E contents md (md_set_item k (md_item md k) (md\<lparr>md_conflicts := cs'\<rparr>)) k (Some (b, stored_version v))"
    by (rule md_put_slow [OF inv k t _ _ md_loc_elsewhere [OF inv k l] put])
      (use d md_count_self [OF inv k t] l in simp_all)
  moreover have "md_item (md\<lparr>md_conflicts := cs'\<rparr>) k = md_item md k" by (simp add: md_item_def)
  ultimately show ?thesis using md_set_item_self [of k "md\<lparr>md_conflicts := cs'\<rparr>"] by simp
qed

lemma md_update_fast:
  assumes inv: "md_index_inv E contents md" and k: "length k = 16"
    and t: "m_type (md_item md k) = BUCKET_CONFLICT_DATA" and f: "md_fast md k = Some (b, w)"
    and up: "fca_update (Some (md_buckets md)) (md_fullkeys md) k b v (md_fast_conflicts md) = (0, fcs')"
  shows "md_loc_upd E contents md (md\<lparr>md_fast_conflicts := fcs'\<rparr>) k (Some (b, if v = w then w else stored_version v))"
proof -
  let ?bks = "md_buckets md" and ?fcs = "md_fast_conflicts md" and ?F = "Some (b, if v = w then w else stored_version v)"
  have m: "fca_member ?bks k" using k t by (simp add: md_member_iff)
  note finv = md_index_invD(3) [OF inv] and f' = f [unfolded md_fast_def]
  note ok = fca_update_correct [OF finv m up f']
  have l: "md_loc E md k = Some (b, w)" using f t by (simp add: md_loc_def)
  have sl: "md_slow E md k = None" using md_slot_okD(5) [OF inv k] f by (cases "md_slow E md k") auto
  have r: "fca_member ?bks k' \<and> \<not> same_slot k' k \<longrightarrow> fca_rec ?bks fcs' k' = fca_rec ?bks ?fcs k'"
    "x \<in> set (fca_rec ?bks fcs' k) \<longrightarrow> x \<in> set (fca_rec ?bks ?fcs k) \<or> md_names md k (m_block_id x)" for k' x
    by (rule fca_update_cases [OF finv m up f'];
        use md_put_item_rec [OF inv m] md_loc_names(1) [OF inv k l] in \<open>force simp: set_version_sel\<close>)+
  have "md_loc_upd E contents md (md_set_item k (md_item md k) (md\<lparr>md_fast_conflicts := fcs'\<rparr>)) k
      (case ?F of Some e \<Rightarrow> Some e | None \<Rightarrow> None)"
    by (rule md_conflict_step [OF inv k t, where cs' = "md_conflicts md" and fcs' = fcs' and it = "md_item md k"])
      (use ok r sl md_loc_names(1) [OF inv k l] md_loc_elsewhere [OF inv k l] md_index_invD(4,5) [OF inv]
        md_count_self [OF inv k t] l in \<open>auto simp: md_fast_def md_slow_def\<close>)
  moreover have "md_item (md\<lparr>md_fast_conflicts := fcs'\<rparr>) k = md_item md k" by (simp add: md_item_def)
  ultimately show ?thesis using md_set_item_self [of k "md\<lparr>md_fast_conflicts := fcs'\<rparr>"] by simp
qed

text \<open>The item of a conflict slot that loses a key.\<close>

definition md_dec_item :: "bucket_data_item_t \<Rightarrow> bucket_data_item_t" where
  "md_dec_item it = (case dec_conflict_count it of
     (n, it') \<Rightarrow> if n = 0 then set_type BUCKET_NO_DATA it' else it')"

lemma md_dec_item_ok:
  assumes "md_index_inv E contents md" "length k = 16" "m_type (md_item md k) = BUCKET_CONFLICT_DATA"
    "md_loc E md k \<noteq> None"
  shows "m_block_id (md_dec_item (md_item md k)) = m_block_id (md_item md k)"
    "slot_count_ok (md_dec_item (md_item md k)) (card (slot_keys_upd E md k None None))"
  using conflict_count_dec [OF md_slot_okD(3,4) [OF assms(1,2,3)]] slot_keys_upd_card(3) [OF assms(4,2)]
    md_slot_okD(4) [OF assms(1,2,3)] assms(3)
  by (auto simp: md_dec_item_def slot_count_ok_def set_type_def)

lemma md_del_fast:
  assumes inv: "md_index_inv E contents md" and k: "length k = 16"
    and t: "m_type (md_item md k) = BUCKET_CONFLICT_DATA" and f: "md_fast md k = Some e"
    and del: "fca_del (Some (md_buckets md)) (md_fullkeys md) k (md_fast_conflicts md) = (r, fcs')"
  shows "md_loc_upd E contents md (md_set_item k (md_dec_item (md_item md k)) (md\<lparr>md_fast_conflicts := fcs'\<rparr>)) k None"
proof -
  let ?bks = "md_buckets md" and ?fcs = "md_fast_conflicts md"
  have m: "fca_member ?bks k" using k t by (simp add: md_member_iff)
  note finv = md_index_invD(3) [OF inv]
  have l: "md_loc E md k = Some e" using f t by (simp add: md_loc_def)
  have sl: "md_slow E md k = None" using md_slot_okD(5) [OF inv k] f by (cases "md_slow E md k") auto
  obtain i where i: "r = 0" "i < length (fca_rec ?bks ?fcs k)" "fcs' = fca_put_item ?bks k i item_zero ?fcs"
    using fca_del_cases [OF finv m del] f [unfolded md_fast_def] by auto
  note ok = fca_del_correct [OF finv m del, unfolded i(1), simplified] and rec = md_put_item_rec [OF inv m i(2,3)]
  have z: "x \<in> set (fca_rec ?bks ?fcs k)" if "x \<in> set (fca_rec ?bks fcs' k)" "m_data_id (m_block_id x) \<noteq> 0" for x
    using rec(2) [OF that(1)] that(2) by (auto simp: item_zero_def block_id_zero_def)
  have "md_loc_upd E contents md (md_set_item k (md_dec_item (md_item md k)) (md\<lparr>md_fast_conflicts := fcs'\<rparr>)) k
      (case None of Some e \<Rightarrow> Some e | None \<Rightarrow> None)"
    by (rule md_conflict_step [OF inv k t, where cs' = "md_conflicts md" and fcs' = fcs'
          and it = "md_dec_item (md_item md k)"])
      (use ok rec(1) z sl md_index_invD(4,5) [OF inv] md_dec_item_ok [OF inv k t] l
        in \<open>auto simp: md_fast_def md_slow_def\<close>)
  then show ?thesis by simp
qed

lemma md_del_slow:
  assumes inv: "md_index_inv E contents md" and k: "length k = 16" and s: "md_slow E md k = Some e"
    and del: "cfa_del (e_ldb E) k (md_conflicts md) = (0, cs')"
  shows "md_loc_upd E contents md (md_set_item k (md_dec_item (md_item md k)) (md\<lparr>md_conflicts := cs'\<rparr>)) k None"
proof -
  have d: "m_type (md_item md k) = BUCKET_CONFLICT_DATA" "md_fast md k = None"
    using md_slot_okD(5) [OF inv k, of "fst e" "snd e"] s by simp_all
  then have l: "md_loc E md k = Some e" using s by (simp add: md_loc_def)
  have dk: "digest_key k" using k by (simp add: digest_key_def)
  note c = cfa_del_correct [OF md_index_invD(4) [OF inv] dk del] cfa_del_answers [OF md_index_invD(4,5) [OF inv] k del]
  have "md_loc_upd E contents md (md_set_item k (md_dec_item (md_item md k)) (md\<lparr>md_conflicts := cs'\<rparr>)) k
      (case None of Some e \<Rightarrow> Some e | None \<Rightarrow> None)"
    by (rule md_conflict_step [OF inv k d(1), where cs' = cs' and fcs' = "md_fast_conflicts md"
          and it = "md_dec_item (md_item md k)"])
      (use c md_index_invD(3) [OF inv] d(2) md_dec_item_ok [OF inv k d(1)] l
        in \<open>auto simp: md_fast_def md_slow_def digest_key_def\<close>)
  then show ?thesis by simp
qed

section \<open>Splitting a slot\<close>

text \<open>New conflict records change nothing.\<close>

lemma md_fcs_frame:
  assumes inv: "md_index_inv E contents md" and md': "md' = md\<lparr>md_fast_conflicts := fcs'\<rparr>"
    and files: "\<forall>f<256. fc_inv (fcs' f) \<and> fc_file_id (fcs' f) = f"
    and live: "\<And>f. f < 256 \<Longrightarrow> fc_live (md_fast_conflicts md f) \<subseteq> fc_live (fcs' f)"
    and recs: "\<And>f i. f < 256 \<Longrightarrow> i \<in> fc_live (md_fast_conflicts md f) \<Longrightarrow>
      fc_record (fcs' f) i = fc_record (md_fast_conflicts md f) i"
  shows "md_index_inv E contents md' \<and> (\<forall>k. length k = 16 \<longrightarrow> md_loc E md' k = md_loc E md k)"
proof -
  let ?bks = "md_buckets md" and ?fcs = "md_fast_conflicts md" and ?fks = "md_fullkeys md"
  note finv = md_index_invD(3) [OF inv]
  have f256: "unat (k ! 0) < 256" for k :: bytes by simp
  have rec: "\<exists>i\<in>fc_live (get_fast_conflict fcs' k). m_block_id (fca_slot ?bks k) = block_id_set (unat (k ! 0)) i
        \<and> fca_rec ?bks fcs' k = fca_rec ?bks ?fcs k \<and> rec_ok (get_fullkey ?fks k) (fca_rec ?bks ?fcs k)"
    if m: "fca_member ?bks k" for k
  proof (rule fca_member_record [OF finv m])
    fix i
    assume i: "i \<in> fc_live (get_fast_conflict ?fcs k)" "m_block_id (fca_slot ?bks k) = block_id_set (unat (k ! 0)) i"
      "m_data_id (m_block_id (fca_slot ?bks k)) = i" "rec_ok (get_fullkey ?fks k) (fca_rec ?bks ?fcs k)"
    have "i \<in> fc_live (get_fast_conflict fcs' k)" "fca_rec ?bks fcs' k = fca_rec ?bks ?fcs k"
      using i(1,3) live [OF f256 [of k]] recs [OF f256 [of k]] by (auto simp: get_fast_conflict_def fca_rec_def)
    then show ?thesis using i by blast
  qed
  have fca: "fca_inv ?bks ?fks fcs'"
    by (rule fca_invI [OF files]) (use rec fca_inv_slot_inj [OF finv] in metis)+
  have fast: "md_fast md' k = md_fast md k" if "length k = 16" "m_type (md_item md k) = BUCKET_CONFLICT_DATA" for k
  proof -
    have m: "fca_member ?bks k" using that by (simp add: md_member_iff)
    show ?thesis using rec [OF m] by (auto simp: md_fast_def md' fca_look_eq [OF fca m] fca_look_eq [OF finv m])
  qed
  have sel: "md_item md' k = md_item md k" "md_slow E md' k = md_slow E md k" "md_names md' k b = md_names md k b"
    "md_fk md' k = md_fk md k" for k b
    by (simp_all add: md' md_item_def md_slow_def md_names_def md_fk_def)
  have loc: "md_loc E md' k = md_loc E md k" if "length k = 16" for k
    using fast [OF that] by (simp add: md_loc_def sel Let_def cong: option.case_cong)
  then have sk: "md_slot_keys E md' k = md_slot_keys E md k" for k by (auto simp: md_slot_keys_def)
  have "md_slot_ok E md' k" if k: "length k = 16" for k
  proof -
    have "fca_rec (md_buckets md') (md_fast_conflicts md') k = fca_rec ?bks ?fcs k"
      if "m_type (md_item md k) = BUCKET_CONFLICT_DATA" using rec [of k] that k by (auto simp: md_member_iff md')
    then show ?thesis
      using md_index_invD(6) [OF inv k] fast [OF k] unfolding md_slot_ok_def sel sk by auto
  qed
  then have "md_index_inv E contents md'"
    by (rule md_index_invI [rotated 4]) (use fca md_index_invD(4,5,7) [OF inv] inv loc in \<open>auto simp: md' md_index_inv_def\<close>)
  then show ?thesis using loc by simp
qed

text \<open>
  A direct slot becomes a conflict slot whose record has the two keys. The record must not
  be that of another slot.
\<close>

lemma md_split_fca:
  assumes inv: "md_index_inv E contents md" and k: "length k = 16" and t: "m_type (md_item md k) \<noteq> BUCKET_CONFLICT_DATA"
    and i: "i \<in> fc_live (md_fast_conflicts md (unat (k ! 0)))"
      "rec_ok (md_fk md k) (fc_record (md_fast_conflicts md (unat (k ! 0))) i)"
    and free [rule_format]: "\<forall>k'. fca_member (md_buckets md) k' \<longrightarrow> k' ! 0 = k ! 0 \<longrightarrow>
      m_data_id (m_block_id (md_item md k')) \<noteq> i"
    and it: "m_type it = BUCKET_CONFLICT_DATA" "m_block_id it = block_id_set (unat (k ! 0)) i"
  shows "fca_inv (md_buckets (md_set_item k it md)) (md_fullkeys md) (md_fast_conflicts md)"
    "same_slot k' k \<Longrightarrow> fca_rec (md_buckets (md_set_item k it md)) (md_fast_conflicts md) k'
       = fc_record (md_fast_conflicts md (unat (k ! 0))) i"
proof -
  let ?f = "unat (k ! 0)" and ?bks = "md_buckets md" and ?fcs = "md_fast_conflicts md" and ?fks = "md_fullkeys md"
  let ?bks' = "md_buckets (md_set_item k it md)"
  note finv = md_index_invD(3) [OF inv]
  have f: "fc_inv (?fcs ?f)" using finv by (simp add: fca_inv_def)
  have d: "m_data_id (m_block_id it) = i"
    using fc_live_bounds(4) [OF f i(1)] by (simp add: it(2) block_id_set_def trunc_def)
  have slot: "fca_slot ?bks' k' = (if same_slot k' k then it else fca_slot ?bks k')" for k'
    using md_item_set [of k it md k'] by (simp add: md_item_slot)
  have mem: "fca_member ?bks' k' \<longleftrightarrow> length k' = 16 \<and> (same_slot k' k \<or> fca_member ?bks k')" for k'
    using it(1) by (auto simp: fca_member_def slot)
  have ns: "fca_member ?bks k' \<Longrightarrow> \<not> same_slot k' k" for k' using t by (auto simp: md_member_iff same_slot_item(1))
  have rec: "fca_rec ?bks' ?fcs k' = fc_record (?fcs ?f) i" if "same_slot k' k" for k'
    using that d slot [of k'] same_slot_item(4) [OF that] by (simp add: fca_rec_def get_fast_conflict_def)
  then show "same_slot k' k \<Longrightarrow> fca_rec ?bks' ?fcs k' = fc_record (?fcs ?f) i" .
  show "fca_inv ?bks' ?fks ?fcs"
  proof (rule fca_invI)
    show "\<forall>f<256. fc_inv (?fcs f) \<and> fc_file_id (?fcs f) = f" using finv by (simp add: fca_inv_def)
    fix k1 assume m1: "fca_member ?bks' k1"
    show "\<exists>i\<in>fc_live (get_fast_conflict ?fcs k1). m_block_id (fca_slot ?bks' k1) = block_id_set (unat (k1 ! 0)) i
        \<and> rec_ok (get_fullkey ?fks k1) (fca_rec ?bks' ?fcs k1)"
    proof (cases "same_slot k1 k")
      case True
      have "get_fullkey ?fks k1 = md_fk md k" using True by (simp add: md_fk_def get_fullkey_def same_slot_def)
      then show ?thesis
        using i it(2) True by (intro bexI [of _ i]) (simp_all add: rec slot get_fast_conflict_def same_slot_item(4) [OF True])
    next
      case False
      then have m: "fca_member ?bks k1" using m1 mem by simp
      show ?thesis
        unfolding md_rec_set [OF False] slot if_not_P [OF False] using fca_member_record [OF finv m] by metis
    qed
    fix k2
    assume m2: "fca_member ?bks' k2" "k2 ! 0 = k1 ! 0"
      "m_data_id (m_block_id (fca_slot ?bks' k2)) = m_data_id (m_block_id (fca_slot ?bks' k1))"
    have nf: "m_data_id (m_block_id (fca_slot ?bks k')) \<noteq> i" if "\<not> same_slot k' k" "fca_member ?bks' k'" "k' ! 0 = k ! 0" for k'
      using free [of k'] that mem by (simp add: md_item_slot)
    show "key_to_item k2 = key_to_item k1"
    proof (cases "same_slot k1 k")
      case True
      have "same_slot k2 k"
      proof (rule ccontr)
        assume n: "\<not> same_slot k2 k"
        then show False using nf [OF n m2(1)] m2(2,3) d True same_slot_item(4) [OF True] by (simp add: slot)
      qed
      then show ?thesis using True by (simp add: same_slot_def)
    next
      case False
      have n2: "\<not> same_slot k2 k"
      proof
        assume y: "same_slot k2 k"
        then show False using nf [OF False m1] m2(2,3) d False same_slot_item(4) [OF y] by (simp add: slot)
      qed
      have m: "fca_member ?bks k1" "fca_member ?bks k2" using m1 m2(1) False n2 mem by simp_all
      show ?thesis by (rule fca_inv_slot_inj [OF finv m m2(2)]) (use m2(3) False n2 in \<open>simp add: slot\<close>)
    qed
  qed
qed

lemma md_split:
  assumes inv: "md_index_inv E contents md" and k: "length k1 = 16" "length k2 = 16" "same_slot k1 k2" "k1 \<noteq> k2"
    and t: "m_type (md_item md k2) = BUCKET_DIRECT_DATA" and l1: "md_loc E md k1 = Some (b1, v1)"
    and nm2: "md_names md k2 b2" and fresh: "\<forall>k' v'. length k' = 16 \<longrightarrow> md_loc E md k' \<noteq> Some (b2, v')"
    and i: "i \<in> fc_live (md_fast_conflicts md (unat (k2 ! 0)))"
      "fc_record (md_fast_conflicts md (unat (k2 ! 0))) i =
         fca_item b1 w1 item_zero # fca_item b2 w2 item_zero # replicate n item_zero"
    and free: "\<forall>k'. fca_member (md_buckets md) k' \<longrightarrow> k' ! 0 = k2 ! 0 \<longrightarrow> m_data_id (m_block_id (md_item md k')) \<noteq> i"
    and it: "m_type it = BUCKET_CONFLICT_DATA" "m_block_id it = block_id_set (unat (k2 ! 0)) i" "get_conflict_count it = 2"
  shows "md_index_inv E contents (md_set_item k2 it md) \<and> (\<forall>k'. length k' = 16 \<longrightarrow> md_loc E (md_set_item k2 it md) k' =
    (if k' = k1 then Some (b1, stored_version w1) else if k' = k2 then Some (b2, stored_version w2) else md_loc E md k'))"
proof -
  let ?md = "md_set_item k2 it md" and ?fcs = "md_fast_conflicts md"
  have nm1: "md_names md k1 b1" by (rule md_loc_names(1) [OF inv k(1) l1])
  have fk: "md_fk md k1 = md_fk md k2" by (rule same_slot_item(2) [OF k(3)])
  have ne: "drop 3 k1 \<noteq> drop 3 k2" using same_slot_eqI [OF k(3,1,2)] k(4) by blast
  note pair = rec_look_pair [OF md_names_fca(1) [OF inv nm1] md_names_fca(1) [OF inv nm2]
      fk [unfolded md_fk_def] refl ne i(2), folded md_fk_def]
  have nt: "m_type (md_item md k2) \<noteq> BUCKET_CONFLICT_DATA" using t by simp
  note sp = md_split_fca [OF inv k(2) nt i(1) pair(1) free it(1,2)]
  have slow: "md_slow E md k' = None" if "length k' = 16" "same_slot k' k2" for k'
    using md_slot_okD(5) [OF inv that(1)] t that(2) by (cases "md_slow E md k'") (auto simp: same_slot_item(1))
  have loc: "md_loc E ?md k' = (if k' = k1 then Some (b1, stored_version w1)
      else if k' = k2 then Some (b2, stored_version w2) else None)" if k': "length k' = 16" "same_slot k' k2" for k'
  proof -
    have m: "fca_member (md_buckets ?md) k'" using k' it(1) by (simp add: md_member_iff md_item_set)
    have "drop 3 k' = drop 3 k1 \<longleftrightarrow> k' = k1" "drop 3 k' = drop 3 k2 \<longleftrightarrow> k' = k2"
      using same_slot_eqI [OF _ k'(1) k(1)] same_slot_eqI [OF k'(2,1) k(2)] k'(2) k(3) same_slot_trans same_slot_sym by metis+
    then have "md_fast ?md k' = (if k' = k1 then Some (b1, stored_version w1)
        else if k' = k2 then Some (b2, stored_version w2) else None)"
      using fca_look_eq [OF sp(1) m] sp(2) [OF k'(2)] pair(2) same_slot_item(2) [OF k'(2), of md]
      by (simp add: md_fast_def md_fk_def)
    then show ?thesis using k' it(1) slow [OF k'] by (simp add: md_loc_def md_item_set)
  qed
  have keys: "md_slot_keys E ?md k' = {k1, k2}" if "same_slot k' k2" for k'
  proof -
    have ss: "same_slot x k' \<longleftrightarrow> same_slot x k2" for x using that same_slot_trans same_slot_sym by blast
    have "x \<in> md_slot_keys E ?md k' \<longleftrightarrow> x = k1 \<or> x = k2" for x
      using loc [of x] k unfolding md_slot_keys_def mem_Collect_eq ss
      by (cases "length x = 16 \<and> same_slot x k2") auto
    then show ?thesis by blast
  qed
  have ins: "md_slot_ok E ?md k'" if k': "length k' = 16" "same_slot k' k2" for k'
  proof -
    have "\<exists>k3. length k3 = 16 \<and> same_slot k3 k' \<and> md_names md k3 (m_block_id x)"
      if "x \<in> set (fc_record (?fcs (unat (k2 ! 0))) i)" "m_data_id (m_block_id x) \<noteq> 0" for x
    proof -
      have "same_slot k1 k'" "same_slot k2 k'" using k(3) k'(2) same_slot_trans same_slot_sym by blast+
      then show ?thesis using that nm1 nm2 k(1,2) unfolding i(2) by (auto simp: item_zero_def block_id_zero_def)
    qed
    then show ?thesis
      unfolding md_slot_ok_def md_set_item_sel keys [OF k'(2)] sp(2) [OF k'(2)]
      using slow [OF k'] it(1,3) k(4) k'(2) by (simp add: md_item_set)
  qed
  have locs: "md_names md k' b \<and> (\<forall>k'' v'. length k'' = 16 \<longrightarrow> \<not> same_slot k'' k2 \<longrightarrow> md_loc E md k'' \<noteq> Some (b, v'))"
    if k': "length k' = 16" "same_slot k' k2" "md_loc E ?md k' = Some (b, v)" for k' b v
  proof (cases "k' = k1")
    case True
    then have "b = b1" using loc [OF k'(1,2)] k'(3) by simp
    then show ?thesis using True nm1 md_index_invD(7) [OF inv k(1) _ l1] k(3) by blast
  next
    case False
    then have "k' = k2" "b = b2" using loc [OF k'(1,2)] k'(3) by (simp_all split: if_splits)
    then show ?thesis using nm2 fresh by blast
  qed
  have st: "md_index_inv E contents ?md
      \<and> (\<forall>k'. length k' = 16 \<longrightarrow> \<not> same_slot k' k2 \<longrightarrow> md_loc E ?md k' = md_loc E md k')"
    by (rule md_slot_step [OF inv]) (use sp(1) md_index_invD(4,5) [OF inv] ins locs in \<open>simp_all add: md_item_set md_rec_set\<close>)
  have "md_loc E md k' = None" if "length k' = 16" "same_slot k' k2" "k' \<noteq> k1" for k'
    using md_direct [OF inv k(2) t] l1 k(1,3) that by (metis option.distinct(1))
  then show ?thesis using st loc k by auto
qed

end
