(* ===== verification/Md5db_Values.thy ===== *)
theory Md5db_Values
  imports Md5db_Slots
begin

text \<open>
  The values of the md5db engine: every located record names a value of the value files of
  its own. Writing, replacing and removing a value under the invariant of the whole engine.
\<close>

section \<open>The invariant\<close>

text \<open>The value files together with the page numbers they can use fit into \<open>content_id_t\<close>.\<close>

definition md_small :: "'d md5db \<Rightarrow> bool" where
  "md_small md \<longleftrightarrow> length (ca_contents (md_contents md)) \<le> 256
     \<and> (\<forall>ct\<in>set (ca_contents (md_contents md)). ct_pages ct \<le> 268435456)"

definition md_handle :: "'d md5db \<Rightarrow> bytes \<Rightarrow> block_id_t \<Rightarrow> (nat \<times> nat) option" where
  "md_handle md k b = map_option (\<lambda>c. (content_file_id c, content_data_id c)) (fk_get_content_id (md_fk md k) b)"

definition md_stores :: "'d md5db \<Rightarrow> (nat \<times> nat \<rightharpoonup> bytes) \<Rightarrow> bytes \<Rightarrow> block_id_t \<Rightarrow> bytes \<Rightarrow> bool" where
  "md_stores md m k b w \<longleftrightarrow>
     (\<exists>c. fk_get_content_id (md_fk md k) b = Some c \<and> m (content_file_id c, content_data_id c) = Some w
        \<and> length w = content_data_len c)"

definition md_owns ::
  "'d md5db_env \<Rightarrow> ('d \<Rightarrow> bytes \<Rightarrow> bytes option) \<Rightarrow> 'd md5db \<Rightarrow> (nat \<times> nat \<rightharpoonup> bytes) \<Rightarrow> bool" where
  "md_owns E contents md m \<longleftrightarrow> md_index_inv E contents md \<and> ca_owns (md_contents md) m
     \<and> (\<forall>k b v. length k = 16 \<longrightarrow> md_loc E md k = Some (b, v) \<longrightarrow> (\<exists>w. md_stores md m k b w))
     \<and> (\<forall>k k' b b' v v'. length k = 16 \<longrightarrow> length k' = 16 \<longrightarrow> md_loc E md k = Some (b, v) \<longrightarrow>
          md_loc E md k' = Some (b', v') \<longrightarrow> k' \<noteq> k \<longrightarrow> md_handle md k b \<noteq> md_handle md k' b')"

definition md_inv :: "'d md5db_env \<Rightarrow> ('d \<Rightarrow> bytes \<Rightarrow> bytes option) \<Rightarrow> 'd md5db \<Rightarrow> bool" where
  "md_inv E contents md \<longleftrightarrow> (\<exists>m. md_owns E contents md m)"

text \<open>
  The map the engine stands for: the version and the stored bytes of a digest.
\<close>

definition md_abs :: "'d md5db_env \<Rightarrow> 'd md5db \<Rightarrow> bytes \<Rightarrow> (nat \<times> bytes) option" where
  "md_abs E md k =
     (case md_loc E md k of
        None \<Rightarrow> None
      | Some (b, v) \<Rightarrow>
          (case fk_get_content_id (md_fk md k) b of
             None \<Rightarrow> None
           | Some c \<Rightarrow> map_option (Pair v) (ca_get (\<lambda>_. content_io_good) (content_file_id c) (content_data_id c)
                        (content_data_len c) (md_contents md))))"

section \<open>Content identifiers\<close>

lemma md_ownsD:
  assumes "md_owns E contents md m"
  shows "md_index_inv E contents md" "ca_owns (md_contents md) m"
    "length k = 16 \<Longrightarrow> md_loc E md k = Some (b, v) \<Longrightarrow> \<exists>w. md_stores md m k b w"
    "length k = 16 \<Longrightarrow> length k' = 16 \<Longrightarrow> md_loc E md k = Some (b, v) \<Longrightarrow> md_loc E md k' = Some (b', v') \<Longrightarrow>
      k' \<noteq> k \<Longrightarrow> md_handle md k b \<noteq> md_handle md k' b'"
  using assms unfolding md_owns_def by blast+

lemma ca_owns_value:
  assumes "ca_owns ca m" "m (f, p) = Some d"
  shows "f < length (ca_contents ca)" "p \<in> {1..<ct_pages (ca_contents ca ! f)}" "0 < length d" "length d < 268435456"
proof -
  show f: "f < length (ca_contents ca)" by (rule ca_owns_file [OF assms])
  note o = ct_ownsD [OF ca_ownsD(2) [OF assms(1) f] assms(2)]
  show l: "0 < length d" "length d < 268435456" using o(1,2) by simp_all
  have "p \<in> pgs p (length d)" using o(1) by (simp add: pgs_def page_count_pos)
  then show "p \<in> {1..<ct_pages (ca_contents ca ! f)}" using o(3) by (auto simp: ct_alloc_def)
qed

lemma content_id_set_fits:
  assumes "f < 256" "p < 268435456" "n < 268435456"
  shows "content_file_id (content_id_set (trunc 8 f) p (trunc 32 n)) = f"
    "content_data_id (content_id_set (trunc 8 f) p (trunc 32 n)) = p"
    "content_data_len (content_id_set (trunc 8 f) p (trunc 32 n)) = n"
    "content_id_wf (content_id_set (trunc 8 f) p (trunc 32 n))"
proof -
  have "f div 16 < 16" using assms(1) by simp
  moreover have "f div 16 * 16 + f mod 16 = f" by simp
  ultimately show "content_file_id (content_id_set (trunc 8 f) p (trunc 32 n)) = f"
    using assms(1) by (simp add: content_file_id_def content_id_set_def trunc_def)
qed (use assms in \<open>simp_all add: content_data_id_def content_data_len_def content_id_set_def content_id_wf_def trunc_def\<close>)

lemma fk_set_content_id_live:
  assumes "fk_inv fk" "i \<in> fk_live fk" "content_id_wf c" "content_file_id c \<le> 255" "content_data_id c \<noteq> 0" "content_data_len c \<noteq> 0"
  shows "fk_set_content_id (block_id_set (fk_file_id fk) i) c fk =
      (True, fk\<lparr>fk_data := (fk_data fk)(i := (fk_data fk i)\<lparr>m_content_id := c\<rparr>)\<rparr>)"
    "fk_inv (fk\<lparr>fk_data := (fk_data fk)(i := (fk_data fk i)\<lparr>m_content_id := c\<rparr>)\<rparr>)"
    "fk_live (fk\<lparr>fk_data := (fk_data fk)(i := (fk_data fk i)\<lparr>m_content_id := c\<rparr>)\<rparr>) = fk_live fk"
  using assms fk_upd_live [OF assms(1,2), of "(fk_data fk i)\<lparr>m_content_id := c\<rparr>"] fk_invD(5) [OF assms(1), of i]
  by (simp_all add: fk_set_content_id_def fk_parse_live)

lemma fk_get_content_live:
  assumes "fk_inv fk" "i \<in> fk_live fk"
  shows "fk_get_content_id fk (block_id_set (fk_file_id fk) i) = Some (m_content_id (fk_data fk i))"
  using fk_parse_live [OF assms] by (simp add: fk_get_content_id_def)

lemma md_index_cong:
  assumes "md_buckets md' = md_buckets md" "md_fullkeys md' = md_fullkeys md"
    "md_fast_conflicts md' = md_fast_conflicts md" "md_conflicts md' = md_conflicts md"
  shows "md_index_inv E contents md' = md_index_inv E contents md" "md_loc E md' k = md_loc E md k"
    "md_names md' k b = md_names md k b" "md_fk md' k = md_fk md k" "md_item md' k = md_item md k"
    "md_slot_keys E md' k = md_slot_keys E md k" "md_handle md' k b = md_handle md k b"
    "md_stores md' m k b w = md_stores md m k b w"
proof -
  have f: "md_fk md' = md_fk md" "md_item md' = md_item md" by (simp_all add: fun_eq_iff md_fk_def md_item_def assms)
  have n: "md_names md' = md_names md" "md_fast md' = md_fast md" "md_slow E md' = md_slow E md"
    by (simp_all add: fun_eq_iff md_names_def md_fast_def md_slow_def f assms)
  have l: "md_loc E md' = md_loc E md" unfolding fun_eq_iff md_loc_def f n by simp
  have k: "md_slot_keys E md' = md_slot_keys E md" by (simp add: fun_eq_iff md_slot_keys_def l)
  have o: "md_slot_ok E md' = md_slot_ok E md" unfolding fun_eq_iff md_slot_ok_def f n k assms by simp
  show "md_index_inv E contents md' = md_index_inv E contents md" unfolding md_index_inv_def o l assms ..
  show "md_loc E md' k = md_loc E md k" "md_names md' k b = md_names md k b" "md_fk md' k = md_fk md k"
    "md_item md' k = md_item md k" "md_slot_keys E md' k = md_slot_keys E md k"
    by (simp_all add: f n l k)
  show "md_handle md' k b = md_handle md k b" "md_stores md' m k b w = md_stores md m k b w"
    by (simp_all add: md_handle_def md_stores_def f)
qed

lemma md_set_fk_sel [simp]:
  "md_buckets (md_set_fk k fk md) = md_buckets md" "md_fast_conflicts (md_set_fk k fk md) = md_fast_conflicts md"
  "md_conflicts (md_set_fk k fk md) = md_conflicts md" "md_contents (md_set_fk k fk md) = md_contents md"
  "md_data (md_set_fk k fk md) = md_data md" "md_query_ctxts (md_set_fk k fk md) = md_query_ctxts md"
  "md_now (md_set_fk k fk md) = md_now md" "md_item (md_set_fk k fk md) k' = md_item md k'"
  "md_fullkeys (md_set_fk k fk md) = (md_fullkeys md)(unat (k ! 0) := fk)"
  by (simp_all add: md_set_fk_def md_item_def)

lemma md_fk_set: "md_fk (md_set_fk k fk md) k' = (if k' ! 0 = k ! 0 then fk else md_fk md k')"
  by (auto simp: md_fk_def get_fullkey_def dest: byte_eqI)

text \<open>Replacing one key file.\<close>

lemma md_set_fk_frame:
  assumes inv: "md_index_inv E contents md" and fk: "fk_inv fk" "fk_file_id fk = unat (k ! 0)"
    and keep: "\<And>k' b v. length k' = 16 \<Longrightarrow> md_loc E md k' = Some (b, v) \<Longrightarrow> md_names (md_set_fk k fk md) k' b"
  shows "md_index_inv E contents (md_set_fk k fk md)"
    "length k' = 16 \<Longrightarrow> md_loc E (md_set_fk k fk md) k' = md_loc E md k'"
proof -
  have "\<forall>f<256. fk_inv (((md_fullkeys md)(unat (k ! 0) := fk)) f) \<and> fk_file_id (((md_fullkeys md)(unat (k ! 0) := fk)) f) = f"
    using inv fk by (auto simp: md_index_inv_def)
  note f = md_fk_frame [OF inv md_set_fk_def this keep]
  show "md_index_inv E contents (md_set_fk k fk md)" by (rule f(1))
  show "length k' = 16 \<Longrightarrow> md_loc E (md_set_fk k fk md) k' = md_loc E md k'" by (rule f(2))
qed

lemma md_names_live:
  assumes "md_index_inv E contents md" "md_names md k b"
  obtains i where "i \<in> fk_live (md_fk md k)" "b = block_id_set (fk_file_id (md_fk md k)) i" "i < 4294967296"
    "m_md5_suffix (fk_data (md_fk md k) i) = drop 3 k"
    "fk_get_content_id (md_fk md k) b = Some (m_content_id (fk_data (md_fk md k) i))"
  using assms(2) fk_live_bounds(4) [OF md_index_invD(1) [OF assms(1)]] fk_get_content_live [OF md_index_invD(1) [OF assms(1)]]
  unfolding md_names_def md_index_invD(2) [OF assms(1), symmetric] by metis

lemma md_set_content:
  assumes inv: "md_index_inv E contents md" and nm: "md_names md k b"
    and c: "content_id_wf c" "content_file_id c \<le> 255" "content_data_id c \<noteq> 0" "content_data_len c \<noteq> 0"
    and set: "fk_set_content_id b c (md_fk md k) = (ok, fk)"
  shows "ok" "md_index_inv E contents (md_set_fk k fk md)"
    "length k' = 16 \<Longrightarrow> md_loc E (md_set_fk k fk md) k' = md_loc E md k'"
    "md_names (md_set_fk k fk md) k' b' = md_names md k' b'"
    "fk_get_content_id fk b = Some c"
    "md_names md k' b' \<Longrightarrow> b' \<noteq> b \<Longrightarrow>
      fk_get_content_id (md_fk (md_set_fk k fk md) k') b' = fk_get_content_id (md_fk md k') b'"
proof -
  let ?fk = "md_fk md k" and ?md = "md_set_fk k fk md"
  note d = md_index_invD(1,2) [OF inv, of k]
  obtain i where i: "i \<in> fk_live ?fk" "b = block_id_set (fk_file_id ?fk) i" "i < 4294967296"
    using md_names_live [OF inv nm] by metis
  note s = fk_set_content_id_live [OF d(1) i(1) c]
  have fk: "fk = ?fk\<lparr>fk_data := (fk_data ?fk)(i := (fk_data ?fk i)\<lparr>m_content_id := c\<rparr>)\<rparr>"
    and "ok" using s(1) set i(2) by simp_all
  then show ok by simp
  have fi: "fk_inv fk" "fk_live fk = fk_live ?fk" "fk_file_id fk = fk_file_id ?fk" using s(2,3) by (simp_all add: fk)
  have suf: "m_md5_suffix (fk_data fk j) = m_md5_suffix (fk_data ?fk j)" for j by (simp add: fk)
  have names: "md_names ?md k' b' = md_names md k' b'" for k' b'
  proof (cases "k' ! 0 = k ! 0")
    case True
    then have "md_fk md k' = ?fk" by (simp add: md_fk_def get_fullkey_def)
    then show ?thesis using True by (simp add: md_names_def md_fk_set fi(2) suf)
  qed (simp add: md_names_def md_fk_set)
  then show "md_names ?md k' b' = md_names md k' b'" .
  have keep: "\<And>k' b v. length k' = 16 \<Longrightarrow> md_loc E md k' = Some (b, v) \<Longrightarrow> md_names ?md k' b"
    using md_loc_names(1) [OF inv] names by blast
  have id: "fk_file_id fk = unat (k ! 0)" using fi(3) d(2) by simp
  show "md_index_inv E contents ?md" by (rule md_set_fk_frame(1) [OF inv fi(1) id keep])
  show "length k' = 16 \<Longrightarrow> md_loc E ?md k' = md_loc E md k'" by (rule md_set_fk_frame(2) [OF inv fi(1) id keep])
  have "i \<in> fk_live fk" using i(1) fi(2) by simp
  from fk_get_content_live [OF fi(1) this] show "fk_get_content_id fk b = Some c"
    unfolding i(2) fi(3) by (simp add: fk)
  assume nm': "md_names md k' b'" and ne: "b' \<noteq> b"
  obtain j where j: "j \<in> fk_live (md_fk md k')" "b' = block_id_set (fk_file_id (md_fk md k')) j"
      "fk_get_content_id (md_fk md k') b' = Some (m_content_id (fk_data (md_fk md k') j))"
    using md_names_live [OF inv nm'] by metis
  show "fk_get_content_id (md_fk ?md k') b' = fk_get_content_id (md_fk md k') b'"
  proof (cases "k' ! 0 = k ! 0")
    case True
    then have e: "md_fk md k' = ?fk" by (simp add: md_fk_def get_fullkey_def)
    then have "j \<in> fk_live fk" "b' = block_id_set (fk_file_id fk) j" "j \<noteq> i" using j(1,2) fi(2,3) ne i(2) by auto
    from fk_get_content_live [OF fi(1) this(1)] this j(3) show ?thesis
      using True e by (simp add: md_fk_set) (simp add: fk)
  qed (simp add: md_fk_set)
qed

section \<open>Owned values\<close>

lemma md_stores_handle:
  assumes "md_stores md m k b w"
  obtains f p where "md_handle md k b = Some (f, p)" "m (f, p) = Some w"
  using assms by (auto simp: md_stores_def md_handle_def)

lemma md_stores_content:
  assumes "fk_get_content_id (md_fk md' k) b = fk_get_content_id (md_fk md k) b"
  shows "md_handle md' k b = md_handle md k b" "md_stores md' m k b w = md_stores md m k b w"
  using assms by (simp_all add: md_handle_def md_stores_def)

lemma good_rd: "ca_rd_ok (\<lambda>_. content_io_good)"
  by (simp add: ca_rd_ok_def content_io_good_def)

lemma md_abs_eq:
  assumes "md_owns E contents md m" "length k = 16"
  shows "md_abs E md k = None \<longleftrightarrow> md_loc E md k = None"
    "md_loc E md k = Some (b, v) \<Longrightarrow> md_stores md m k b w \<Longrightarrow> md_abs E md k = Some (v, w)"
proof -
  have r: "md_abs E md k = Some (v, w)" if h: "md_loc E md k = Some (b, v)" "md_stores md m k b w" for b v w
  proof -
    obtain c where c: "fk_get_content_id (md_fk md k) b = Some c" "m (content_file_id c, content_data_id c) = Some w"
        "length w = content_data_len c"
      using h(2) by (auto simp: md_stores_def)
    from vals.rd_owned [OF md_ownsD(2) [OF assms(1)] c(2) good_rd] h(1) c(1,3) show ?thesis
      by (simp add: md_abs_def)
  qed
  then show "md_loc E md k = Some (b, v) \<Longrightarrow> md_stores md m k b w \<Longrightarrow> md_abs E md k = Some (v, w)" .
  show "md_abs E md k = None \<longleftrightarrow> md_loc E md k = None"
  proof (cases "md_loc E md k")
    case (Some e)
    obtain w where "md_stores md m k (fst e) w"
      using md_ownsD(3) [OF assms, of "fst e" "snd e"] Some by auto
    from r [OF _ this, of "snd e"] Some show ?thesis by simp
  qed (simp add: md_abs_def)
qed

text \<open>
  A change of the index after which every located record was located before, or is the
  record of \<open>k\<close> with a value of its own.
\<close>

lemma md_owns_relocate:
  assumes own: "md_owns E contents md m" and inv: "md_index_inv E contents md'"
    and same: "md_contents md' = md_contents md" "md_fullkeys md' = md_fullkeys md"
    and loc [rule_format]: "\<forall>k' b' v'. length k' = 16 \<longrightarrow> md_loc E md' k' = Some (b', v') \<longrightarrow>
      (\<exists>v0. md_loc E md k' = Some (b', v0)) \<or> k' = k \<and> b' = b"
    and st: "md_stores md m k b w"
    and priv [rule_format]: "\<forall>k' b' v'. length k' = 16 \<longrightarrow> k' \<noteq> k \<longrightarrow> md_loc E md k' = Some (b', v') \<longrightarrow>
      md_handle md k' b' \<noteq> md_handle md k b"
  shows "md_owns E contents md' m" "\<And>k' b'. md_stores md' m k' b' = md_stores md m k' b'"
proof -
  have fk: "md_fk md' k' = md_fk md k'" for k' by (simp add: md_fk_def same)
  show s: "md_stores md' m k' b' = md_stores md m k' b'" for k' b' by (simp add: fun_eq_iff md_stores_def fk)
  have h: "md_handle md' k' b' = md_handle md k' b'" for k' b' by (simp add: md_handle_def fk)
  have A: "\<exists>w. md_stores md m k' b' w" if "length k' = 16" "md_loc E md' k' = Some (b', v')" for k' b' v'
    using loc [OF that] st md_ownsD(3) [OF own that(1)] by blast
  have B: "md_handle md k1 b1 \<noteq> md_handle md k2 b2"
    if k: "length k1 = 16" "length k2 = 16" "md_loc E md' k1 = Some (b1, v1)" "md_loc E md' k2 = Some (b2, v2)" "k2 \<noteq> k1"
    for k1 k2 b1 b2 v1 v2
    using loc [OF k(1,3)] loc [OF k(2,4)] md_ownsD(4) [OF own k(1,2) _ _ k(5)] priv [OF k(1)] priv [OF k(2)] k(5)
    by metis
  show "md_owns E contents md' m"
    unfolding md_owns_def same s h using inv md_ownsD(2) [OF own] A B by blast
qed

lemma md_owns_cong:
  assumes "md_buckets md' = md_buckets md" "md_fullkeys md' = md_fullkeys md" "md_contents md' = md_contents md"
    "md_fast_conflicts md' = md_fast_conflicts md" "md_conflicts md' = md_conflicts md"
  shows "md_owns E contents md' m = md_owns E contents md m" "md_abs E md' k = md_abs E md k"
    "md_inv E contents md' = md_inv E contents md"
proof -
  note c = md_index_cong [OF assms(1,2,4,5)]
  show o: "md_owns E contents md' m = md_owns E contents md m" for m
    unfolding md_owns_def c assms(3) ..
  then show "md_inv E contents md' = md_inv E contents md" by (simp add: md_inv_def)
  show "md_abs E md' k = md_abs E md k" unfolding md_abs_def c assms(3) ..
qed

text \<open>
  The value of the record \<open>b\<close> of \<open>k\<close> is put at the handle \<open>(f, p)\<close>, and the values of
  the other keys stay where they are.
\<close>

definition md_value_put ::
  "'d md5db_env \<Rightarrow> ('d \<Rightarrow> bytes \<Rightarrow> bytes option) \<Rightarrow> 'd md5db \<Rightarrow> 'd md5db \<Rightarrow> bytes \<Rightarrow> block_id_t \<Rightarrow> bytes \<Rightarrow> bool" where
  "md_value_put E contents md md' k b value \<longleftrightarrow>
     (\<exists>m. md_owns E contents md' m \<and> md_stores md' m k b value
        \<and> (\<forall>k'. length k' = 16 \<longrightarrow> md_loc E md' k' = md_loc E md k')
        \<and> (\<forall>k' b'. md_names md' k' b' = md_names md k' b')
        \<and> (\<forall>k' b' v'. length k' = 16 \<longrightarrow> k' \<noteq> k \<longrightarrow> md_loc E md k' = Some (b', v') \<longrightarrow>
             md_abs E md' k' = md_abs E md k' \<and> md_handle md' k' b' \<noteq> md_handle md' k b))"

lemma md_put_value:
  assumes own: "md_owns E contents md m" and k: "length k = 16" and nm: "md_names md k b"
    and solo: "\<And>k' b' v. length k' = 16 \<Longrightarrow> md_loc E md k' = Some (b', v) \<Longrightarrow> k' = k \<longleftrightarrow> b' = b"
    and ca: "ca_owns ca m'" "m' (f, p) = Some value" "md_small (md\<lparr>md_contents := ca\<rparr>)"
    and keep: "\<And>k' b' v' h w. length k' = 16 \<Longrightarrow> k' \<noteq> k \<Longrightarrow> md_loc E md k' = Some (b', v') \<Longrightarrow>
      md_handle md k' b' = Some h \<Longrightarrow> m h = Some w \<Longrightarrow> m' h = Some w \<and> h \<noteq> (f, p)"
    and set: "fk_set_content_id b (content_id_set (trunc 8 f) p (trunc 32 (length value))) (md_fk md k) = (ok, fk)"
  shows "ok" "md_value_put E contents md (md_set_fk k fk (md\<lparr>md_contents := ca\<rparr>)) k b value"
proof -
  let ?c = "content_id_set (trunc 8 f) p (trunc 32 (length value))"
  let ?md1 = "md_set_fk k fk md" and ?md = "md_set_fk k fk (md\<lparr>md_contents := ca\<rparr>)"
  note inv = md_ownsD(1) [OF own] and cv = ca_owns_value [OF ca(1,2)]
  have "ct_pages (ca_contents ca ! f) \<le> 268435456" "length (ca_contents ca) \<le> 256"
    using ca(3) cv(1) by (auto simp: md_small_def)
  then have fp: "f < 256" "p < 268435456" "p \<noteq> 0" using cv(1,2) by auto
  note c = content_id_set_fits [OF fp(1,2) cv(4)]
  have cc: "content_file_id ?c \<le> 255" "content_data_id ?c \<noteq> 0" "content_data_len ?c \<noteq> 0" using c fp cv(3) by simp_all
  note sc = md_set_content [OF inv nm c(4) cc set]
  show ok by (rule sc(1))
  have eq: "md_index_inv E contents ?md = md_index_inv E contents ?md1" "md_loc E ?md k' = md_loc E ?md1 k'"
    "md_names ?md k' b' = md_names ?md1 k' b'" "md_fk ?md k' = md_fk ?md1 k'" for k' b'
    by (rule md_index_cong; simp add: md_set_fk_def)+
  have st: "md_stores ?md m' k b value" "md_handle ?md k b = Some (f, p)"
    using sc(5) ca(2) c by (simp_all add: md_stores_def md_handle_def md_fk_set)
  have oth: "md_stores ?md m' k' b' w \<and> md_stores md m k' b' w \<and> md_handle ?md k' b' = md_handle md k' b'
      \<and> md_handle ?md k' b' \<noteq> Some (f, p)"
    if k': "length k' = 16" "k' \<noteq> k" "md_loc E md k' = Some (b', v')" "md_stores md m k' b' w" for k' b' v' w
  proof -
    have "b' \<noteq> b" using solo [OF k'(1,3)] k'(2) by simp
    from sc(6) [OF md_loc_names(1) [OF inv k'(1,3)] this]
    have g: "fk_get_content_id (md_fk ?md k') b' = fk_get_content_id (md_fk md k') b'" by (simp add: eq)
    obtain h where h: "md_handle md k' b' = Some h" "m h = Some w" using md_stores_handle [OF k'(4)] by metis
    have "m' h = Some w" "h \<noteq> (f, p)" using keep [OF k'(1,2,3) h] by blast+
    then show ?thesis using k'(4) h md_stores_content [OF g] by (auto simp: md_stores_def md_handle_def)
  qed
  have ex: "\<exists>w. md_stores md m k' b' w" if "length k' = 16" "md_loc E md k' = Some (b', v')" for k' b' v'
    by (rule md_ownsD(3) [OF own that])
  have loc: "md_loc E ?md k' = md_loc E md k'" if "length k' = 16" for k' using sc(3) [OF that] eq by simp
  have own': "md_owns E contents ?md m'"
    unfolding md_owns_def
  proof (intro conjI allI impI)
    show "md_index_inv E contents ?md" using sc(2) eq by simp
    show "ca_owns (md_contents ?md) m'" using ca(1) by simp
    fix k1 b1 v1 assume 1: "length k1 = 16" "md_loc E ?md k1 = Some (b1, v1)"
    note l1 = 1(2) [unfolded loc [OF 1(1)]]
    show "\<exists>w. md_stores ?md m' k1 b1 w"
      using oth [OF 1(1) _ l1] ex [OF 1(1) l1] st(1) solo [OF 1(1) l1] by (cases "k1 = k") blast+
    fix k2 b2 v2 assume 2: "length k2 = 16" "md_loc E ?md k2 = Some (b2, v2)" "k2 \<noteq> k1"
    note l2 = 2(2) [unfolded loc [OF 2(1)]]
    show "md_handle ?md k1 b1 \<noteq> md_handle ?md k2 b2"
      using oth [OF 1(1) _ l1] ex [OF 1(1) l1] oth [OF 2(1) _ l2] ex [OF 2(1) l2] st(2) solo [OF 1(1) l1] solo [OF 2(1) l2]
        md_ownsD(4) [OF own 1(1) 2(1) l1 l2 2(3)] 2(3)
      by (cases "k1 = k"; cases "k2 = k") metis+
  qed
  have "md_abs E ?md k' = md_abs E md k' \<and> md_handle ?md k' b' \<noteq> md_handle ?md k b"
    if k': "length k' = 16" "k' \<noteq> k" "md_loc E md k' = Some (b', v')" for k' b' v'
  proof -
    obtain w where w: "md_stores md m k' b' w" using ex [OF k'(1,3)] by blast
    note o = oth [OF k' w]
    have "md_abs E md k' = Some (v', w)" using md_abs_eq(2) [OF own k'(1,3) w] .
    moreover have "md_abs E ?md k' = Some (v', w)" using md_abs_eq(2) [OF own' k'(1)] loc [OF k'(1)] k'(3) o by simp
    ultimately show ?thesis using o st(2) by metis
  qed
  then show "md_value_put E contents md ?md k b value"
    unfolding md_value_put_def using own' st(1) loc sc(4) eq(3) by blast
qed

section \<open>Writing and replacing a value\<close>

abbreviation (input) md_raw :: "conn_ctxt_t \<Rightarrow> bytes \<Rightarrow> bytes \<Rightarrow> item_ctxt_t \<Rightarrow> 'd md5db \<Rightarrow> bytes" where
  "md_raw conn user_key val ctxt md \<equiv> val @ user_key @ kv_data_bytes (md_kv_data conn user_key ctxt md)"

lemma md_raw_ok:
  assumes "length user_key + length val \<le> MAX_VAL_LEN"
  shows "value_ok (md_raw conn user_key val ctxt md)"
  using assms unfolding value_ok_def length_greater_0_conv [symmetric] by (simp add: width_simps)

lemma set_data_to_content_db_ok:
  assumes own: "md_owns E contents md m" and k: "length k = 16" and l: "md_loc E md k = Some (b, v)"
    and io: "ca_io_ok (e_contents E)" and len: "length user_key + length val \<le> MAX_VAL_LEN"
    and run: "set_data_to_content_db E conn k b user_key val ctxt md = (0, ctxt', md')" and small: "md_small md'"
  shows "md_value_put E contents md md' k b (md_raw conn user_key val ctxt md)"
    "md_buckets md' = md_buckets md \<and> md_fast_conflicts md' = md_fast_conflicts md \<and> md_conflicts md' = md_conflicts md"
proof -
  let ?w = "md_raw conn user_key val ctxt md"
  note inv = md_ownsD(1) [OF own] and vok = md_raw_ok [OF len]
  obtain c e where c: "fk_get_content_id (md_fk md k) b = Some c" "m (content_file_id c, content_data_id c) = Some e"
      "length e = content_data_len c"
    using md_ownsD(3) [OF own k l] by (auto simp: md_stores_def)
  have f: "content_file_id c < 256" by (simp add: content_file_id_def trunc_def)
  obtain p ca fk where up: "ca_update (e_contents E) (content_file_id c) (content_data_id c) (content_data_len c) ?w
        (md_contents md) = (True, p, ca)"
      and set: "fk_set_content_id b (content_id_set (trunc 8 (content_file_id c)) p (trunc 32 (length ?w))) (md_fk md k) = (True, fk)"
      and md': "md' = md_set_fk k fk (md\<lparr>md_contents := ca\<rparr>)"
    using run c(1) f
    by (auto simp: set_data_to_content_db_def md_value_def Let_def trunc_def md_fk_def split: if_splits prod.splits)
  have "ca_up (e_contents E) (content_file_id c, content_data_id c) (length e) ?w (md_contents md)
      = (Some (content_file_id c, p), ca)" using up c(3) by simp
  note u = vals.up_some [OF md_ownsD(2) [OF own] io vok c(2) this]
  have hk: "md_handle md k b = Some (content_file_id c, content_data_id c)" using c(1) by (simp add: md_handle_def)
  have solo: "k' = k \<longleftrightarrow> b' = b" if "length k' = 16" "md_loc E md k' = Some (b', v')" for k' b' v'
    using md_index_invD(7) [OF inv k that(1) l] that l by auto
  define m' where "m' = (m((content_file_id c, content_data_id c) := None))((content_file_id c, p) \<mapsto> ?w)"
  have mo: "ca_owns ca m'" "m' (content_file_id c, p) = Some ?w" using u by (simp_all add: m'_def)
  have keep: "m' h = Some w \<and> h \<noteq> (content_file_id c, p)"
    if "length k' = 16" "k' \<noteq> k" "md_loc E md k' = Some (b', v')" "md_handle md k' b' = Some h" "m h = Some w" for k' b' v' h w
    using md_ownsD(4) [OF own k that(1) l that(3,2)] hk that(4,5) u by (auto simp: m'_def split: if_splits)
  show "md_value_put E contents md md' k b ?w"
    unfolding md' by (rule md_put_value(2) [OF own k md_loc_names(1) [OF inv k l] solo mo _ keep set])
      (use small md' in \<open>simp_all add: md_small_def\<close>)
  show "md_buckets md' = md_buckets md \<and> md_fast_conflicts md' = md_fast_conflicts md \<and> md_conflicts md' = md_conflicts md"
    by (simp add: md')
qed

lemma add_data_to_content_db_ok:
  assumes own: "md_owns E contents md m" and k: "length k = 16" and nm: "md_names md k b" and l: "md_loc E md k = None"
    and fresh: "\<forall>k' v'. length k' = 16 \<longrightarrow> md_loc E md k' \<noteq> Some (b, v')"
    and io: "ca_io_ok (e_contents E)" and len: "length user_key + length val \<le> MAX_VAL_LEN"
    and run: "add_data_to_content_db E conn k b user_key val ctxt md = (0, ctxt', md')" and small: "md_small md'"
  shows "md_value_put E contents md md' k b (md_raw conn user_key val ctxt md)"
    "md_buckets md' = md_buckets md \<and> md_fast_conflicts md' = md_fast_conflicts md \<and> md_conflicts md' = md_conflicts md"
proof -
  let ?w = "md_raw conn user_key val ctxt md"
  note inv = md_ownsD(1) [OF own] and vok = md_raw_ok [OF len]
  obtain f p ca fk ka where wr: "ca_write (e_contents E) ?w (md_contents md) = (Some (f, p), ca)"
      and set: "fk_set_content_id b (content_id_set (trunc 8 f) p (trunc 32 (length ?w))) (md_fk md k) = (True, fk)"
      and md': "md' = (md_set_fk k fk (md\<lparr>md_contents := ca\<rparr>))\<lparr>md_data := ka\<rparr>"
    using run
    by (auto simp: add_data_to_content_db_def md_value_def Let_def md_fk_def split: if_splits prod.splits option.splits)
  note u = vals.wr_some [OF md_ownsD(2) [OF own] io vok wr]
  have solo: "k' = k \<longleftrightarrow> b' = b" if "length k' = 16" "md_loc E md k' = Some (b', v')" for k' b' v'
    using fresh that l by auto
  define m' where "m' = m((f, p) \<mapsto> ?w)"
  have mo: "ca_owns ca m'" "m' (f, p) = Some ?w" using u by (simp_all add: m'_def)
  have keep: "m' h = Some w \<and> h \<noteq> (f, p)" if "m h = Some w" for h w using u that by (auto simp: m'_def)
  let ?md = "md_set_fk k fk (md\<lparr>md_contents := ca\<rparr>)"
  have "md_value_put E contents md ?md k b ?w"
    by (rule md_put_value(2) [OF own k nm solo mo _ keep set]) (use small md' in \<open>simp_all add: md_small_def\<close>)
  moreover have "md_owns E contents md' m' = md_owns E contents ?md m'" "md_abs E md' k' = md_abs E ?md k'" for m' k'
    by (rule md_owns_cong; simp add: md')+
  moreover have "md_loc E md' k' = md_loc E ?md k'" "md_names md' k' b' = md_names ?md k' b'"
    "md_handle md' k' b' = md_handle ?md k' b'" "md_stores md' m' k' b' w = md_stores ?md m' k' b' w" for k' b' m' w
    by (rule md_index_cong; simp add: md')+
  ultimately show "md_value_put E contents md md' k b ?w" unfolding md_value_put_def by simp
  show "md_buckets md' = md_buckets md \<and> md_fast_conflicts md' = md_fast_conflicts md \<and> md_conflicts md' = md_conflicts md"
    by (simp add: md')
qed

end
