(* ===== verification/Md5db_Put.thy ===== *)
theory Md5db_Put
  imports Md5db_Values
begin

text \<open>
  Writing a key: every branch of \<open>put_inner\<close> that succeeds keeps the invariant of the
  engine and updates the map the engine stands for at the digest of the key alone.
\<close>

section \<open>Key records\<close>

text \<open>The engine in \<open>md'\<close> stands for the map of \<open>md\<close> with the entry of \<open>k\<close> replaced.\<close>

definition md_abs_upd ::
  "'d md5db_env \<Rightarrow> ('d \<Rightarrow> bytes \<Rightarrow> bytes option) \<Rightarrow> 'd md5db \<Rightarrow> 'd md5db \<Rightarrow> bytes \<Rightarrow> (nat \<times> bytes) option \<Rightarrow> bool" where
  "md_abs_upd E contents md md' k x \<longleftrightarrow> md_inv E contents md' \<and> md_abs E md' k = x
     \<and> (\<forall>k'. length k' = 16 \<longrightarrow> k' \<noteq> k \<longrightarrow> map_option snd (md_abs E md' k') = map_option snd (md_abs E md k')
          \<and> (\<forall>v w. md_abs E md k' = Some (v, w) \<longrightarrow> v < 64 \<longrightarrow> md_abs E md' k' = Some (v, w)))"

lemma md_abs_updI:
  assumes "md_inv E contents md'" "md_abs E md' k = x"
    "\<And>k'. length k' = 16 \<Longrightarrow> k' \<noteq> k \<Longrightarrow> md_abs E md' k' = md_abs E md k'"
  shows "md_abs_upd E contents md md' k x"
  using assms by (simp add: md_abs_upd_def)

lemma md_fk_step:
  assumes own: "md_owns E contents md m" and fk: "fk_inv fk" "fk_file_id fk = unat (k ! 0)"
    and keep: "\<And>k' j v. length k' = 16 \<Longrightarrow> k' ! 0 = k ! 0 \<Longrightarrow> md_loc E md k' = Some (block_id_set (unat (k ! 0)) j, v) \<Longrightarrow>
      j \<in> fk_live (md_fk md k) \<Longrightarrow> j \<in> fk_live fk \<and> fk_data fk j = fk_data (md_fk md k) j"
  shows "md_owns E contents (md_set_fk k fk md) m"
    "length k' = 16 \<Longrightarrow> md_loc E (md_set_fk k fk md) k' = md_loc E md k'"
    "length k' = 16 \<Longrightarrow> md_abs E (md_set_fk k fk md) k' = md_abs E md k'"
    "length k' = 16 \<Longrightarrow> md_loc E md k' = Some (b, v) \<Longrightarrow> md_handle (md_set_fk k fk md) k' b = md_handle md k' b"
proof -
  let ?md = "md_set_fk k fk md"
  note inv = md_ownsD(1) [OF own]
  have both: "md_names ?md k' b \<and> fk_get_content_id (md_fk ?md k') b = fk_get_content_id (md_fk md k') b"
    if k': "length k' = 16" "md_loc E md k' = Some (b, v)" for k' b v
  proof (cases "k' ! 0 = k ! 0")
    case True
    have e: "md_fk md k' = md_fk md k" using True by (simp add: md_fk_def get_fullkey_def)
    note nm = md_loc_names(1) [OF inv k']
    obtain j where j: "j \<in> fk_live (md_fk md k)" "b = block_id_set (unat (k ! 0)) j"
        "m_md5_suffix (fk_data (md_fk md k) j) = drop 3 k'"
        "fk_get_content_id (md_fk md k) b = Some (m_content_id (fk_data (md_fk md k) j))"
      using md_names_live [OF inv nm] md_index_invD(2) [OF inv, of k'] e True by metis
    have s: "j \<in> fk_live fk" "fk_data fk j = fk_data (md_fk md k) j"
      using keep [OF k'(1) True k'(2) [unfolded j(2)] j(1)] by blast+
    show ?thesis
      using fk_get_content_live [OF fk(1) s(1)] j s True e fk(2) by (auto simp: md_names_def md_fk_set)
  next
    case False
    then show ?thesis using md_loc_names(1) [OF inv k'] by (simp add: md_names_def md_fk_set)
  qed
  have nms: "\<And>k' b v. length k' = 16 \<Longrightarrow> md_loc E md k' = Some (b, v) \<Longrightarrow> md_names ?md k' b" using both by blast
  have loc: "md_loc E ?md k' = md_loc E md k'" if "length k' = 16" for k'
    by (rule md_set_fk_frame(2) [OF inv fk nms that])
  then show "length k' = 16 \<Longrightarrow> md_loc E ?md k' = md_loc E md k'" .
  have idx: "md_index_inv E contents ?md" by (rule md_set_fk_frame(1) [OF inv fk nms])
  have st: "md_handle ?md k' b = md_handle md k' b" "md_stores ?md m k' b w = md_stores md m k' b w"
    if "length k' = 16" "md_loc E md k' = Some (b, v)" for k' b v w
    using md_stores_content both [OF that] by blast+
  show "length k' = 16 \<Longrightarrow> md_loc E md k' = Some (b, v) \<Longrightarrow> md_handle ?md k' b = md_handle md k' b" by (rule st(1))
  show "md_owns E contents ?md m"
    unfolding md_owns_def using idx md_ownsD(2-4) [OF own] loc st by (simp, metis)
  show "md_abs E ?md k' = md_abs E md k'" if "length k' = 16"
    using loc [OF that] both [OF that] by (auto simp: md_abs_def split: option.splits)
qed

lemma md_fk_write:
  assumes own: "md_owns E contents md m" and k: "length k = 16" and io: "grow_io_ok io"
    and wr: "fk_write io k (md_fk md k) = (Some b, fk)"
  shows "md_owns E contents (md_set_fk k fk md) m" "md_names (md_set_fk k fk md) k b"
    "\<forall>k' v'. length k' = 16 \<longrightarrow> md_loc E (md_set_fk k fk md) k' \<noteq> Some (b, v')"
    "length k' = 16 \<Longrightarrow> md_loc E (md_set_fk k fk md) k' = md_loc E md k'"
    "length k' = 16 \<Longrightarrow> md_abs E (md_set_fk k fk md) k' = md_abs E md k'"
    "md_names md k1 b1 \<Longrightarrow> md_names (md_set_fk k fk md) k1 b1"
proof -
  let ?fk = "md_fk md k"
  note inv = md_ownsD(1) [OF own]
  note d = md_index_invD(1,2) [OF inv, of k] and w = fk_write_correct [OF md_index_invD(1) [OF inv] io k wr]
  obtain i where i: "b = block_id_set (unat (k ! 0)) i" "i \<notin> fk_live ?fk" "fk_live fk = insert i (fk_live ?fk)"
      "\<forall>j. j \<noteq> i \<longrightarrow> fk_data fk j = fk_data ?fk j" "m_md5_suffix (fk_data fk i) = drop 3 k"
    using w d(2) by auto
  have fk: "fk_inv fk" "fk_file_id fk = unat (k ! 0)" using w d(2) by auto
  have keep: "j \<in> fk_live fk \<and> fk_data fk j = fk_data ?fk j" if "j \<in> fk_live ?fk" for j using i that by auto
  note st = md_fk_step [OF own fk keep]
  show "md_owns E contents (md_set_fk k fk md) m" by (rule st(1))
  show loc: "length k' = 16 \<Longrightarrow> md_loc E (md_set_fk k fk md) k' = md_loc E md k'" for k' by (rule st(2))
  show "length k' = 16 \<Longrightarrow> md_abs E (md_set_fk k fk md) k' = md_abs E md k'" by (rule st(3))
  show "md_names (md_set_fk k fk md) k b" using i(1,3,5) by (simp add: md_names_def md_fk_set)
  have ib: "i < 4294967296" using fk_live_bounds(4) [OF fk(1), of i] i(3) by simp
  have "md_loc E md k' \<noteq> Some (b, v')" if k': "length k' = 16" for k' v'
  proof
    assume l: "md_loc E md k' = Some (b, v')"
    obtain j where j: "j \<in> fk_live (md_fk md k')" "b = block_id_set (unat (k' ! 0)) j" "j < 4294967296"
      using md_names_live [OF inv md_loc_names(1) [OF inv k' l]] md_index_invD(2) [OF inv, of k'] by metis
    have "unat (k' ! 0) = unat (k ! 0)" "j = i" using j(2,3) i(1) ib by (simp_all add: block_id_set_def trunc_def)
    then show False using j(1) i(2) byte_eqI by (auto simp: md_fk_def get_fullkey_def)
  qed
  then show "\<forall>k' v'. length k' = 16 \<longrightarrow> md_loc E (md_set_fk k fk md) k' \<noteq> Some (b, v')" using loc by simp
  show "md_names (md_set_fk k fk md) k1 b1" if "md_names md k1 b1"
  proof (cases "k1 ! 0 = k ! 0")
    case True
    then have "md_fk md k1 = ?fk" by (simp add: md_fk_def get_fullkey_def)
    then show ?thesis using that True i(2-4) by (fastforce simp: md_names_def md_fk_set)
  qed (use that in \<open>simp add: md_names_def md_fk_set\<close>)
qed

section \<open>The branches\<close>

text \<open>
  The outcomes of the file operations of one request that the results rely on: each file
  completes its writes or refuses them all, and grows completely or not at all.
\<close>

definition md_io_ok :: "'d md5db_env \<Rightarrow> bool" where
  "md_io_ok E \<longleftrightarrow> ca_io_ok (e_contents E) \<and> grow_io_ok (e_fullkey E) \<and> grow_io_ok (e_fast E)"

lemma md_raw_cong:
  assumes "md_query_ctxts md' = md_query_ctxts md" "md_now md' = md_now md"
  shows "md_raw conn user_key val ctxt md' = md_raw conn user_key val ctxt md"
  by (simp add: md_kv_data_def md_ctxt_def assms)

lemma md_small_cong: "md_contents md' = md_contents md \<Longrightarrow> md_small md' = md_small md"
  by (simp add: md_small_def)

lemma md_value_putD:
  assumes "md_value_put E contents md md' k b w"
  obtains m where "md_owns E contents md' m" "md_stores md' m k b w"
    "\<forall>k'. length k' = 16 \<longrightarrow> md_loc E md' k' = md_loc E md k'"
    "\<forall>k' b'. md_names md' k' b' = md_names md k' b'"
    "\<forall>k' b' v'. length k' = 16 \<longrightarrow> k' \<noteq> k \<longrightarrow> md_loc E md' k' = Some (b', v') \<longrightarrow>
       md_handle md' k' b' \<noteq> md_handle md' k b"
    "\<forall>k'. length k' = 16 \<longrightarrow> k' \<noteq> k \<longrightarrow> md_abs E md' k' = md_abs E md k'"
proof -
  obtain m where m: "md_owns E contents md' m" "md_stores md' m k b w"
    and loc: "\<forall>k'. length k' = 16 \<longrightarrow> md_loc E md' k' = md_loc E md k'"
    and nm: "\<forall>k' b'. md_names md' k' b' = md_names md k' b'"
    and oth: "\<forall>k' b' v'. length k' = 16 \<longrightarrow> k' \<noteq> k \<longrightarrow> md_loc E md k' = Some (b', v') \<longrightarrow>
             md_abs E md' k' = md_abs E md k' \<and> md_handle md' k' b' \<noteq> md_handle md' k b"
    using assms unfolding md_value_put_def by blast
  have "md_abs E md' k' = md_abs E md k'" if "length k' = 16" "k' \<noteq> k" for k'
  proof (cases "md_loc E md k'")
    case None
    then show ?thesis using loc that by (simp add: md_abs_def)
  next
    case (Some e)
    then show ?thesis using oth that by (cases e) blast
  qed
  then show thesis using that m loc nm oth by simp
qed

text \<open>
  After the value of \<open>k\<close> was put, the index locates \<open>k\<close> at its record. The other keys keep
  their records, and their versions when these are below 64.
\<close>

lemma md_put_relocate:
  assumes vp: "md_value_put E contents md0 md k b w" and k: "length k = 16"
    and same: "md_contents md' = md_contents md" "md_fullkeys md' = md_fullkeys md"
    and inv: "md_index_inv E contents md'" and lk: "md_loc E md' k = Some (b, v)"
    and oth [rule_format]: "\<forall>k'. length k' = 16 \<longrightarrow> k' \<noteq> k \<longrightarrow> (case md_loc E md k' of
        None \<Rightarrow> md_loc E md' k' = None
      | Some (b', v0) \<Rightarrow> \<exists>v'. md_loc E md' k' = Some (b', v') \<and> (v0 < 64 \<longrightarrow> v' = v0))"
  shows "md_abs_upd E contents md0 md' k (Some (v, w))"
proof -
  obtain m where m: "md_owns E contents md m" "md_stores md m k b w"
      "\<forall>k' b' v'. length k' = 16 \<longrightarrow> k' \<noteq> k \<longrightarrow> md_loc E md k' = Some (b', v') \<longrightarrow> md_handle md k' b' \<noteq> md_handle md k b"
      "\<forall>k'. length k' = 16 \<longrightarrow> k' \<noteq> k \<longrightarrow> md_abs E md k' = md_abs E md0 k'"
    using md_value_putD [OF vp] by metis
  have cond: "\<forall>k' b' v'. length k' = 16 \<longrightarrow> md_loc E md' k' = Some (b', v') \<longrightarrow>
      (\<exists>v0. md_loc E md k' = Some (b', v0)) \<or> k' = k \<and> b' = b"
  proof (intro allI impI)
    fix k' b' v' assume h: "length k' = 16" "md_loc E md' k' = Some (b', v')"
    then show "(\<exists>v0. md_loc E md k' = Some (b', v0)) \<or> k' = k \<and> b' = b"
      using lk oth [OF h(1)] by (cases "k' = k") (auto split: option.splits)
  qed
  note own = md_owns_relocate(1) [OF m(1) inv same cond m(2,3)] and st = md_owns_relocate(2) [OF m(1) inv same cond m(2,3)]
  have others: "map_option snd (md_abs E md' k') = map_option snd (md_abs E md k')
      \<and> (\<forall>v w. md_abs E md k' = Some (v, w) \<longrightarrow> v < 64 \<longrightarrow> md_abs E md' k' = Some (v, w))"
    if k': "length k' = 16" "k' \<noteq> k" for k'
  proof (cases "md_loc E md k'")
    case None
    then show ?thesis using oth [OF k'] by (simp add: md_abs_def)
  next
    case (Some e)
    then obtain b' v0 v' where e: "md_loc E md k' = Some (b', v0)" "md_loc E md' k' = Some (b', v')" "v0 < 64 \<longrightarrow> v' = v0"
      using oth [OF k'] by (cases e) auto
    obtain w' where w': "md_stores md m k' b' w'" using md_ownsD(3) [OF m(1) k'(1) e(1)] by blast
    have "md_abs E md k' = Some (v0, w')" "md_abs E md' k' = Some (v', w')"
      using md_abs_eq(2) [OF m(1) k'(1) e(1) w'] md_abs_eq(2) [OF own k'(1) e(2)] w' st by simp_all
    then show ?thesis using e(3) by simp
  qed
  have "md_abs E md' k = Some (v, w)" using md_abs_eq(2) [OF own k lk] m(2) st by simp
  then show ?thesis using own others m(4) by (auto simp: md_abs_upd_def md_inv_def)
qed

lemma md_put_locate:
  assumes "md_value_put E contents md0 md k b w" "length k = 16"
    "md_contents md' = md_contents md" "md_fullkeys md' = md_fullkeys md"
    "md_loc_upd E contents md md' k (Some (b, v))"
  shows "md_abs_upd E contents md0 md' k (Some (v, w))"
  by (rule md_put_relocate [OF assms(1-4)]) (use assms(2,5) in \<open>simp_all add: md_loc_upd_def split: option.splits\<close>)

lemma md_abs_upd_trans:
  assumes "md_abs_upd E contents md1 md' k x" "\<And>k'. length k' = 16 \<Longrightarrow> md_abs E md1 k' = md_abs E md k'"
  shows "md_abs_upd E contents md md' k x"
  using assms by (simp add: md_abs_upd_def)

lemma md_loc_empty: "m_type (md_item md k) = BUCKET_NO_DATA \<Longrightarrow> md_loc E md k = None"
  by (simp add: md_loc_def)

text \<open>Storing the value of a key record that is not located yet.\<close>

lemma md_add_record:
  assumes own: "md_owns E contents md m" and k: "length k = 16" and nm: "md_names md k b" and l: "md_loc E md k = None"
    and fresh: "\<forall>k' v'. length k' = 16 \<longrightarrow> md_loc E md k' \<noteq> Some (b, v')"
    and io: "md_io_ok E" and len: "length user_key + length val \<le> MAX_VAL_LEN"
    and run: "add_data E conn k b user_key val ctxt md = (0, ctxt', md')" and small: "md_small md'"
  shows "md_value_put E contents md md' k b (md_raw conn user_key val ctxt md)"
    "md_index_inv E contents md'" "md_names md' k' b' = md_names md k' b'"
    "length k' = 16 \<Longrightarrow> md_loc E md' k' = md_loc E md k'"
    "\<forall>k' v'. length k' = 16 \<longrightarrow> md_loc E md' k' \<noteq> Some (b, v')"
    "md_item md' k' = md_item md k'" "md_buckets md' = md_buckets md"
    "md_fast_conflicts md' = md_fast_conflicts md" "md_conflicts md' = md_conflicts md"
proof -
  have io': "ca_io_ok (e_contents E)" using io by (simp add: md_io_ok_def)
  have c: "add_data_to_content_db E conn k b user_key val ctxt md = (0, ctxt', md')"
    using run md_ownsD(2) [OF own] by (simp add: add_data_def ca_owns_def)
  note a = add_data_to_content_db_ok [OF own k nm l fresh io' len c small]
  obtain m2 where m2: "md_owns E contents md' m2" "\<forall>k'. length k' = 16 \<longrightarrow> md_loc E md' k' = md_loc E md k'"
      "\<forall>k' b'. md_names md' k' b' = md_names md k' b'"
    using md_value_putD [OF a(1)] by metis
  show "md_index_inv E contents md'" "md_names md' k' b' = md_names md k' b'"
    "length k' = 16 \<Longrightarrow> md_loc E md' k' = md_loc E md k'"
    "\<forall>k' v'. length k' = 16 \<longrightarrow> md_loc E md' k' \<noteq> Some (b, v')"
    using md_ownsD(1) [OF m2(1)] m2(2,3) fresh by simp_all
  show "md_value_put E contents md md' k b (md_raw conn user_key val ctxt md)" by (rule a(1))
  show "md_item md' k' = md_item md k'" "md_buckets md' = md_buckets md"
    "md_fast_conflicts md' = md_fast_conflicts md" "md_conflicts md' = md_conflicts md"
    using a(2) by (simp_all add: md_item_def)
qed

lemma new_data_ok:
  assumes own: "md_owns E contents md m" and k: "length k = 16" and t: "m_type (md_item md k) = BUCKET_NO_DATA"
    and io: "md_io_ok E" and len: "length user_key + length val \<le> MAX_VAL_LEN"
    and run: "new_data E conn k user_key val user_version from_binlog ctxt md = (0, ver, ctxt', md')"
    and small: "md_small md'"
  shows "md_abs_upd E contents md md' k (Some (ver, md_raw conn user_key val ctxt md))"
    "ver = stored_version (if \<not> from_binlog then 1 else user_version)"
proof -
  let ?v = "if \<not> from_binlog then 1 else user_version"
  have g: "\<not> (\<not> from_binlog \<and> user_version \<noteq> 0)" using run by (intro notI) (simp add: new_data_def)
  obtain b fk where wr: "fk_write (e_fullkey E) k (md_fk md k) = (Some b, fk)"
    using run g by (cases "fk_write (e_fullkey E) k (md_fk md k)"; cases "fst (fk_write (e_fullkey E) k (md_fk md k))")
      (auto simp: new_data_def)
  obtain r c2 md2 where ad': "add_data E conn k b user_key val ctxt (md_set_fk k fk md) = (r, c2, md2)"
    using prod_cases3 by blast
  have ad: "add_data E conn k b user_key val ctxt (md_set_fk k fk md) = (0, ctxt', md2)"
      and md': "md' = md_set_item k (set_version ?v (set_type BUCKET_DIRECT_DATA ((md_item md2 k)\<lparr>m_block_id := b\<rparr>))) md2"
      and ver: "ver = version (set_version ?v (set_type BUCKET_DIRECT_DATA ((md_item md2 k)\<lparr>m_block_id := b\<rparr>)))"
    using run [unfolded new_data_def if_not_P [OF g] wr prod.case option.case ad' Let_def] ad' by (auto split: if_splits)
  show v: "ver = stored_version ?v" by (simp add: ver)
  let ?md1 = "md_set_fk k fk md" and ?it = "set_version ?v (set_type BUCKET_DIRECT_DATA ((md_item md2 k)\<lparr>m_block_id := b\<rparr>))"
  have io': "grow_io_ok (e_fullkey E)" using io by (simp add: md_io_ok_def)
  note w = md_fk_write [OF own k io' wr]
  have l1: "md_loc E ?md1 k = None" using w(4) [OF k] t by (simp add: md_loc_def)
  have sm: "md_small md2" using small md_small_cong [of md' md2] by (simp add: md')
  note a = md_add_record [OF w(1) k w(2) l1 w(3) io len ad sm]
  have it: "md_item md2 k = md_item md k" using a(6) by simp
  have ty: "m_type ?it = BUCKET_DIRECT_DATA" "m_block_id ?it = b" "version ?it = stored_version ?v"
    by (simp_all add: set_type_def trunc_def)
  have ds: "md_index_inv E contents md'" "length k' = 16 \<Longrightarrow> md_loc E md' k' =
      (if same_slot k' k then if k' = k then Some (b, stored_version ?v) else None else md_loc E md2 k')" for k'
    using md_direct_step [OF a(2) k, of ?it] t it ty w(2) a(3,5) unfolding md' by simp_all
  have "md_loc E md2 k' = None" if "length k' = 16" "same_slot k' k" for k'
    using t it by (intro md_loc_empty) (simp add: same_slot_item(1) [OF that(2)])
  then have "md_loc_upd E contents md2 md' k (Some (b, stored_version ?v))"
    using ds by (simp add: md_loc_upd_def)
  from md_put_locate [OF a(1) k _ _ this]
  have "md_abs_upd E contents ?md1 md' k (Some (stored_version ?v, md_raw conn user_key val ctxt ?md1))" by (simp add: md')
  then show "md_abs_upd E contents md md' k (Some (ver, md_raw conn user_key val ctxt md))"
    using md_abs_upd_trans w(5) md_raw_cong [of ?md1 md] v by (metis md_set_fk_sel(6,7))
qed

end
