(* ===== verification/Md5db_Conflict.thy ===== *)
theory Md5db_Conflict
  imports Md5db_Put
begin

text \<open>
  Writing a key of a slot that holds other keys, or of a slot that holds the key already.
\<close>

section \<open>A new key of a conflict slot\<close>

lemma set_conflict_new_parts:
  assumes run: "set_conflict_new E conn k user_key val user_version from_binlog ctxt md = (0, ver, ctxt', md')"
  obtains b fk c1 md1 r1 fcs cs where "fk_write (e_fullkey E) k (md_fk md k) = (Some b, fk)"
    "add_data E conn k b user_key val ctxt (md_set_fk k fk md) = (0, c1, md1)"
    "fca_add (Some (md_buckets md1)) (md_fullkeys md1) k b ver (md_fast_conflicts md1) = (r1, fcs)"
    "r1 = 0 \<and> cs = md_conflicts md1
     \<or> r1 < 0 \<and> cfa_put (e_ldb E) (e_md5 E) k b ver (md_conflicts md1) = (0, cs)"
    "fst (add_conflict_count (md_item md1 k))"
    "md' = md_set_item k (snd (add_conflict_count (md_item md1 k)))
        (md1\<lparr>md_fast_conflicts := fcs, md_conflicts := cs\<rparr>)"
    "ver = (if from_binlog then user_version else 1)"
proof -
  have g: "\<not> (\<not> from_binlog \<and> user_version \<noteq> 0)" using run by (intro notI) (simp add: set_conflict_new_def)
  obtain b fk where wr: "fk_write (e_fullkey E) k (md_fk md k) = (Some b, fk)"
    using run g by (cases "fk_write (e_fullkey E) k (md_fk md k)"; cases "fst (fk_write (e_fullkey E) k (md_fk md k))")
      (auto simp: set_conflict_new_def)
  obtain r c1 md1 where ad': "add_data E conn k b user_key val ctxt (md_set_fk k fk md) = (r, c1, md1)"
    using prod_cases3 by blast
  have r: "r = 0"
    using run [unfolded set_conflict_new_def if_not_P [OF g] wr prod.case option.case ad'] by (auto split: if_splits)
  let ?v = "if from_binlog then user_version else 1"
  obtain r1 fcs where fa: "fca_add (Some (md_buckets md1)) (md_fullkeys md1) k b ?v (md_fast_conflicts md1) = (r1, fcs)"
    by fastforce
  obtain r2 cs where pu: "cfa_put (e_ldb E) (e_md5 E) k b ?v (md_conflicts md1) = (r2, cs)" by fastforce
  obtain ok it where ct: "add_conflict_count (md_item md1 k) = (ok, it)" by fastforce
  have it: "md_item (md1\<lparr>md_fast_conflicts := fcs\<rparr>) k = md_item md1 k"
    "md_item (md1\<lparr>md_fast_conflicts := fcs, md_conflicts := cs\<rparr>) k = md_item md1 k" by (simp_all add: md_item_def)
  have rest: "\<not> r1 > 0" "r1 = 0 \<or> r2 = 0" "ok" "ver = ?v" "md' = md_set_item k it (if r1 = 0 then md1\<lparr>md_fast_conflicts := fcs\<rparr>
      else md1\<lparr>md_fast_conflicts := fcs, md_conflicts := cs\<rparr>)"
    using run [unfolded set_conflict_new_def if_not_P [OF g] wr prod.case option.case ad' Let_def fa r] pu ct it
    by (simp_all split: if_splits)
  show thesis
  proof (cases "r1 = 0")
    case True
    show thesis by (rule that [OF wr ad' [unfolded r], of r1 fcs "md_conflicts md1"]) (use rest True fa ct in simp_all)
  next
    case False
    show thesis by (rule that [OF wr ad' [unfolded r], of r1 fcs cs]) (use rest False fa pu ct in auto)
  qed
qed

lemma set_conflict_new_ok:
  assumes own: "md_owns E contents md m" and k: "length k = 16" and t: "m_type (md_item md k) = BUCKET_CONFLICT_DATA"
    and l: "md_loc E md k = None" and n: "card (md_slot_keys E md k) < 63"
    and io: "md_io_ok E" and len: "length user_key + length val \<le> MAX_VAL_LEN"
    and run: "set_conflict_new E conn k user_key val user_version from_binlog ctxt md = (0, ver, ctxt', md')"
    and small: "md_small md'"
  shows "md_abs_upd E contents md md' k (Some (stored_version ver, md_raw conn user_key val ctxt md))"
    "ver = (if from_binlog then user_version else 1)"
proof -
  obtain b fk c1 md1 r1 fcs cs where wr: "fk_write (e_fullkey E) k (md_fk md k) = (Some b, fk)"
    and ad: "add_data E conn k b user_key val ctxt (md_set_fk k fk md) = (0, c1, md1)"
    and fa: "fca_add (Some (md_buckets md1)) (md_fullkeys md1) k b ver (md_fast_conflicts md1) = (r1, fcs)"
    and st: "r1 = 0 \<and> cs = md_conflicts md1 \<or> r1 < 0 \<and> cfa_put (e_ldb E) (e_md5 E) k b ver (md_conflicts md1) = (0, cs)"
    and md': "md' = md_set_item k (snd (add_conflict_count (md_item md1 k)))
        (md1\<lparr>md_fast_conflicts := fcs, md_conflicts := cs\<rparr>)"
    and ver: "ver = (if from_binlog then user_version else 1)"
    using set_conflict_new_parts [OF run] by metis
  show "ver = (if from_binlog then user_version else 1)" by (rule ver)
  let ?md1 = "md_set_fk k fk md"
  have io': "grow_io_ok (e_fullkey E)" using io by (simp add: md_io_ok_def)
  note w = md_fk_write [OF own k io' wr]
  have sm: "md_small md1" using small md_small_cong [of md' md1] by (simp add: md')
  have l1: "md_loc E ?md1 k = None" using w(4) [OF k] l by simp
  note a = md_add_record [OF w(1) k w(2) l1 w(3) io len ad sm]
  have h: "m_type (md_item md1 k) = BUCKET_CONFLICT_DATA" "md_loc E md1 k = None" "md_names md1 k b"
      "card (md_slot_keys E md1 k) < 63"
    using t l n a(3,4,6) w(2,4) k by (simp_all add: md_slot_keys_def cong: conj_cong)
  have "md_loc_upd E contents md1 md' k (Some (b, stored_version ver))"
  proof (cases "r1 = 0")
    case True
    then show ?thesis using st md_add_fast [OF a(2) k h(1-3) a(5) _ h(4), of ver fcs] fa by (simp add: md')
  next
    case False
    then have "fcs = md_fast_conflicts md1" using fa st by (auto simp: fca_add_def split: if_splits sum.splits option.splits)
    then show ?thesis using False st md_add_slow [OF a(2) k h(1-3) a(5) _ h(4), of ver cs] by (simp add: md')
  qed
  from md_put_locate [OF a(1) k _ _ this]
  have "md_abs_upd E contents ?md1 md' k (Some (stored_version ver, md_raw conn user_key val ctxt ?md1))" by (simp add: md')
  then show "md_abs_upd E contents md md' k (Some (stored_version ver, md_raw conn user_key val ctxt md))"
    using md_abs_upd_trans w(5) md_raw_cong [of ?md1 md] by (metis md_set_fk_sel(6,7))
qed

section \<open>Replacing a value\<close>

lemma md_set_record:
  assumes own: "md_owns E contents md m" and k: "length k = 16" and l: "md_loc E md k = Some (b, v)"
    and io: "md_io_ok E" and len: "length user_key + length val \<le> MAX_VAL_LEN"
    and run: "set_data E conn k b user_key val ctxt md = (0, ctxt', md')" and small: "md_small md'"
  shows "md_value_put E contents md md' k b (md_raw conn user_key val ctxt md)"
    "md_index_inv E contents md'" "length k' = 16 \<Longrightarrow> md_loc E md' k' = md_loc E md k'"
    "md_names md' k' b' = md_names md k' b'"
    "md_item md' k' = md_item md k'" "md_buckets md' = md_buckets md"
    "md_fast_conflicts md' = md_fast_conflicts md" "md_conflicts md' = md_conflicts md"
proof -
  have io': "ca_io_ok (e_contents E)" using io by (simp add: md_io_ok_def)
  have c: "set_data_to_content_db E conn k b user_key val ctxt md = (0, ctxt', md')"
    using run md_ownsD(2) [OF own] by (simp add: set_data_def ca_owns_def)
  note a = set_data_to_content_db_ok [OF own k l io' len c small]
  obtain m2 where m2: "md_owns E contents md' m2" "\<forall>k'. length k' = 16 \<longrightarrow> md_loc E md' k' = md_loc E md k'"
      "\<forall>k' b'. md_names md' k' b' = md_names md k' b'"
    using md_value_putD [OF a(1)] by metis
  show "md_value_put E contents md md' k b (md_raw conn user_key val ctxt md)" by (rule a(1))
  show "md_index_inv E contents md'" "length k' = 16 \<Longrightarrow> md_loc E md' k' = md_loc E md k'"
    "md_names md' k' b' = md_names md k' b'"
    using md_ownsD(1) [OF m2(1)] m2(2,3) by simp_all
  show "md_item md' k' = md_item md k'" "md_buckets md' = md_buckets md"
    "md_fast_conflicts md' = md_fast_conflicts md" "md_conflicts md' = md_conflicts md"
    using a(2) by (simp_all add: md_item_def)
qed

lemma put_direct_same_ok:
  assumes own: "md_owns E contents md m" and k: "length k = 16" and t: "m_type (md_item md k) = BUCKET_DIRECT_DATA"
    and l: "md_loc E md k = Some (b, w)" and io: "md_io_ok E" and len: "length user_key + length val \<le> MAX_VAL_LEN"
    and run: "put_direct E conn k user_key val user_version from_binlog ctxt md = (0, ver, ctxt', md')"
    and ve: "\<not> ic_is_version_error ctxt'" and small: "md_small md'"
  shows "md_abs_upd E contents md md' k (Some (stored_version ver, md_raw conn user_key val ctxt md))"
    "ver = (if from_binlog then user_version else add_version w)"
proof -
  have same: "check_same_key k (m_block_id (md_item md k)) md = 0" and b: "b = m_block_id (md_item md k)" "w = version (md_item md k)"
    using check_same_key_eq [OF k t] l by auto
  obtain r c1 md1 where sd: "set_data E conn k (m_block_id (md_item md k)) user_key val ctxt md = (r, c1, md1)"
    using prod_cases3 by blast
  let ?v = "if \<not> from_binlog then add_version (version (md_item md1 k)) else user_version"
  have r: "r = 0" and ver: "ver = ?v" and md': "md' = md_set_item k (set_version ?v (md_item md1 k)) md1"
    using run ve unfolding put_direct_def Let_def if_P [OF same] sd prod.case by (auto split: if_splits)
  have sm: "md_small md1" using small md_small_cong [of md' md1] by (simp add: md')
  note a = md_set_record [OF own k l io len sd [folded b(1), unfolded r] sm]
  show "ver = (if from_binlog then user_version else add_version w)" using ver b(2) a(5) by simp
  note inv = md_ownsD(1) [OF own]
  let ?it = "set_version ver (md_item md1 k)"
  have it: "m_type (md_item md1 k) = BUCKET_DIRECT_DATA" "m_type ?it = BUCKET_DIRECT_DATA" "m_block_id ?it = b"
    using t a(5) b by simp_all
  have fr: "md_loc E md1 k' \<noteq> Some (b, v)" if "length k' = 16" "\<not> same_slot k' k" for k' v
    using md_loc_elsewhere [OF inv k l] a(3) that by simp
  have ds: "md_index_inv E contents md'" "length k' = 16 \<Longrightarrow> md_loc E md' k' =
      (if same_slot k' k then if k' = k then Some (b, stored_version ver) else None else md_loc E md1 k')" for k'
    using md_direct_step [OF a(2) k, of ?it] it fr a(4) md_loc_names(1) [OF inv k l] ver unfolding md' by simp_all
  have "md_loc E md1 k' = None" if "length k' = 16" "same_slot k' k" "k' \<noteq> k" for k'
  proof -
    obtain k1 where k1: "\<forall>k'. length k' = 16 \<and> same_slot k' k \<longrightarrow> md_loc E md k' =
       (if k' = k1 then Some (m_block_id (md_item md k), version (md_item md k)) else None)"
      using md_direct [OF inv k t] by metis
    have "k1 = k" using k1 l k by (metis option.distinct(1) same_slot_refl)
    then show ?thesis using k1 that a(3) by simp
  qed
  then have "md_loc_upd E contents md1 md' k (Some (b, stored_version ver))" using ds by (auto simp: md_loc_upd_def)
  from md_put_locate [OF a(1) k _ _ this] show "md_abs_upd E contents md md' k (Some (stored_version ver, md_raw conn user_key val ctxt md))"
    by (simp add: md')
qed

lemma set_conflict_found_ok:
  assumes own: "md_owns E contents md m" and k: "length k = 16" and t: "m_type (md_item md k) = BUCKET_CONFLICT_DATA"
    and l: "md_loc E md k = Some (b, w)" and io: "md_io_ok E" and len: "length user_key + length val \<le> MAX_VAL_LEN"
    and run: "set_conflict_data E conn k user_key val user_version from_binlog ctxt md = (0, ver, ctxt', md')"
    and ve: "\<not> ic_is_version_error ctxt'" and small: "md_small md'"
  shows "\<exists>v. (v = stored_version ver \<or> from_binlog \<and> v = ver) \<and> md_abs_upd E contents md md' k (Some (v, md_raw conn user_key val ctxt md))"
    "ver = (if from_binlog then user_version else add_version w)"
proof -
  note inv = md_ownsD(1) [OF own]
  obtain fast where find: "md_find_conflict E k md = (0, b, w, fast)"
      and f: "if fast then md_fast md k = Some (b, w) else md_fast md k = None \<and> md_slow E md k = Some (b, w)"
    using md_find_conflict_eq [OF inv k t] l t by (auto simp: md_loc_def split: option.splits)
  obtain r c1 md1 where sd: "set_data E conn k b user_key val ctxt md = (r, c1, md1)" using prod_cases3 by blast
  let ?v = "if \<not> from_binlog then add_version w else user_version"
  obtain r1 fcs where fu: "fca_update (Some (md_buckets md1)) (md_fullkeys md1) k b ?v (md_fast_conflicts md1) = (r1, fcs)"
    by fastforce
  obtain r2 cs where pu: "cfa_put (e_ldb E) (e_md5 E) k b ?v (md_conflicts md1) = (r2, cs)" by fastforce
  have r: "r = 0" and ver: "ver = ?v" and st: "if fast then r1 = 0 \<and> md' = md1\<lparr>md_fast_conflicts := fcs\<rparr>
      else r2 = 0 \<and> md' = md1\<lparr>md_conflicts := cs\<rparr>"
    using run ve unfolding set_conflict_data_def Let_def find sd prod.case fu pu by (auto split: if_splits)
  show "ver = (if from_binlog then user_version else add_version w)" using ver by simp
  have sel: "md_contents md' = md_contents md1" "md_fullkeys md' = md_fullkeys md1" using st by (auto split: if_splits)
  have sm: "md_small md1" using small md_small_cong [of md' md1] sel by simp
  note a = md_set_record [OF own k l io len sd [unfolded r] sm]
  have t1: "m_type (md_item md1 k) = BUCKET_CONFLICT_DATA" using t a(5) by simp
  have l1: "md_loc E md1 k = Some (b, w)" using a(3) [OF k] l by simp
  have sl: "md_slow E md1 k = md_slow E md k" using a(8) by (simp add: md_slow_def)
  have nv: "add_version w \<noteq> w" by (auto simp: add_version_def BUCKET_DATA_MAX_VERSION_def)
  have "\<exists>v. (v = stored_version ver \<or> from_binlog \<and> v = ver) \<and> md_loc_upd E contents md1 md' k (Some (b, v))"
  proof (cases fast)
    case True
    have "md_slow E md k = None" using md_index_invD(6) [OF inv k] f True by (cases "md_slow E md k") (auto simp: md_slot_ok_def)
    then have "md_fast md1 k = Some (b, w)" using l1 t1 sl by (auto simp: md_loc_def split: option.splits)
    from md_update_fast [OF a(2) k t1 this, of ?v fcs] show ?thesis using st True fu ver nv by (auto split: if_splits)
  next
    case False
    then show ?thesis using md_update_slow [OF a(2) k, of b w ?v cs] sl f st pu ver by auto
  qed
  then show "\<exists>v. (v = stored_version ver \<or> from_binlog \<and> v = ver) \<and> md_abs_upd E contents md md' k (Some (v, md_raw conn user_key val ctxt md))"
    using md_put_locate [OF a(1) k sel] by blast
qed

section \<open>The second key of a slot\<close>

lemma md_owns_loc:
  assumes own: "md_owns E contents md m" and inv: "md_index_inv E contents md'"
    and same: "md_contents md' = md_contents md" "md_fullkeys md' = md_fullkeys md"
    and loc: "\<forall>k. length k = 16 \<longrightarrow> md_loc E md' k = md_loc E md k"
  shows "md_owns E contents md' m" "length k = 16 \<Longrightarrow> md_abs E md' k = md_abs E md k"
    "md_names md' k b = md_names md k b"
proof -
  have fk: "md_fk md' k' = md_fk md k'" for k' by (simp add: md_fk_def same)
  have s: "md_stores md' m k' b' w = md_stores md m k' b' w" "md_handle md' k' b' = md_handle md k' b'" for k' b' w
    by (simp_all add: md_stores_def md_handle_def fk)
  show "md_owns E contents md' m"
    unfolding md_owns_def same s using inv md_ownsD(2-4) [OF own] loc by simp
  show "length k = 16 \<Longrightarrow> md_abs E md' k = md_abs E md k" using loc unfolding md_abs_def fk same by simp
  show "md_names md' k b = md_names md k b" by (simp add: md_names_def fk)
qed

text \<open>The record of the new conflict is not addressed by any slot yet.\<close>

lemma md_new_conflict:
  assumes own: "md_owns E contents md m" and io: "grow_io_ok io" and wf: "block_id_wf b1" "block_id_wf b2"
    and fw: "fca_write io k0 b1 v1 b2 v2 (md_fast_conflicts md) = (Some a, fcs)" and z: "k0 ! 0 = k ! 0"
  obtains i n where "a = block_id_set (unat (k ! 0)) i" "i \<in> fc_live (fcs (unat (k ! 0)))"
    "fc_record (fcs (unat (k ! 0))) i = fca_item b1 v1 item_zero # fca_item b2 v2 item_zero # replicate n item_zero"
    "\<forall>k'. fca_member (md_buckets md) k' \<longrightarrow> k' ! 0 = k ! 0 \<longrightarrow> m_data_id (m_block_id (md_item md k')) \<noteq> i"
    "md_owns E contents (md\<lparr>md_fast_conflicts := fcs\<rparr>) m"
    "\<forall>k'. length k' = 16 \<longrightarrow> md_loc E (md\<lparr>md_fast_conflicts := fcs\<rparr>) k' = md_loc E md k'"
    "\<forall>k'. length k' = 16 \<longrightarrow> md_abs E (md\<lparr>md_fast_conflicts := fcs\<rparr>) k' = md_abs E md k'"
proof -
  note inv = md_ownsD(1) [OF own]
  let ?f = "unat (k ! 0)" and ?md = "md\<lparr>md_fast_conflicts := fcs\<rparr>"
  obtain i where i: "a = block_id_set ?f i" "i < 4294967296" "i \<notin> fc_live (md_fast_conflicts md ?f)" "i \<in> fc_live (fcs ?f)"
      "fc_live (md_fast_conflicts md ?f) \<subseteq> fc_live (fcs ?f)"
      "\<forall>j. j \<noteq> i \<longrightarrow> fc_record (fcs ?f) j = fc_record (md_fast_conflicts md ?f) j"
      "fc_record (fcs ?f) i = fca_item b1 v1 item_zero # fca_item b2 v2 item_zero
         # replicate (fc_conflict_count (md_fast_conflicts md ?f) - 2) item_zero"
      "\<forall>f. f \<noteq> ?f \<longrightarrow> fcs f = md_fast_conflicts md f" "\<forall>f<256. fc_inv (fcs f) \<and> fc_file_id (fcs f) = f"
    by (rule fca_write_correct [OF md_index_invD(3) [OF inv] io wf fw, unfolded z]) (rule that)
  have live: "fc_live (md_fast_conflicts md f) \<subseteq> fc_live (fcs f)" for f using i(5,8) by (cases "f = ?f") simp_all
  have recs: "fc_record (fcs f) j = fc_record (md_fast_conflicts md f) j" if "j \<in> fc_live (md_fast_conflicts md f)" for f j
    using i(3,6,8) that by (cases "f = ?f") auto
  note fr = md_fcs_frame [OF inv refl i(9) live recs]
  note o = md_owns_loc [OF own fr [THEN conjunct1] _ _ fr [THEN conjunct2], simplified]
  have free: "m_data_id (m_block_id (md_item md k')) \<noteq> i" if "fca_member (md_buckets md) k'" "k' ! 0 = k ! 0" for k'
    using fca_member_record [OF md_index_invD(3) [OF inv] that(1)] i(3) that(2)
    by (metis get_fast_conflict_def md_item_slot)
  show thesis by (rule that [OF i(1,4,7) _ o(1) fr [THEN conjunct2]]) (use free o(2) in simp_all)
qed

lemma add_conflict_data_parts:
  assumes run: "add_conflict_data E conn k user_key val user_version from_binlog ctxt md = (0, ver, ctxt', md')"
    and fk: "fk_get (md_fk md k) (m_block_id (md_item md k)) = Some suffix"
  obtains b fk' a fcs md3 where "fk_write (e_fullkey E) k (md_fk md k) = (Some b, fk')"
    "fca_write (e_fast E) (take 3 k @ suffix) (m_block_id (md_item md k)) (version (md_item md k)) b ver
       (md_fast_conflicts md) = (Some a, fcs)"
    "add_data E conn k b user_key val ctxt ((md_set_fk k fk' md)\<lparr>md_fast_conflicts := fcs\<rparr>) = (0, ctxt', md3)"
    "md' = md_set_item k (set_type BUCKET_CONFLICT_DATA ((set_conflict_count 2 (md_item md3 k))\<lparr>m_block_id := a\<rparr>)) md3"
    "ver = (if from_binlog then user_version else 1)"
proof -
  have g: "\<not> (\<not> from_binlog \<and> user_version \<noteq> 0)" using run by (intro notI) (simp add: add_conflict_data_def)
  obtain b fk' where wr: "fk_write (e_fullkey E) k (md_fk md k) = (Some b, fk')"
    using run g fk by (cases "fk_write (e_fullkey E) k (md_fk md k)"; cases "fst (fk_write (e_fullkey E) k (md_fk md k))")
      (auto simp: add_conflict_data_def Let_def)
  let ?v = "if \<not> from_binlog then 1 else user_version"
  obtain x fcs where fw: "fca_write (e_fast E) (take 3 k @ suffix) (m_block_id (md_item md k)) (version (md_item md k)) b ?v
      (md_fast_conflicts md) = (x, fcs)" by fastforce
  note run' = run [unfolded add_conflict_data_def if_not_P [OF g] Let_def fk option.case wr prod.case md_set_fk_sel fw]
  obtain a where x: "x = Some a" using run' by (cases x) auto
  obtain r c1 md3 where ad: "add_data E conn k b user_key val ctxt ((md_set_fk k fk' md)\<lparr>md_fast_conflicts := fcs\<rparr>) = (r, c1, md3)"
    using prod_cases3 by blast
  from run' [unfolded x option.case ad prod.case] have "r = 0" "ver = ?v" "c1 = ctxt'"
    "md' = md_set_item k (set_type BUCKET_CONFLICT_DATA ((set_conflict_count 2 (md_item md3 k))\<lparr>m_block_id := a\<rparr>)) md3"
    by (auto split: if_splits)
  with wr fw x ad show thesis by (intro that) auto
qed

lemma add_conflict_data_ok:
  assumes own: "md_owns E contents md m" and k: "length k = 16" and t: "m_type (md_item md k) = BUCKET_DIRECT_DATA"
    and l: "md_loc E md k = None" and io: "md_io_ok E" and len: "length user_key + length val \<le> MAX_VAL_LEN"
    and run: "add_conflict_data E conn k user_key val user_version from_binlog ctxt md = (0, ver, ctxt', md')"
    and small: "md_small md'"
  shows "md_abs_upd E contents md md' k (Some (stored_version ver, md_raw conn user_key val ctxt md))"
    "ver = (if from_binlog then user_version else 1)"
proof -
  note inv = md_ownsD(1) [OF own]
  let ?b1 = "m_block_id (md_item md k)" and ?v1 = "version (md_item md k)"
  obtain k1 where k1: "length k1 = 16" "same_slot k1 k" "md_names md k1 ?b1" "\<forall>k'. length k' = 16 \<and> same_slot k' k \<longrightarrow>
      md_loc E md k' = (if k' = k1 then Some (?b1, ?v1) else None)"
    using md_direct [OF inv k t] by metis
  have ne: "k1 \<noteq> k" and l1: "md_loc E md k1 = Some (?b1, ?v1)" using k1(1,2,4) l k by auto
  have fg: "fk_get (md_fk md k) ?b1 = Some (drop 3 k1)"
    using md_names_fca(2) [OF inv k1(3)] same_slot_item(2) [OF k1(2)] by metis
  obtain b fk a fcs md3 where wr: "fk_write (e_fullkey E) k (md_fk md k) = (Some b, fk)"
    and fw: "fca_write (e_fast E) (take 3 k @ drop 3 k1) ?b1 ?v1 b ver (md_fast_conflicts md) = (Some a, fcs)"
    and ad: "add_data E conn k b user_key val ctxt ((md_set_fk k fk md)\<lparr>md_fast_conflicts := fcs\<rparr>) = (0, ctxt', md3)"
    and md': "md' = md_set_item k (set_type BUCKET_CONFLICT_DATA ((set_conflict_count 2 (md_item md3 k))\<lparr>m_block_id := a\<rparr>)) md3"
    and ver: "ver = (if from_binlog then user_version else 1)"
    using add_conflict_data_parts [OF run fg] by metis
  show "ver = (if from_binlog then user_version else 1)" by (rule ver)
  let ?md1 = "md_set_fk k fk md" and ?md2 = "(md_set_fk k fk md)\<lparr>md_fast_conflicts := fcs\<rparr>" and ?f = "unat (k ! 0)"
  have io': "grow_io_ok (e_fullkey E)" "grow_io_ok (e_fast E)" using io by (simp_all add: md_io_ok_def)
  note w = md_fk_write [OF own k io'(1) wr]
  have z: "(take 3 k @ drop 3 k1) ! 0 = k ! 0" using k by (simp add: nth_append)
  have wf: "block_id_wf ?b1" "block_id_wf b" using k1(3) w(2) by (auto simp: md_names_def block_id_set_wf)
  obtain i n where i: "a = block_id_set ?f i" "i \<in> fc_live (fcs ?f)"
      "fc_record (fcs ?f) i = fca_item ?b1 ?v1 item_zero # fca_item b ver item_zero # replicate n item_zero"
      "\<forall>k'. fca_member (md_buckets md) k' \<longrightarrow> k' ! 0 = k ! 0 \<longrightarrow> m_data_id (m_block_id (md_item md k')) \<noteq> i"
      "md_owns E contents ?md2 m" "\<forall>k'. length k' = 16 \<longrightarrow> md_loc E ?md2 k' = md_loc E ?md1 k'"
      "\<forall>k'. length k' = 16 \<longrightarrow> md_abs E ?md2 k' = md_abs E ?md1 k'"
    by (rule md_new_conflict [OF w(1) io'(2) wf _ z, simplified, OF fw]) (rule that)
  have n2: "md_names ?md2 k b" "md_loc E ?md2 k = None" "\<forall>k' v'. length k' = 16 \<longrightarrow> md_loc E ?md2 k' \<noteq> Some (b, v')"
    using w(2-4) i(6) k l by (simp_all add: md_names_def md_fk_def)
  have sm: "md_small md3" using small md_small_cong [of md' md3] by (simp add: md')
  note a3 = md_add_record [OF i(5) k n2 io len ad sm]
  have free: "\<forall>k'. fca_member (md_buckets md3) k' \<longrightarrow> k' ! 0 = k ! 0 \<longrightarrow> m_data_id (m_block_id (md_item md3 k')) \<noteq> i"
    using i(4) a3(7) by (simp add: md_item_def)
  show "md_abs_upd E contents md md' k (Some (stored_version ver, md_raw conn user_key val ctxt md))"
  proof (rule md_abs_upd_trans)
    let ?it = "set_type BUCKET_CONFLICT_DATA ((set_conflict_count 2 (md_item md3 k))\<lparr>m_block_id := a\<rparr>)"
    have it: "m_type ?it = BUCKET_CONFLICT_DATA" "m_block_id ?it = block_id_set ?f i" "get_conflict_count ?it = 2"
      using i(1) by (simp_all add: set_type_def trunc_def set_conflict_count_def BUCKET_DATA_MAX_VERSION_def
          get_conflict_count_def set_version_def)
    have l3: "md_loc E md3 k' = md_loc E md k'" if "length k' = 16" for k' using a3(4) w(4) i(6) that by simp
    have t3: "m_type (md_item md3 k) = BUCKET_DIRECT_DATA" using t a3(6) by (simp add: md_item_def)
    have i3: "i \<in> fc_live (md_fast_conflicts md3 ?f)" "fc_record (md_fast_conflicts md3 ?f) i = fca_item ?b1 ?v1 item_zero
        # fca_item b ver item_zero # replicate n item_zero"
      using i(2,3) a3(8) by simp_all
    have n3: "md_names md3 k b" "md_loc E md3 k1 = Some (?b1, ?v1)" using a3(3) n2(1) l3 [OF k1(1)] l1 by simp_all
    note sp = md_split [OF a3(2) k1(1) k k1(2) ne t3 n3(2,1) a3(5) i3 free it, folded md']
    show "md_abs_upd E contents ?md2 md' k (Some (stored_version ver, md_raw conn user_key val ctxt md))"
    proof (rule md_put_relocate)
      show "md_value_put E contents ?md2 md3 k b (md_raw conn user_key val ctxt md)"
        using a3(1) md_raw_cong [of ?md2 md] by simp
      show "md_index_inv E contents md'" "md_loc E md' k = Some (b, stored_version ver)" using sp k ne by auto
      show "\<forall>k'. length k' = 16 \<longrightarrow> k' \<noteq> k \<longrightarrow> (case md_loc E md3 k' of None \<Rightarrow> md_loc E md' k' = None
          | Some (b', v0) \<Rightarrow> \<exists>v'. md_loc E md' k' = Some (b', v') \<and> (v0 < 64 \<longrightarrow> v' = v0))"
        using sp n3(2) by (auto split: option.splits)
    qed (simp_all add: md' k)
    show "md_abs E ?md2 k' = md_abs E md k'" if "length k' = 16" for k' using i(7) w(5) that by simp
  qed
qed

end
