(* ===== verification/Md5db_Engine.thy ===== *)
theory Md5db_Engine
  imports Md5db_Conflict
begin

text \<open>
  Whole requests: a put, a get and an exists of the engine in terms of the map of digests
  to versions and stored bytes.
\<close>

section \<open>Requests\<close>

text \<open>The digest a request works on, and the bytes a put stores under it.\<close>

definition md_digest :: "'d md5db_env \<Rightarrow> bytes \<Rightarrow> conn_ctxt_t \<Rightarrow> 'd md5db \<Rightarrow> bytes" where
  "md_digest E user_key conn md = user_key_to_inner E (fst (get_inner_tbkey user_key conn md))"

definition md_descriptor :: "bytes \<Rightarrow> conn_ctxt_t \<Rightarrow> 'd md5db \<Rightarrow> kv_data_item_t" where
  "md_descriptor user_key conn md =
     \<lparr>kd_user_key_len = length user_key, kd_compress_type = compress_type conn, kd_reserved = 0,
      kd_ttl = qc_wttl (md_ctxt md conn), kd_timestamp = trunc 32 (md_now md)\<rparr>"

definition md_stored :: "bytes \<Rightarrow> bytes \<Rightarrow> conn_ctxt_t \<Rightarrow> 'd md5db \<Rightarrow> bytes" where
  "md_stored user_key val conn md = val @ user_key @ kv_data_bytes (md_descriptor user_key conn md)"

definition md5_ok :: "'d md5db_env \<Rightarrow> bool" where
  "md5_ok E \<longleftrightarrow> (\<forall>x. length (e_md5 E x) = 16)"

lemma md_digest_length: "md5_ok E \<Longrightarrow> length (md_digest E user_key conn md) = 16"
  by (simp add: md5_ok_def md_digest_def user_key_to_inner_def)

lemma get_inner_tbkey_frame:
  assumes "get_inner_tbkey user_key conn md = (nk, md1)"
  shows "md_buckets md1 = md_buckets md" "md_fullkeys md1 = md_fullkeys md" "md_contents md1 = md_contents md"
    "md_fast_conflicts md1 = md_fast_conflicts md" "md_conflicts md1 = md_conflicts md" "md_now md1 = md_now md"
    "qc_wttl (md_ctxt md1 conn) = qc_wttl (md_ctxt md conn)" "md_item md1 k = md_item md k"
  using assms by (auto simp: get_inner_tbkey_def Let_def md_upd_ctxt_def md_ctxt_def md_item_def split: if_splits)

lemma md_hash_reset:
  "\<exists>u. md_hash conn k md = (0, item_ctxt_reset\<lparr>ic_user_file_id := u, ic_inner_file_id := u\<rparr>)"
  by (auto simp: md_hash_def hash_with_md5db_def Let_def)

lemma md_bucket_find:
  "bucket_find (get_bucket (md_buckets md) k) k =
     (if m_type (md_item md k) \<le> BUCKET_CONFLICT_DATA then 0 else EFAULT, Some (key_to_item k))"
proof -
  have "\<not> key_to_item k \<ge> bucket_item_count" using key_to_item_less [of k] by simp
  moreover have "t \<le> 2 \<longleftrightarrow> t = 0 \<or> t = 1 \<or> t = (2::nat)" for t by auto
  ultimately show ?thesis by (simp add: bucket_find_def md_item_def Let_def)
qed

lemma put_inner_head:
  assumes "user_version \<le> BUCKET_DATA_MAX_VERSION" "\<not> (from_binlog \<and> user_version = 0)" "check_user_key user_key"
    "length user_key + length val \<le> MAX_VAL_LEN" "get_inner_tbkey user_key conn md = (nk, md1)"
    "md_hash conn (md_digest E user_key conn md) md1 = (0, ctxt)"
  shows "put_inner E user_key val user_version conn from_binlog md =
    (case put_slot E conn (md_digest E user_key conn md) user_key val user_version from_binlog ctxt md1 of
       (r, ver, ctxt', md') \<Rightarrow> (r, ver, Some ctxt', md'))"
  using assms unfolding put_inner_def Let_def
  by (auto simp: md_digest_def md_bucket_find)

section \<open>Writing\<close>

text \<open>
  The version a put leaves is what the two fields of an item give back for the returned
  version; for a request of the binlog it can be the returned version itself.
\<close>

definition md_put_ok ::
  "'d md5db_env \<Rightarrow> ('d \<Rightarrow> bytes \<Rightarrow> bytes option) \<Rightarrow> bytes \<Rightarrow> nat \<Rightarrow> bool \<Rightarrow> nat \<Rightarrow> bytes \<Rightarrow> 'd md5db \<Rightarrow> 'd md5db \<Rightarrow> bool" where
  "md_put_ok E contents k user_version is_dup ver stored md md' \<longleftrightarrow>
     (\<exists>v. (v = stored_version ver \<or> is_dup \<and> v = ver) \<and> md_abs_upd E contents md md' k (Some (v, stored)))
     \<and> (\<not> is_dup \<longrightarrow> ver = (case md_abs E md k of None \<Rightarrow> 1 | Some (w, _) \<Rightarrow> add_version w)
          \<and> (user_version = 0 \<or> (\<exists>w. md_abs E md k = Some (user_version, w))))"

lemma md_put_okI:
  assumes "md_abs_upd E contents md md' k (Some (v, stored))" "v = stored_version ver \<or> is_dup \<and> v = ver"
    "\<not> is_dup \<Longrightarrow> ver = (case md_abs E md k of None \<Rightarrow> 1 | Some (w, _) \<Rightarrow> add_version w)"
    "\<not> is_dup \<Longrightarrow> user_version \<noteq> 0 \<Longrightarrow> \<exists>w. md_abs E md k = Some (user_version, w)"
  shows "md_put_ok E contents k user_version is_dup ver stored md md'"
  using assms unfolding md_put_ok_def by blast

lemma md_abs_loc:
  assumes "md_owns E contents md m" "length k = 16" "md_loc E md k = Some (b, v)"
  obtains w where "md_abs E md k = Some (v, w)"
  using md_ownsD(3) [OF assms] md_abs_eq(2) [OF assms] by blast

lemma put_direct_ok:
  assumes own: "md_owns E contents md m" and k: "length k = 16" and t: "m_type (md_item md k) = BUCKET_DIRECT_DATA"
    and io: "md_io_ok E" and len: "length user_key + length val \<le> MAX_VAL_LEN"
    and run: "put_direct E conn k user_key val user_version is_dup ctxt md = (0, ver, ctxt', md')"
    and ve: "\<not> ic_is_version_error ctxt'" and small: "md_small md'"
  shows "md_put_ok E contents k user_version is_dup ver (md_raw conn user_key val ctxt md) md md'"
proof (cases "md_loc E md k")
  case None
  then have ns: "check_same_key k (m_block_id (md_item md k)) md \<noteq> 0" using check_same_key_eq(1) [OF k t] by metis
  have a: "\<exists>c. add_conflict_data E conn k user_key val user_version is_dup ctxt md = (0, ver, c, md')"
    using run unfolding put_direct_def Let_def if_not_P [OF ns] by (auto split: prod.splits if_splits)
  then obtain c where c: "add_conflict_data E conn k user_key val user_version is_dup ctxt md = (0, ver, c, md')" by blast
  have g: "\<not> is_dup \<Longrightarrow> user_version = 0" using c by (auto simp: add_conflict_data_def split: if_splits)
  note o = add_conflict_data_ok [OF own k t None io len c small]
  show ?thesis by (rule md_put_okI [OF o(1)]) (use o(2) g None md_abs_eq(1) [OF own k] in auto)
next
  case (Some e)
  then obtain b w where l: "md_loc E md k = Some (b, w)" by (cases e) auto
  note o = put_direct_same_ok [OF own k t l io len run ve small]
  obtain w' where ab: "md_abs E md k = Some (w, w')" using md_abs_loc [OF own k l] .
  have same: "check_same_key k (m_block_id (md_item md k)) md = 0" and w: "w = version (md_item md k)"
    using check_same_key_eq [OF k t] l by auto
  have g: "user_version = w" if "\<not> is_dup" "user_version \<noteq> 0"
    using run that w unfolding put_direct_def Let_def if_P [OF same] by (simp split: if_splits)
  show ?thesis by (rule md_put_okI [OF o(1)]) (use o(2) g ab in auto)
qed

lemma set_conflict_data_ok:
  assumes own: "md_owns E contents md m" and k: "length k = 16" and t: "m_type (md_item md k) = BUCKET_CONFLICT_DATA"
    and n: "card (md_slot_keys E md k) < 63"
    and io: "md_io_ok E" and len: "length user_key + length val \<le> MAX_VAL_LEN"
    and run: "set_conflict_data E conn k user_key val user_version is_dup ctxt md = (0, ver, ctxt', md')"
    and ve: "\<not> ic_is_version_error ctxt'" and small: "md_small md'"
  shows "md_put_ok E contents k user_version is_dup ver (md_raw conn user_key val ctxt md) md md'"
proof (cases "md_loc E md k")
  case None
  then have "md_find_conflict E k md = (ENOENT, block_id_zero, 0, False)"
    using md_find_conflict_eq [OF md_ownsD(1) [OF own] k t] t by (auto simp: md_loc_def split: option.splits)
  then have c: "set_conflict_new E conn k user_key val user_version is_dup ctxt md = (0, ver, ctxt', md')"
    using run by (simp add: set_conflict_data_def)
  have g: "\<not> is_dup \<Longrightarrow> user_version = 0" using c by (auto simp: set_conflict_new_def split: if_splits)
  note o = set_conflict_new_ok [OF own k t None n io len c small]
  show ?thesis by (rule md_put_okI [OF o(1)]) (use o(2) g None md_abs_eq(1) [OF own k] in auto)
next
  case (Some e)
  then obtain b w where l: "md_loc E md k = Some (b, w)" by (cases e) auto
  note o = set_conflict_found_ok [OF own k t l io len run ve small]
  obtain w' where ab: "md_abs E md k = Some (w, w')" using md_abs_loc [OF own k l] .
  obtain fast where find: "md_find_conflict E k md = (0, b, w, fast)"
    using md_find_conflict_eq [OF md_ownsD(1) [OF own] k t] l t by (auto simp: md_loc_def split: option.splits)
  have g: "user_version = w" if "\<not> is_dup" "user_version \<noteq> 0"
    using run that unfolding set_conflict_data_def find by (simp split: if_splits)
  show ?thesis using o(1) by (elim exE conjE, intro md_put_okI) (use o(2) g ab in auto)
qed

lemma put_slot_ok:
  assumes own: "md_owns E contents md m" and k: "length k = 16" and n: "card (md_slot_keys E md k) < 63"
    and io: "md_io_ok E" and len: "length user_key + length val \<le> MAX_VAL_LEN"
    and run: "put_slot E conn k user_key val user_version is_dup ctxt md = (0, ver, ctxt', md')"
    and ve: "\<not> ic_is_version_error ctxt'" and small: "md_small md'"
  shows "md_put_ok E contents k user_version is_dup ver (md_raw conn user_key val ctxt md) md md'"
proof -
  consider (dir) "m_type (md_item md k) = BUCKET_DIRECT_DATA" | (con) "m_type (md_item md k) = BUCKET_CONFLICT_DATA"
    | (none) "m_type (md_item md k) = BUCKET_NO_DATA"
    using run by (auto simp: put_slot_def Let_def split: if_splits)
  then show ?thesis
  proof cases
    case dir
    then show ?thesis using put_direct_ok [OF own k dir io len _ ve small] run by (simp add: put_slot_def)
  next
    case con
    obtain r v c md1 where s: "set_conflict_data E conn k user_key val user_version is_dup ctxt md = (r, v, c, md1)"
      using prod_cases4 by blast
    have "r = 0" "v = ver" "c = ctxt'" "md1 = md'"
      using run con ve by (auto simp: put_slot_def s put_result_def split: if_splits)
    then show ?thesis using set_conflict_data_ok [OF own k con n io len _ ve small] s by simp
  next
    case none
    obtain r v c md1 where s: "new_data E conn k user_key val user_version is_dup ctxt md = (r, v, c, md1)"
      using prod_cases4 by blast
    have "r = 0" "v = ver" "md1 = md'"
      using run none ve by (auto simp: put_slot_def s put_result_def split: if_splits)
    with s have c: "new_data E conn k user_key val user_version is_dup ctxt md = (0, ver, c, md')" by simp
    have g: "\<not> is_dup \<Longrightarrow> user_version = 0" using c by (auto simp: new_data_def split: if_splits)
    note o = new_data_ok [OF own k none io len c small]
    show ?thesis by (rule md_put_okI [OF o(1)]) (use o(2) g md_loc_empty [OF none] md_abs_eq(1) [OF own k] in auto)
  qed
qed

lemma md_raw_stored:
  assumes "check_user_key user_key" "get_inner_tbkey user_key conn md = (nk, md1)"
  shows "md_raw conn user_key val (item_ctxt_reset\<lparr>ic_user_file_id := u, ic_inner_file_id := u\<rparr>) md1 = md_stored user_key val conn md"
  using assms(1) get_inner_tbkey_frame(6,7) [OF assms(2)]
  by (simp add: md_stored_def md_descriptor_def md_kv_data_def item_ctxt_reset_def kv_data_zero_def check_user_key_def
      MAX_KEY_LEN_def trunc_def)

lemma md5db_put_head:
  assumes run: "md5db_put E user_key val user_version is_dup conn md = (0, ver, Some ctxt', md')"
    and ve: "\<not> ic_is_version_error ctxt'"
  obtains nk md1 u where "get_inner_tbkey user_key conn md = (nk, md1)" "check_user_key user_key"
    "length user_key + length val \<le> MAX_VAL_LEN"
    "put_slot E conn (md_digest E user_key conn md) user_key val user_version is_dup
       (item_ctxt_reset\<lparr>ic_user_file_id := u, ic_inner_file_id := u\<rparr>) md1 = (0, ver, ctxt', md')"
proof -
  obtain r v c md2 where pi: "put_inner E user_key val user_version conn is_dup md = (r, v, c, md2)" using prod_cases4 by blast
  have pi: "put_inner E user_key val user_version conn is_dup md = (0, ver, Some ctxt', md')"
    using run ve pi by (auto simp: md5db_put_def split: if_splits)
  have g: "user_version \<le> BUCKET_DATA_MAX_VERSION" "\<not> (is_dup \<and> user_version = 0)" "check_user_key user_key"
      "length user_key + length val \<le> MAX_VAL_LEN"
    using pi by (auto simp: put_inner_def split: if_splits)
  obtain nk md1 where tb: "get_inner_tbkey user_key conn md = (nk, md1)" by fastforce
  obtain u where h: "md_hash conn (md_digest E user_key conn md) md1 = (0, item_ctxt_reset\<lparr>ic_user_file_id := u, ic_inner_file_id := u\<rparr>)"
    using md_hash_reset by blast
  show thesis
    by (rule that [OF tb g(3,4)]) (use put_inner_head [OF g tb h] pi in \<open>auto split: prod.splits\<close>)
qed

lemma md5db_put_correct:
  assumes inv: "md_inv E contents md" and md5: "md5_ok E" and io: "md_io_ok E"
    and n: "card (md_slot_keys E md (md_digest E user_key conn md)) < 63"
    and run: "md5db_put E user_key val user_version is_dup conn md = (0, ver, Some ctxt', md')"
    and ve: "\<not> ic_is_version_error ctxt'" and small: "md_small md'"
  shows "md_put_ok E contents (md_digest E user_key conn md) user_version is_dup ver (md_stored user_key val conn md) md md'"
proof -
  let ?k = "md_digest E user_key conn md"
  obtain nk md1 u where tb: "get_inner_tbkey user_key conn md = (nk, md1)" and uk: "check_user_key user_key"
      and len: "length user_key + length val \<le> MAX_VAL_LEN"
      and ps: "put_slot E conn ?k user_key val user_version is_dup
       (item_ctxt_reset\<lparr>ic_user_file_id := u, ic_inner_file_id := u\<rparr>) md1 = (0, ver, ctxt', md')"
    using md5db_put_head [OF run ve] by metis
  note f = get_inner_tbkey_frame [OF tb]
  obtain m where "md_owns E contents md m" using inv by (auto simp: md_inv_def)
  then have own: "md_owns E contents md1 m" using md_owns_cong(1) [OF f(1-5)] by blast
  have n1: "card (md_slot_keys E md1 ?k) < 63" using n md_index_cong(6) [OF f(1,2,4,5)] by simp
  have ab: "md_abs E md1 k' = md_abs E md k'" for k' by (rule md_owns_cong(2) [OF f(1-5)])
  show ?thesis
    using put_slot_ok [OF own md_digest_length [OF md5] n1 io len ps ve small] md_raw_stored [OF uk tb]
    by (simp add: md_put_ok_def md_abs_upd_def ab)
qed

section \<open>Reading\<close>

text \<open>The outcomes of the operations of one request that reading relies on.\<close>

definition md_read_ok :: "'d md5db_env \<Rightarrow> bool" where
  "md_read_ok E \<longleftrightarrow> e_alloc E \<and> ca_rd_ok (e_contents E)"

lemma md_check_value_ok:
  assumes "kv_data_wf kd" "kd_user_key_len kd = length user_key" "user_key \<noteq> []"
  shows "md_check_value conn user_key (val @ user_key @ kv_data_bytes kd) ctxt md =
    (0, Some val, ctxt\<lparr>ic_kv_data := kd\<rparr>, md_upd_ctxt conn ((md_ctxt md conn)\<lparr>qc_rttl := kd_ttl kd\<rparr>) md)"
  using assms by (simp add: md_check_value_def Let_def)

lemma get_data_ok:
  assumes own: "md_owns E contents md m" and k: "length k = 16" and l: "md_loc E md k = Some (b, v)"
    and ab: "md_abs E md k = Some (v, w)" and rd: "md_read_ok E"
  shows "get_data E conn k b user_key ctxt md = md_check_value conn user_key w ctxt md"
proof -
  obtain w' where w': "md_stores md m k b w'" using md_ownsD(3) [OF own k l] by blast
  have "w' = w" using md_abs_eq(2) [OF own k l w'] ab by simp
  then obtain c where c: "fk_get_content_id (md_fk md k) b = Some c" "m (content_file_id c, content_data_id c) = Some w"
      "length w = content_data_len c"
    using w' unfolding md_stores_def by blast
  have "ca_get (e_contents E) (content_file_id c) (content_data_id c) (content_data_len c) (md_contents md) = Some w"
    using vals.rd_owned [OF md_ownsD(2) [OF own] c(2)] rd c(3) by (simp add: md_read_ok_def)
  moreover have "content_data_len c \<noteq> 0" using ca_owns_value(3) [OF md_ownsD(2) [OF own] c(2)] c(3) by simp
  moreover have "ca_ok (md_contents md)" using md_ownsD(2) [OF own] by (simp add: ca_owns_def)
  ultimately show ?thesis
    using c(1) rd by (simp add: get_data_def get_data_from_content_db_def md_read_ok_def)
qed

text \<open>The part of a get after the common head.\<close>

lemma md5db_get_head:
  assumes "check_user_key user_key" "get_inner_tbkey user_key conn md = (nk, md1)"
    "md_hash conn (md_digest E user_key conn md) md1 = (0, ctxt)" and inv: "md_index_inv E contents md1" and md5: "md5_ok E"
  shows "md5db_get E user_key conn md =
    (case md_loc E md1 (md_digest E user_key conn md) of
       None \<Rightarrow> (ENOENT, 0, None, Some ctxt, md1)
     | Some (b, v) \<Rightarrow> (case get_data E conn (md_digest E user_key conn md) b user_key ctxt md1 of
         (r, rsp, ctxt1, md2) \<Rightarrow>
           (if r = ENOENT \<and> m_type (md_item md1 (md_digest E user_key conn md)) = BUCKET_CONFLICT_DATA then EFAULT else r,
            v, rsp, Some ctxt1, md2)))"
proof -
  let ?k = "md_digest E user_key conn md"
  have k: "length ?k = 16" by (rule md_digest_length [OF md5])
  note t = md_slot_okD(6) [OF inv k]
  have e: "user_key_to_inner E nk = ?k" using assms(2) by (simp add: md_digest_def)
  have get: "md5db_get E user_key conn md =
    (let item = md_item md1 ?k in
     if m_type item = BUCKET_DIRECT_DATA then
       if check_same_key ?k (m_block_id item) md1 = 0
       then (case get_data E conn ?k (m_block_id item) user_key ctxt md1 of
               (r1, rsp, ctxt1, md2) \<Rightarrow> (r1, version item, rsp, Some ctxt1, md2))
       else (ENOENT, 0, None, Some ctxt, md1)
     else if m_type item = BUCKET_CONFLICT_DATA then
       (case get_conflict_block_id E ?k md1 of
          (r1, b, v) \<Rightarrow>
            if r1 \<noteq> 0 then (if r1 \<noteq> ENOENT then EFAULT else r1, v, None, Some ctxt, md1)
            else (case get_data E conn ?k b user_key ctxt md1 of
                    (r2, rsp, ctxt1, md2) \<Rightarrow> (if r2 = ENOENT then EFAULT else r2, v, rsp, Some ctxt1, md2)))
     else if m_type item = BUCKET_NO_DATA then (ENOENT, 0, None, Some ctxt, md1)
     else (EFAULT, 0, None, Some ctxt, md1))"
    using assms(1) t unfolding md5db_get_def assms(2) Let_def prod.case e assms(3) md_bucket_find by simp
  consider (dir) "m_type (md_item md1 ?k) = BUCKET_DIRECT_DATA" | (con) "m_type (md_item md1 ?k) = BUCKET_CONFLICT_DATA"
    | (none) "m_type (md_item md1 ?k) = BUCKET_NO_DATA" using t by linarith
  then show ?thesis
  proof cases
    case dir
    then show ?thesis
      using check_same_key_eq [OF k dir, of E] unfolding get
      by (cases "md_loc E md1 ?k") (auto simp: Let_def split: prod.splits)
  next
    case con
    then show ?thesis
      using get_conflict_block_id_eq [OF inv k con] unfolding get
      by (cases "md_loc E md1 ?k") (auto split: prod.splits)
  next
    case none
    then show ?thesis using md_loc_empty [OF none, of E] unfolding get by simp
  qed
qed

text \<open>A get changes nothing but the query context of its connection.\<close>

definition md_same_store :: "'d md5db \<Rightarrow> 'd md5db \<Rightarrow> bool" where
  "md_same_store md md' \<longleftrightarrow> md_buckets md' = md_buckets md \<and> md_fullkeys md' = md_fullkeys md
     \<and> md_contents md' = md_contents md \<and> md_fast_conflicts md' = md_fast_conflicts md
     \<and> md_conflicts md' = md_conflicts md \<and> md_data md' = md_data md \<and> md_now md' = md_now md"

lemma md_same_store_abs:
  assumes "md_same_store md md'"
  shows "md_inv E contents md' = md_inv E contents md" "md_abs E md' k = md_abs E md k"
  using assms md_owns_cong(2,3) [of md' md] unfolding md_same_store_def by blast+

lemma get_inner_tbkey_same:
  "get_inner_tbkey user_key conn md = (nk, md1) \<Longrightarrow> md_same_store md md1"
  by (auto simp: get_inner_tbkey_def Let_def md_upd_ctxt_def md_same_store_def split: if_splits)

lemma md_check_value_same:
  "md_check_value conn user_key w ctxt md = (r, rsp, ctxt', md') \<Longrightarrow> md_same_store md md'"
  by (auto simp: md_check_value_def Let_def md_upd_ctxt_def md_same_store_def split: if_splits)

lemma md_same_store_trans: "md_same_store a b \<Longrightarrow> md_same_store b c \<Longrightarrow> md_same_store a c"
  by (simp add: md_same_store_def)

text \<open>A get in terms of the map: the stored bytes are taken apart.\<close>

lemma md5db_get_eq:
  assumes inv: "md_inv E contents md" and md5: "md5_ok E" and rd: "md_read_ok E" and uk: "check_user_key user_key"
  obtains ctxt md1 where "md_same_store md md1"
    "md5db_get E user_key conn md =
      (case md_abs E md (md_digest E user_key conn md) of
         None \<Rightarrow> (ENOENT, 0, None, Some ctxt, md1)
       | Some (v, w) \<Rightarrow> (case md_check_value conn user_key w ctxt md1 of
           (r, rsp, ctxt1, md2) \<Rightarrow> (r, v, rsp, Some ctxt1, md2)))"
proof -
  let ?k = "md_digest E user_key conn md"
  obtain nk md1 where tb: "get_inner_tbkey user_key conn md = (nk, md1)" by fastforce
  obtain u where h: "md_hash conn ?k md1 = (0, item_ctxt_reset\<lparr>ic_user_file_id := u, ic_inner_file_id := u\<rparr>)"
    using md_hash_reset by blast
  note f = get_inner_tbkey_frame [OF tb]
  have k: "length ?k = 16" by (rule md_digest_length [OF md5])
  obtain m where "md_owns E contents md m" using inv by (auto simp: md_inv_def)
  then have own: "md_owns E contents md1 m" using md_owns_cong(1) [OF f(1-5)] by blast
  have ab: "md_abs E md ?k = md_abs E md1 ?k" by (rule md_owns_cong(2) [OF f(1-5), symmetric])
  note g = md5db_get_head [OF uk tb h md_ownsD(1) [OF own] md5]
  have ne: "fst (md_check_value conn user_key w c md1) \<noteq> ENOENT" for w c by (simp add: md_check_value_def Let_def)
  let ?c = "item_ctxt_reset\<lparr>ic_user_file_id := u, ic_inner_file_id := u\<rparr>"
  have "md5db_get E user_key conn md =
      (case md_abs E md ?k of
         None \<Rightarrow> (ENOENT, 0, None, Some ?c, md1)
       | Some (v, w) \<Rightarrow> (case md_check_value conn user_key w ?c md1 of
           (r, rsp, ctxt1, md2) \<Rightarrow> (r, v, rsp, Some ctxt1, md2)))"
  proof (cases "md_loc E md1 ?k")
    case None
    then show ?thesis unfolding g ab using md_abs_eq(1) [OF own k] by simp
  next
    case (Some e)
    then obtain b v where l: "md_loc E md1 ?k = Some (b, v)" by (cases e) auto
    obtain w where w: "md_abs E md1 ?k = Some (v, w)" using md_abs_loc [OF own k l] .
    show ?thesis
      unfolding g ab l w get_data_ok [OF own k l w rd] option.case prod.case using ne [of w ?c]
      by (auto split: prod.splits)
  qed
  then show thesis using that [OF get_inner_tbkey_same [OF tb]] by blast
qed

end
