(* ===== verification/Md5db_Del.thy ===== *)
theory Md5db_Del
  imports Md5db_Engine
begin

text \<open>
  Deleting a key: a successful delete keeps the invariant of the engine and takes the
  digest of the key out of the map the engine stands for.
\<close>

section \<open>Removing a located record\<close>

lemma md_owns_fewer:
  assumes own: "md_owns E contents md m" and inv: "md_index_inv E contents md'"
    and same: "md_contents md' = md_contents md" "md_fullkeys md' = md_fullkeys md"
    and loc [rule_format]: "\<forall>k. length k = 16 \<longrightarrow> md_loc E md' k = md_loc E md k \<or> md_loc E md' k = None"
  shows "md_owns E contents md' m"
proof -
  have fk: "md_fk md' k' = md_fk md k'" for k' by (simp add: md_fk_def same)
  have s: "md_stores md' m k' b' w = md_stores md m k' b' w" "md_handle md' k' b' = md_handle md k' b'" for k' b' w
    by (simp_all add: md_stores_def md_handle_def fk)
  have l: "md_loc E md k = Some e" if "length k = 16" "md_loc E md' k = Some e" for k e
    using loc [OF that(1)] that(2) by auto
  show ?thesis
    unfolding md_owns_def same s using inv md_ownsD(2-4) [OF own] l by metis
qed

text \<open>
  The value at the handle of a key that is no longer located goes out of the value files.
\<close>

lemma md_owns_unused:
  assumes own: "md_owns E contents md m" and ca: "ca_owns ca (m(h := None))"
    and free [rule_format]: "\<forall>k b v. length k = 16 \<longrightarrow> md_loc E md k = Some (b, v) \<longrightarrow> md_handle md k b \<noteq> Some h"
  shows "md_owns E contents (md\<lparr>md_contents := ca\<rparr>) (m(h := None))"
    "length k = 16 \<Longrightarrow> md_abs E (md\<lparr>md_contents := ca\<rparr>) k = md_abs E md k"
proof -
  let ?md = "md\<lparr>md_contents := ca\<rparr>"
  have c: "md_index_inv E contents ?md = md_index_inv E contents md" "md_loc E ?md k = md_loc E md k" "md_fk ?md k = md_fk md k" for k
    by (rule md_index_cong; simp)+
  have st: "md_stores ?md (m(h := None)) k b w" if k: "length k = 16" "md_loc E md k = Some (b, v)" "md_stores md m k b w" for k b v w
    using free [OF k(1,2)] k(3) by (auto simp: md_stores_def md_handle_def c)
  have hd: "md_handle ?md k b = md_handle md k b" for k b by (simp add: md_handle_def c)
  show own': "md_owns E contents ?md (m(h := None))"
    unfolding md_owns_def c hd using md_ownsD(1,3,4) [OF own] st ca by simp metis
  show "md_abs E ?md k = md_abs E md k" if k: "length k = 16"
  proof (cases "md_loc E md k")
    case (Some e)
    then obtain b v where l: "md_loc E md k = Some (b, v)" by (cases e) auto
    obtain w where w: "md_stores md m k b w" using md_ownsD(3) [OF own k l] by blast
    show ?thesis using md_abs_eq(2) [OF own k l w] md_abs_eq(2) [OF own' k _ st [OF k l w]] l by (simp add: c)
  qed (simp add: md_abs_def c)
qed

lemma md_remove:
  assumes own: "md_owns E contents md m" and k: "length k = 16" and l: "md_loc E md k = Some (b, v)"
    and upd: "md_loc_upd E contents md md1 k None"
    and same: "md_contents md1 = md_contents md" "md_fullkeys md1 = md_fullkeys md"
    and io: "ca_io_ok (e_contents E)" and c: "fk_get_content_id (md_fk md k) b = Some c"
    and del: "ca_del (e_contents E) (content_file_id c) (content_data_id c) (content_data_len c) (md_contents md) = (True, ca)"
    and fd: "fk_del b (md_fk md k) = (ok, fk)"
  shows "md_abs_upd E contents md ((md_set_fk k fk md1)\<lparr>md_contents := ca\<rparr>) k None" "ok"
proof -
  note inv = md_ownsD(1) [OF own]
  have u: "md_index_inv E contents md1" "\<forall>k'. length k' = 16 \<longrightarrow> md_loc E md1 k' = (if k' = k then None else md_loc E md k')"
    using upd by (simp_all add: md_loc_upd_def)
  have own1: "md_owns E contents md1 m" by (rule md_owns_fewer [OF own u(1) same]) (use u(2) in simp)
  have fk1: "md_fk md1 k' = md_fk md k'" for k' by (simp add: md_fk_def same)
  have abs1: "md_abs E md1 k' = (if k' = k then None else md_abs E md k')" if "length k' = 16" for k'
    using u(2) that unfolding md_abs_def fk1 same by simp
  obtain i where i: "i \<in> fk_live (md_fk md k)" "b = block_id_set (fk_file_id (md_fk md k)) i" "i < 4294967296"
    using md_names_live [OF inv md_loc_names(1) [OF inv k l]] by metis
  note d = fk_del_correct [OF md_index_invD(1) [OF inv] i(1) fd [unfolded i(2)]] and id = md_index_invD(2) [OF inv, of k]
  show ok by (rule d(1))
  have fid: "fk_file_id fk = unat (k ! 0)" using d(4) id by simp
  have keep: "j \<in> fk_live fk \<and> fk_data fk j = fk_data (md_fk md1 k) j"
    if h: "length k' = 16" "k' ! 0 = k ! 0" "md_loc E md1 k' = Some (block_id_set (unat (k ! 0)) j, v')"
      "j \<in> fk_live (md_fk md1 k)" for k' j v'
  proof -
    have ne: "k' \<noteq> k" and l': "md_loc E md k' = Some (block_id_set (unat (k ! 0)) j, v')"
      using h(1,3) u(2) by (simp_all split: if_splits)
    have "j \<noteq> i"
    proof
      assume "j = i"
      then have "md_loc E md k' = Some (b, v')" using l' i(2) id by simp
      with md_index_invD(7) [OF inv k h(1) l this] ne show False by blast
    qed
    then show ?thesis using d(3,5) h(4) fk1 by simp
  qed
  let ?md2 = "md_set_fk k fk md1" and ?h = "(content_file_id c, content_data_id c)"
  have fs: "md_owns E contents ?md2 m" "length k' = 16 \<Longrightarrow> md_loc E ?md2 k' = md_loc E md1 k'"
    "length k' = 16 \<Longrightarrow> md_abs E ?md2 k' = md_abs E md1 k'"
    "length k' = 16 \<Longrightarrow> md_loc E md1 k' = Some (b', v') \<Longrightarrow> md_handle ?md2 k' b' = md_handle md1 k' b'" for k' b' v'
    by (rule md_fk_step [OF own1 d(2) fid keep]; assumption)+
  obtain e where e: "m ?h = Some e" "length e = content_data_len c"
    using md_ownsD(3) [OF own k l] c by (auto simp: md_stores_def)
  have ca: "ca_owns ca (m(?h := None))" using vals.dl_true [OF md_ownsD(2) [OF own] io e(1)] del e(2) by simp
  have hk: "md_handle md k b = Some ?h" using c by (simp add: md_handle_def)
  have free: "\<forall>k' b' v'. length k' = 16 \<longrightarrow> md_loc E ?md2 k' = Some (b', v') \<longrightarrow> md_handle ?md2 k' b' \<noteq> Some ?h"
  proof (intro allI impI)
    fix k' b' v' assume h: "length k' = 16" "md_loc E ?md2 k' = Some (b', v')"
    then have ne: "k' \<noteq> k" and l': "md_loc E md k' = Some (b', v')" using fs(2) u(2) by (auto split: if_splits)
    have "md_loc E md1 k' = Some (b', v')" using h fs(2) by simp
    then have "md_handle ?md2 k' b' = md_handle md k' b'" using fs(4) h(1) by (simp add: md_handle_def fk1)
    then show "md_handle ?md2 k' b' \<noteq> Some ?h"
      using md_ownsD(4) [OF own k h(1) l l' ne] hk by simp
  qed
  note un = md_owns_unused [OF fs(1) ca free]
  show "md_abs_upd E contents md (?md2\<lparr>md_contents := ca\<rparr>) k None"
    by (rule md_abs_updI) (use un fs(3) abs1 k in \<open>auto simp: md_inv_def\<close>)
qed

lemma md_abs_upd_data: "md_abs_upd E contents md (md'\<lparr>md_data := ka\<rparr>) k x = md_abs_upd E contents md md' k x"
proof -
  have "md_inv E contents (md'\<lparr>md_data := ka\<rparr>) = md_inv E contents md'" "md_abs E (md'\<lparr>md_data := ka\<rparr>) k' = md_abs E md' k'" for k'
    by (rule md_owns_cong; simp)+
  then show ?thesis by (simp add: md_abs_upd_def)
qed

section \<open>The branches\<close>

text \<open>What a successful delete does.\<close>

definition md_del_ok ::
  "'d md5db_env \<Rightarrow> ('d \<Rightarrow> bytes \<Rightarrow> bytes option) \<Rightarrow> bytes \<Rightarrow> nat \<Rightarrow> bool \<Rightarrow> nat \<Rightarrow> 'd md5db \<Rightarrow> 'd md5db \<Rightarrow> bool" where
  "md_del_ok E contents k user_version is_dup ver md md' \<longleftrightarrow>
     md_abs_upd E contents md md' k None
     \<and> (\<exists>w. md_abs E md k = Some (ver, w)) \<and> (is_dup \<or> user_version = 0 \<or> user_version = ver)"

lemma del_direct_ok:
  assumes own: "md_owns E contents md m" and k: "length k = 16" and t: "m_type (md_item md k) = BUCKET_DIRECT_DATA"
    and io: "md_io_ok E"
    and run: "del_direct E conn k user_version is_dup ctxt md = (0, ver, Some ctxt', md')"
    and ve: "\<not> ic_is_version_error ctxt'"
  shows "md_del_ok E contents k user_version is_dup ver md md'"
proof -
  note inv = md_ownsD(1) [OF own]
  let ?b = "m_block_id (md_item md k)" and ?v = "version (md_item md k)"
  have same: "check_same_key k ?b md = 0" using run by (cases "check_same_key k ?b md = 0") (simp_all add: del_direct_def Let_def)
  then have l: "md_loc E md k = Some (?b, ?v)" using check_same_key_eq [OF k t, of E] by (cases "md_loc E md k") auto
  obtain r c1 md1 where dd: "delete_direct_data E conn k ?b ctxt md = (r, c1, md1)" using prod_cases3 by blast
  let ?it = "\<lambda>md. set_type BUCKET_NO_DATA ((md_item md k)\<lparr>m_block_id := block_id_zero\<rparr>)"
  have r: "r = 0" and ver: "ver = ?v" and md': "md' = md_set_item k (?it md1) md1"
    and g: "is_dup \<or> user_version = 0 \<or> user_version = ?v"
    using run ve same unfolding del_direct_def Let_def dd prod.case by (auto split: if_splits)
  obtain c where c: "fk_get_content_id (md_fk md k) ?b = Some c"
    using md_ownsD(3) [OF own k l] by (auto simp: md_stores_def)
  obtain b1 ca where ca: "ca_del (e_contents E) (content_file_id c) (content_data_id c) (content_data_len c) (md_contents md) = (b1, ca)"
    by fastforce
  obtain b2 fk where fk: "fk_del ?b (md_fk md k) = (b2, fk)" by fastforce
  have open': "ca_ok (md_contents md)" using md_ownsD(2) [OF own] by (simp add: ca_owns_def)
  have fk': "md_fk (md\<lparr>md_contents := ca\<rparr>) k = md_fk md k" by (simp add: md_fk_def)
  have parts: "b1 \<and> (\<exists>ka. md1 = (md_set_fk k fk (md\<lparr>md_contents := ca\<rparr>))\<lparr>md_data := ka\<rparr>)"
    using dd r open' c unfolding delete_direct_data_def by (auto simp: ca fk fk' Let_def split: if_splits prod.splits)
  then obtain ka where b1: b1 and md1: "md1 = (md_set_fk k fk (md\<lparr>md_contents := ca\<rparr>))\<lparr>md_data := ka\<rparr>" by blast
  have it: "md_item md1 k = md_item md k" by (simp add: md1 md_item_def)
  let ?md0 = "md_set_item k (?it md) md"
  have ty: "m_type (?it md) = BUCKET_NO_DATA" by (simp add: set_type_def trunc_def)
  have ds: "md_index_inv E contents ?md0" "length k' = 16 \<Longrightarrow> md_loc E ?md0 k' = (if same_slot k' k then None else md_loc E md k')" for k'
    using md_direct_step [OF inv k, of "?it md"] t ty by simp_all
  have "md_loc E md k' = None" if "length k' = 16" "same_slot k' k" "k' \<noteq> k" for k'
    using md_direct [OF inv k t] l k that by (metis option.distinct(1) same_slot_refl)
  then have up: "md_loc_upd E contents md ?md0 k None" using ds by (auto simp: md_loc_upd_def)
  have io': "ca_io_ok (e_contents E)" using io by (simp add: md_io_ok_def)
  have rm: "md_abs_upd E contents md ((md_set_fk k fk ?md0)\<lparr>md_contents := ca\<rparr>) k None"
    by (rule md_remove(1) [OF own k l up _ _ io' c _ fk]) (use ca b1 in simp_all)
  have eq: "md' = ((md_set_fk k fk ?md0)\<lparr>md_contents := ca\<rparr>)\<lparr>md_data := ka\<rparr>"
    unfolding md' it by (simp add: md1 md_set_item_def md_set_fk_def)
  have "md_abs_upd E contents md md' k None" using rm unfolding eq md_abs_upd_data .
  then show ?thesis using md_abs_loc [OF own k l] g ver unfolding md_del_ok_def by metis
qed

text \<open>Deletes of leveldb that do not fail.\<close>

definition ldb_deletes :: "'d leveldb \<Rightarrow> bool" where
  "ldb_deletes L \<longleftrightarrow> (\<forall>k d. fst (ldb_delete L k d) = Ldb_Ok)"

lemma cfa_del_done:
  assumes "ldb_deletes L" "cfa_inv L md5 contents cs" "length k = 16"
  shows "fst (cfa_del L k cs) = 0"
proof -
  have "kv_inv md5 contents (cs ! get_conflict cs k)"
    using assms(2) by (auto simp: cfa_inv_def get_conflict_def)
  then obtain d where d: "kl_db (cs ! get_conflict cs k) = Some d" by (auto simp: kv_inv_def)
  obtain d' where "ldb_delete L k d = (Ldb_Ok, d')" using assms(1) by (metis ldb_deletes_def prod.collapse)
  then show ?thesis using assms(3) d by (simp add: cfa_del_def conflict_del_def kv_del_def ldb_check_key_def Let_def)
qed

lemma del_conflict_block_id_ok:
  assumes own: "md_owns E contents md m" and k: "length k = 16" and t: "m_type (md_item md k) = BUCKET_CONFLICT_DATA"
    and del: "ldb_deletes (e_ldb E)"
    and run: "del_conflict_block_id E k user_version is_dup ctxt md = (0, b, cid, ver, ctxt', md')"
    and ve: "\<not> ic_is_version_error ctxt'"
  obtains md1 fk ok where "md_loc E md k = Some (b, ver)" "md_loc_upd E contents md md1 k None"
    "md_contents md1 = md_contents md" "md_fullkeys md1 = md_fullkeys md"
    "fk_get_content_id (md_fk md k) b = Some cid" "fk_del b (md_fk md k) = (ok, fk)" "md' = md_set_fk k fk md1"
    "is_dup \<or> user_version = 0 \<or> user_version = ver"
proof -
  note inv = md_ownsD(1) [OF own]
  obtain r b0 w fast where find: "md_find_conflict E k md = (r, b0, w, fast)" using prod_cases4 by blast
  have r: "r = 0" and g: "is_dup \<or> user_version = 0 \<or> user_version = w" and bw: "b = b0" "ver = w"
    using run ve unfolding del_conflict_block_id_def find by (auto simp: Let_def split: if_splits prod.splits)
  have f: "if fast then md_fast md k = Some (b, w) else md_fast md k = None \<and> md_slow E md k = Some (b, w)"
    using find r bw md_find_conflict_eq [OF inv k t] by (auto split: option.splits)
  then have l: "md_loc E md k = Some (b, ver)" using t bw by (auto simp: md_loc_def split: if_splits)
  obtain fk ok where fk: "fk_del b (md_fk md k) = (ok, fk)" by fastforce
  obtain c where c: "fk_get_content_id (md_fk md k) b = Some c" using md_ownsD(3) [OF own k l] by (auto simp: md_stores_def)
  define md0 where "md0 = (if fast then md\<lparr>md_fast_conflicts := snd (fca_del (Some (md_buckets md)) (md_fullkeys md) k (md_fast_conflicts md))\<rparr>
     else md\<lparr>md_conflicts := snd (cfa_del (e_ldb E) k (md_conflicts md))\<rparr>)"
  have sel: "md_fk md0 k = md_fk md k" "md_item md0 k = md_item md k" "md_contents md0 = md_contents md" "md_fullkeys md0 = md_fullkeys md"
    by (simp_all add: md0_def md_fk_def md_item_def)
  let ?md1 = "md_set_item k (md_dec_item (md_item md k)) md0"
  have st: "cid = c \<and> md' = md_set_item k (md_dec_item (md_item md k)) (md_set_fk k fk md0)"
    using run ve g r unfolding del_conflict_block_id_def find prod.case bw(1) [symmetric] md0_def [symmetric] Let_def
    by (auto simp: sel c fk md_dec_item_def split: prod.splits if_splits)
  have up: "md_loc_upd E contents md ?md1 k None"
  proof (cases fast)
    case True
    then show ?thesis using md_del_fast [OF inv k t, of "(b, w)"] f by (simp add: md0_def) (metis prod.collapse)
  next
    case False
    have "cfa_del (e_ldb E) k (md_conflicts md) = (0, snd (cfa_del (e_ldb E) k (md_conflicts md)))"
      using cfa_del_done [OF del md_index_invD(4) [OF inv] k] by (metis prod.collapse)
    from md_del_slow [OF inv k _ this, of "(b, w)"] show ?thesis using False f by (simp add: md0_def)
  qed
  have "md' = md_set_fk k fk ?md1" using st by (simp add: md_set_item_def md_set_fk_def)
  then show thesis using that [OF l up _ _ _ fk] sel st c g bw by simp
qed

lemma del_from_md5db_ctxt:
  "del_from_md5db L b f table ctxt ka = (r, ctxt', ka') \<Longrightarrow> ic_is_version_error ctxt' = ic_is_version_error ctxt"
  by (auto simp: del_from_md5db_def ka_key_def Let_def split: if_splits option.splits prod.splits)

lemma delete_conflict_data_ok:
  assumes own: "md_owns E contents md m" and k: "length k = 16" and t: "m_type (md_item md k) = BUCKET_CONFLICT_DATA"
    and io: "md_io_ok E" and del: "ldb_deletes (e_ldb E)"
    and run: "delete_conflict_data E conn k user_version is_dup ctxt md = (0, ver, ctxt', md')"
    and ve: "\<not> ic_is_version_error ctxt'"
  shows "md_del_ok E contents k user_version is_dup ver md md'"
proof -
  obtain r b cid v c1 md1 where db: "del_conflict_block_id E k user_version is_dup ctxt md = (r, b, cid, v, c1, md1)"
    using prod_cases6 by blast
  obtain b1 ca where ca: "ca_del (e_contents E) (content_file_id cid) (content_data_id cid) (content_data_len cid) (md_contents md1) = (b1, ca)"
    by fastforce
  let ?c2 = "c1\<lparr>ic_kv_data := (ic_kv_data c1)\<lparr>kd_ttl := content_data_len cid\<rparr>\<rparr>"
  have r: "r = 0" using run unfolding delete_conflict_data_def db by (auto split: if_splits)
  note run' = run [unfolded delete_conflict_data_def db prod.case r Let_def]
  have ve1: "\<not> ic_is_version_error c1"
    using run' ve by (auto split: if_splits prod.splits dest!: del_from_md5db_ctxt)
  obtain md0 fk ok where p: "md_loc E md k = Some (b, v)" "md_loc_upd E contents md md0 k None"
      "md_contents md0 = md_contents md" "md_fullkeys md0 = md_fullkeys md"
      "fk_get_content_id (md_fk md k) b = Some cid" "fk_del b (md_fk md k) = (ok, fk)" "md1 = md_set_fk k fk md0"
      "is_dup \<or> user_version = 0 \<or> user_version = v"
    by (rule del_conflict_block_id_ok [OF own k t del db [unfolded r] ve1]) (rule that)
  have c1: "md_contents md1 = md_contents md" using p(3,7) by simp
  have open': "ca_ok (md_contents md1)" using md_ownsD(2) [OF own] c1 by (simp add: ca_owns_def)
  have st: "b1 \<and> ver = v \<and> (\<exists>ka. md' = md1\<lparr>md_contents := ca, md_data := ka\<rparr>)"
    using run' open' by (auto simp: ca split: if_splits prod.splits)
  then obtain ka where b1: b1 and v: "ver = v" and md': "md' = (md1\<lparr>md_contents := ca\<rparr>)\<lparr>md_data := ka\<rparr>" by auto
  have io': "ca_io_ok (e_contents E)" using io by (simp add: md_io_ok_def)
  have "md_abs_upd E contents md ((md_set_fk k fk md0)\<lparr>md_contents := ca\<rparr>) k None"
    by (rule md_remove(1) [OF own k p(1-4) io' p(5) _ p(6)]) (use ca b1 c1 in simp)
  then have "md_abs_upd E contents md md' k None" unfolding md' md_abs_upd_data p(7) .
  then show ?thesis using md_abs_loc [OF own k p(1)] p(8) v unfolding md_del_ok_def by metis
qed

section \<open>Whole requests\<close>

lemma md5db_del_correct:
  assumes inv: "md_inv E contents md" and md5: "md5_ok E" and io: "md_io_ok E" and del: "ldb_deletes (e_ldb E)"
    and run: "md5db_del E user_key user_version is_dup conn c0 md = (0, ver, Some ctxt', md')"
    and ve: "\<not> ic_is_version_error ctxt'"
  shows "md_del_ok E contents (md_digest E user_key conn md) user_version is_dup ver md md'"
proof -
  let ?k = "md_digest E user_key conn md"
  obtain nk md1 where tb: "get_inner_tbkey user_key conn md = (nk, md1)" by fastforce
  obtain u where h: "md_hash conn ?k md1 = (0, item_ctxt_reset\<lparr>ic_user_file_id := u, ic_inner_file_id := u\<rparr>)"
    using md_hash_reset by blast
  have e: "user_key_to_inner E nk = ?k" using tb by (simp add: md_digest_def)
  note f = get_inner_tbkey_frame [OF tb]
  have k: "length ?k = 16" by (rule md_digest_length [OF md5])
  obtain m where "md_owns E contents md m" using inv by (auto simp: md_inv_def)
  then have own: "md_owns E contents md1 m" using md_owns_cong(1) [OF f(1-5)] by blast
  have ab: "md_abs E md1 k' = md_abs E md k'" for k' by (rule md_owns_cong(2) [OF f(1-5)])
  let ?c = "item_ctxt_reset\<lparr>ic_user_file_id := u, ic_inner_file_id := u\<rparr>" and ?t = "m_type (md_item md1 ?k)"
  have g: "\<not> user_version > BUCKET_DATA_MAX_VERSION" "check_user_key user_key"
    using run by (auto simp: md5db_del_def del_inner_def split: if_splits)
  have "?t = BUCKET_DIRECT_DATA \<and> del_direct E conn ?k user_version is_dup ?c md1 = (0, ver, Some ctxt', md')
      \<or> ?t = BUCKET_CONFLICT_DATA \<and> delete_conflict_data E conn ?k user_version is_dup ?c md1 = (0, ver, ctxt', md')"
    using run g unfolding md5db_del_def del_inner_def tb Let_def prod.case e h md_bucket_find
    by (auto split: if_splits prod.splits)
  then have "md_del_ok E contents ?k user_version is_dup ver md1 md'"
    using del_direct_ok [OF own k _ io _ ve] delete_conflict_data_ok [OF own k _ io del _ ve] by blast
  then show ?thesis by (simp add: md_del_ok_def md_abs_upd_def ab)
qed

end
