(* ===== verification/Md5db_Map.thy ===== *)
theory Md5db_Map
  imports Md5db_Del
begin

text \<open>
  Sequences of requests: the engine is a map from digests to stored bytes. The theorems
  about whole requests, with a fresh engine as the concrete instance.
\<close>

section \<open>Refused requests\<close>

text \<open>The mark of a version error is set by the version checks alone, which change nothing.\<close>

lemma put_from_md5db_ctxt:
  "put_from_md5db L md5 b f table v t ctxt ka = (r, ctxt', ka') \<Longrightarrow> ic_is_version_error ctxt' = ic_is_version_error ctxt"
  by (auto simp: put_from_md5db_def ka_key_def Let_def split: if_splits option.splits prod.splits)

lemma add_data_ctxt:
  "add_data E conn k b user_key val ctxt md = (r, ctxt', md') \<Longrightarrow> ic_is_version_error ctxt' = ic_is_version_error ctxt"
  by (auto simp: add_data_def add_data_to_content_db_def set_data_to_kv_array_def md_value_def Let_def
      split: if_splits option.splits prod.splits dest!: put_from_md5db_ctxt)

lemma set_data_ctxt:
  "set_data E conn k b user_key val ctxt md = (r, ctxt', md') \<Longrightarrow> ic_is_version_error ctxt' = ic_is_version_error ctxt"
  by (auto simp: set_data_def set_data_to_content_db_def set_data_to_kv_array_def md_value_def Let_def
      split: if_splits option.splits prod.splits dest!: put_from_md5db_ctxt)

lemma new_data_ctxt:
  assumes "new_data E conn k user_key val user_version is_dup ctxt md = (r, ver, ctxt', md')"
  shows "ic_is_version_error ctxt' = ic_is_version_error ctxt"
proof -
  have "case new_data E conn k user_key val user_version is_dup ctxt md of (r, ver, c, md') \<Rightarrow>
      ic_is_version_error c = ic_is_version_error ctxt"
    unfolding new_data_def by (auto simp: Let_def split: prod.split option.split dest!: add_data_ctxt)
  then show ?thesis using assms by simp
qed

lemma add_conflict_data_ctxt:
  assumes run: "add_conflict_data E conn k user_key val user_version is_dup ctxt md = (r, ver, ctxt', md')"
  shows "ic_is_version_error ctxt' = ic_is_version_error ctxt"
proof (cases "\<not> is_dup \<and> user_version \<noteq> 0")
  case True
  then show ?thesis using run by (simp add: add_conflict_data_def)
next
  case g: False
  note run1 = run [unfolded add_conflict_data_def if_not_P [OF g] Let_def]
  show ?thesis
  proof (cases "fk_get (md_fk md k) (m_block_id (md_item md k))")
    case None
    then show ?thesis using run1 by simp
  next
    case (Some suffix)
    obtain x fk where wr: "fk_write (e_fullkey E) k (md_fk md k) = (x, fk)" by fastforce
    note run2 = run1 [unfolded Some option.case wr prod.case]
    show ?thesis
    proof (cases x)
      case None
      then show ?thesis using run2 by simp
    next
      case x: (Some b)
      obtain a fcs where fw: "fca_write (e_fast E) (take 3 k @ suffix) (m_block_id (md_item md k)) (version (md_item md k)) b
          (if \<not> is_dup then 1 else user_version) (md_fast_conflicts (md_set_fk k fk md)) = (a, fcs)" by fastforce
      note run3 = run2 [unfolded x option.case fw prod.case]
      show ?thesis
      proof (cases a)
        case None
        then show ?thesis using run3 by simp
      next
        case a: (Some addr)
        obtain r1 c1 md3 where ad: "add_data E conn k b user_key val ctxt ((md_set_fk k fk md)\<lparr>md_fast_conflicts := fcs\<rparr>) = (r1, c1, md3)"
          using prod_cases3 by blast
        show ?thesis using run3 [unfolded a option.case ad prod.case] add_data_ctxt [OF ad] by (auto split: if_splits)
      qed
    qed
  qed
qed

lemma set_conflict_new_ctxt:
  assumes run: "set_conflict_new E conn k user_key val user_version is_dup ctxt md = (r, ver, ctxt', md')"
  shows "ic_is_version_error ctxt' = ic_is_version_error ctxt"
proof (cases "\<not> is_dup \<and> user_version \<noteq> 0")
  case True
  then show ?thesis using run by (simp add: set_conflict_new_def)
next
  case g: False
  obtain x fk where wr: "fk_write (e_fullkey E) k (md_fk md k) = (x, fk)" by fastforce
  note run1 = run [unfolded set_conflict_new_def if_not_P [OF g] wr prod.case]
  show ?thesis
  proof (cases x)
    case None
    then show ?thesis using run1 by simp
  next
    case x: (Some b)
    obtain r1 c1 md1 where ad: "add_data E conn k b user_key val ctxt (md_set_fk k fk md) = (r1, c1, md1)"
      using prod_cases3 by blast
    obtain r2 fcs where fa: "fca_add (Some (md_buckets md1)) (md_fullkeys md1) k b (if is_dup then user_version else 1)
        (md_fast_conflicts md1) = (r2, fcs)" by fastforce
    obtain r3 cs where pu: "cfa_put (e_ldb E) (e_md5 E) k b (if is_dup then user_version else 1) (md_conflicts md1) = (r3, cs)"
      by fastforce
    have "ctxt' = c1 \<or> ctxt' = c1\<lparr>ic_kv_type := NEW_KV\<rparr>"
      using run1 [unfolded x option.case ad prod.case Let_def fa] pu by (auto split: if_splits prod.splits)
    then show ?thesis using add_data_ctxt [OF ad] by auto
  qed
qed

lemma put_slot_refused:
  assumes run: "put_slot E conn k user_key val user_version is_dup ctxt md = (r, ver, ctxt', md')"
    and c: "\<not> ic_is_version_error ctxt" "ic_is_version_error ctxt'"
  shows "md' = md"
proof -
  have d: "md' = md" if "put_direct E conn k user_key val user_version is_dup ctxt md = (r, ver, ctxt', md')"
    using that c unfolding put_direct_def Let_def
    by (auto split: if_splits prod.splits dest!: set_data_ctxt add_conflict_data_ctxt)
  have s: "md2 = md" if "set_conflict_data E conn k user_key val user_version is_dup ctxt md = (r', ver', ctxt', md2)" for r' ver' md2
    using that c unfolding set_conflict_data_def Let_def
    by (auto split: if_splits prod.splits dest!: set_data_ctxt set_conflict_new_ctxt)
  show ?thesis
    using run c d s unfolding put_slot_def Let_def put_result_def
    by (auto split: if_splits prod.splits dest!: new_data_ctxt)
qed

definition version_refused :: "nat \<Rightarrow> bool \<Rightarrow> nat \<Rightarrow> bool" where
  "version_refused user_version is_dup w \<longleftrightarrow>
     user_version \<noteq> 0 \<and> (if is_dup then \<not> binlog_version_valid user_version w else user_version \<noteq> w)"

lemma put_slot_mismatch:
  assumes inv: "md_index_inv E contents md" and k: "length k = 16" and l: "md_loc E md k = Some (b, w)"
    and mis: "version_refused user_version is_dup w"
  shows "put_slot E conn k user_key val user_version is_dup ctxt md =
    (if is_dup then 0 else EINVAL, w, ctxt\<lparr>ic_is_version_error := True\<rparr>, md)"
proof -
  have w: "is_dup \<Longrightarrow> w \<noteq> 0" using mis by (auto simp: version_refused_def binlog_version_valid_def split: if_splits)
  show ?thesis
    using md_loc_names(2) [OF inv k l]
  proof
    assume t: "m_type (md_item md k) = BUCKET_DIRECT_DATA"
    then have "check_same_key k (m_block_id (md_item md k)) md = 0" "w = version (md_item md k)"
      using check_same_key_eq [OF k t] l by auto
    then show ?thesis using t mis by (auto simp: put_slot_def put_direct_def version_refused_def Let_def)
  next
    assume t: "m_type (md_item md k) = BUCKET_CONFLICT_DATA"
    then obtain fast where "md_find_conflict E k md = (0, b, w, fast)"
      using md_find_conflict_eq [OF inv k t] l by (auto simp: md_loc_def split: option.splits)
    then show ?thesis
      using t mis w by (auto simp: put_slot_def set_conflict_data_def version_refused_def put_result_def)
  qed
qed

lemma md5db_put_mismatch:
  assumes inv: "md_inv E contents md" and md5: "md5_ok E" and uk: "check_user_key user_key"
    and len: "length user_key + length val \<le> MAX_VAL_LEN" and uv: "user_version \<le> BUCKET_DATA_MAX_VERSION"
    and ab: "md_abs E md (md_digest E user_key conn md) = Some (w, x)" and mis: "version_refused user_version is_dup w"
  obtains ctxt md' where "md5db_put E user_key val user_version is_dup conn md = (if is_dup then 0 else EINVAL, w, Some ctxt, md')"
    "ic_is_version_error ctxt" "md_same_store md md'"
proof -
  let ?k = "md_digest E user_key conn md"
  obtain nk md1 where tb: "get_inner_tbkey user_key conn md = (nk, md1)" by fastforce
  obtain u where h: "md_hash conn ?k md1 = (0, item_ctxt_reset\<lparr>ic_user_file_id := u, ic_inner_file_id := u\<rparr>)"
    using md_hash_reset by blast
  note f = get_inner_tbkey_frame [OF tb]
  have k: "length ?k = 16" by (rule md_digest_length [OF md5])
  obtain m where "md_owns E contents md m" using inv by (auto simp: md_inv_def)
  then have own: "md_owns E contents md1 m" using md_owns_cong(1) [OF f(1-5)] by blast
  have "md_abs E md1 ?k = Some (w, x)" using ab md_owns_cong(2) [OF f(1-5)] by simp
  then obtain b where l: "md_loc E md1 ?k = Some (b, w)" by (auto simp: md_abs_def split: option.splits)
  have g: "\<not> (is_dup \<and> user_version = 0)" using mis by (simp add: version_refused_def)
  have "put_inner E user_key val user_version conn is_dup md = (if is_dup then 0 else EINVAL, w,
      Some (item_ctxt_reset\<lparr>ic_user_file_id := u, ic_inner_file_id := u, ic_is_version_error := True\<rparr>), md1)"
    unfolding put_inner_head [OF uv g uk len tb h] put_slot_mismatch [OF md_ownsD(1) [OF own] k l mis] by simp
  then have "md5db_put E user_key val user_version is_dup conn md = (if is_dup then 0 else EINVAL, w,
      Some (item_ctxt_reset\<lparr>ic_user_file_id := u, ic_inner_file_id := u, ic_is_version_error := True\<rparr>), md1)"
    by (simp add: md5db_put_def)
  from that [OF this _ get_inner_tbkey_same [OF tb]] show thesis by simp
qed

section \<open>Sequences of requests\<close>

text \<open>
  The outcomes of the file operations differ from request to request; leveldb and the
  digest function do not.
\<close>

definition env_like :: "'d md5db_env \<Rightarrow> 'd md5db_env \<Rightarrow> bool" where
  "env_like E E' \<longleftrightarrow> e_ldb E' = e_ldb E \<and> e_md5 E' = e_md5 E"

lemma env_like_cong:
  assumes "env_like E E'"
  shows "md_abs E' = md_abs E" "md_inv E' contents = md_inv E contents" "md_slot_keys E' = md_slot_keys E"
    "md5_ok E' = md5_ok E" "md_digest E' = md_digest E" "md_abs_upd E' contents = md_abs_upd E contents"
proof -
  have e: "e_ldb E' = e_ldb E" "e_md5 E' = e_md5 E" using assms by (simp_all add: env_like_def)
  have s: "md_slow E' = md_slow E" unfolding fun_eq_iff md_slow_def e by simp
  have l: "md_loc E' = md_loc E" unfolding fun_eq_iff md_loc_def s by simp
  show a: "md_abs E' = md_abs E" unfolding fun_eq_iff md_abs_def l by simp
  show k: "md_slot_keys E' = md_slot_keys E" by (simp add: fun_eq_iff md_slot_keys_def l)
  have o: "md_slot_ok E' = md_slot_ok E" by (simp add: fun_eq_iff md_slot_ok_def s k)
  have i: "md_index_inv E' contents = md_index_inv E contents" by (simp add: fun_eq_iff md_index_inv_def e o l)
  show v: "md_inv E' contents = md_inv E contents" by (simp add: fun_eq_iff md_inv_def md_owns_def i l)
  show "md5_ok E' = md5_ok E" by (simp add: md5_ok_def e)
  show "md_digest E' = md_digest E" by (simp add: fun_eq_iff md_digest_def user_key_to_inner_def e)
  show "md_abs_upd E' contents = md_abs_upd E contents" by (simp add: fun_eq_iff md_abs_upd_def a v)
qed

text \<open>
  A sequence of requests from \<open>md0\<close>, and the map from digests to stored bytes it leaves. A
  put or a delete answers 0 without the mark of a version error, or a put is refused for its
  version; reads and the setting of the table and of the expiry time come in between.
\<close>

inductive md5db_run ::
  "'d md5db_env \<Rightarrow> 'd md5db \<Rightarrow> (bytes \<rightharpoonup> bytes) \<Rightarrow> 'd md5db \<Rightarrow> (bytes \<rightharpoonup> bytes) \<Rightarrow> bool"
  for E0 :: "'d md5db_env" and md0 :: "'d md5db" and s0 :: "bytes \<rightharpoonup> bytes" where
  start: "md5db_run E0 md0 s0 md0 s0"
| put: "md5db_run E0 md0 s0 md s \<Longrightarrow> env_like E0 E \<Longrightarrow> md_io_ok E \<Longrightarrow>
    md5db_put E user_key val user_version is_dup conn md = (0, ver, Some ctxt, md') \<Longrightarrow>
    \<not> ic_is_version_error ctxt \<Longrightarrow> card (md_slot_keys E0 md (md_digest E0 user_key conn md)) < 63 \<Longrightarrow> md_small md' \<Longrightarrow>
    md5db_run E0 md0 s0 md' (s(md_digest E0 user_key conn md \<mapsto> md_stored user_key val conn md))"
| refused: "md5db_run E0 md0 s0 md s \<Longrightarrow> env_like E0 E \<Longrightarrow>
    md5db_put E user_key val user_version is_dup conn md = (r, ver, Some ctxt, md') \<Longrightarrow> ic_is_version_error ctxt \<Longrightarrow>
    md5db_run E0 md0 s0 md' s"
| del: "md5db_run E0 md0 s0 md s \<Longrightarrow> env_like E0 E \<Longrightarrow> md_io_ok E \<Longrightarrow> ldb_deletes (e_ldb E) \<Longrightarrow>
    md5db_del E user_key user_version is_dup conn c0 md = (0, ver, Some ctxt, md') \<Longrightarrow>
    \<not> ic_is_version_error ctxt \<Longrightarrow>
    md5db_run E0 md0 s0 md' (s(md_digest E0 user_key conn md := None))"
| get: "md5db_run E0 md0 s0 md s \<Longrightarrow> env_like E0 E \<Longrightarrow> md_read_ok E \<Longrightarrow>
    md5db_get E user_key conn md = (r, ver, rsp, ctxt, md') \<Longrightarrow> md5db_run E0 md0 s0 md' s"
| exists: "md5db_run E0 md0 s0 md s \<Longrightarrow> env_like E0 E \<Longrightarrow>
    md5db_exists E user_key conn md = (r, ver, md') \<Longrightarrow> md5db_run E0 md0 s0 md' s"
| table: "md5db_run E0 md0 s0 md s \<Longrightarrow> md5db_run E0 md0 s0 (set_inner_table tab ty added conn md) s"
| ttl: "md5db_run E0 md0 s0 md s \<Longrightarrow> md5db_run E0 md0 s0 (set_inner_ttl t conn md) s"

lemma set_inner_same:
  "md_same_store md (set_inner_table tab ty added conn md)" "md_same_store md (set_inner_ttl t conn md)"
  by (simp_all add: set_inner_table_def set_inner_ttl_def md_same_store_def md_upd_ctxt_def Let_def split: option.splits)

lemma md5db_exists_same:
  assumes "md5db_exists E user_key conn md = (r, ver, md')"
  shows "md_same_store md md'"
proof (cases "check_user_key user_key")
  case True
  obtain nk md1 where tb: "get_inner_tbkey user_key conn md = (nk, md1)" by fastforce
  have "md' = md1"
    using assms True unfolding md5db_exists_def tb Let_def prod.case md_bucket_find by (auto split: if_splits prod.splits)
  then show ?thesis using get_inner_tbkey_same [OF tb] by simp
next
  case False
  then show ?thesis using assms by (simp add: md5db_exists_def md_same_store_def)
qed

lemma md5db_get_same:
  assumes inv: "md_inv E contents md" "md5_ok E" "md_read_ok E" and get: "md5db_get E user_key conn md = (r, ver, rsp, ctxt, md')"
  shows "md_same_store md md'"
proof (cases "check_user_key user_key")
  case True
  obtain c md1 where g: "md_same_store md md1" "md5db_get E user_key conn md =
      (case md_abs E md (md_digest E user_key conn md) of
         None \<Rightarrow> (ENOENT, 0, None, Some c, md1)
       | Some (v, w) \<Rightarrow> (case md_check_value conn user_key w c md1 of
           (r, rsp, ctxt1, md2) \<Rightarrow> (r, v, rsp, Some ctxt1, md2)))"
    by (rule md5db_get_eq [OF inv True]) (rule that)
  show ?thesis
    using get g md_same_store_trans [OF g(1) md_check_value_same]
    by (auto split: option.splits prod.splits)
next
  case False
  then show ?thesis using get by (simp add: md5db_get_def md_same_store_def)
qed

lemma md5db_put_refused:
  assumes run: "md5db_put E user_key val user_version is_dup conn md = (r, ver, Some ctxt, md')" and ve: "ic_is_version_error ctxt"
  shows "md_same_store md md'"
proof -
  obtain r' where pi: "put_inner E user_key val user_version conn is_dup md = (r', ver, Some ctxt, md')"
    using run by (auto simp: md5db_put_def split: prod.splits)
  have g: "user_version \<le> BUCKET_DATA_MAX_VERSION" "\<not> (is_dup \<and> user_version = 0)" "check_user_key user_key"
      "length user_key + length val \<le> MAX_VAL_LEN"
    using pi by (auto simp: put_inner_def split: if_splits)
  obtain nk md1 where tb: "get_inner_tbkey user_key conn md = (nk, md1)" by fastforce
  obtain u where h: "md_hash conn (md_digest E user_key conn md) md1 = (0, item_ctxt_reset\<lparr>ic_user_file_id := u, ic_inner_file_id := u\<rparr>)"
    using md_hash_reset by blast
  have "md' = md1"
    using pi [unfolded put_inner_head [OF g tb h]] ve put_slot_refused [of E conn _ user_key val user_version is_dup]
    by (auto simp: item_ctxt_reset_def split: prod.splits)
  then show ?thesis using get_inner_tbkey_same [OF tb] by simp
qed

definition md_map :: "'d md5db_env \<Rightarrow> 'd md5db \<Rightarrow> (bytes \<rightharpoonup> bytes) \<Rightarrow> bool" where
  "md_map E md s \<longleftrightarrow> (\<forall>k. length k = 16 \<longrightarrow> map_option snd (md_abs E md k) = s k)"

lemma md_map_upd:
  assumes "md_abs_upd E contents md md' k x" "md_map E md s"
  shows "md_inv E contents md'" "md_map E md' (s(k := map_option snd x))"
  using assms by (simp_all add: md_abs_upd_def md_map_def)

lemma md_map_same:
  assumes "md_same_store md md'" "md_inv E contents md \<and> md_map E md s"
  shows "md_inv E contents md' \<and> md_map E md' s"
  using assms md_same_store_abs [OF assms(1)] by (simp add: md_map_def)

lemma md5db_run_inv:
  assumes run: "md5db_run E md0 s0 md s" and inv: "md_inv E contents md0" and s0: "md_map E md0 s0" and md5: "md5_ok E"
  shows "md_inv E contents md \<and> md_map E md s"
  using run
proof (induction rule: md5db_run.induct)
  case start
  then show ?case using inv s0 by simp
next
  case (put md s E' user_key val user_version is_dup conn ver ctxt md')
  note c = env_like_cong [OF put.hyps(2)]
  have "md_put_ok E' contents (md_digest E user_key conn md) user_version is_dup ver (md_stored user_key val conn md) md md'"
    using md5db_put_correct [of E' contents md user_key conn val user_version is_dup ver ctxt md'] put c md5 by simp
  then obtain v where "md_abs_upd E contents md md' (md_digest E user_key conn md) (Some (v, md_stored user_key val conn md))"
    by (auto simp: md_put_ok_def c)
  from md_map_upd [OF this, of s] put.IH show ?case by (simp add: fun_upd_def)
next
  case (refused md s E' user_key val user_version is_dup conn r ver ctxt md')
  then show ?case using md_map_same [OF md5db_put_refused [OF refused.hyps(3,4)]] by blast
next
  case (del md s E' user_key user_version is_dup conn c0 ver ctxt md')
  note c = env_like_cong [OF del.hyps(2)]
  have "md_del_ok E' contents (md_digest E user_key conn md) user_version is_dup ver md md'"
    using md5db_del_correct [of E' contents md user_key user_version is_dup conn c0 ver ctxt md'] del c md5 by simp
  then have "md_abs_upd E contents md md' (md_digest E user_key conn md) None" by (simp add: md_del_ok_def c)
  from md_map_upd [OF this, of s] del.IH show ?case by (simp add: fun_upd_def)
next
  case (get md s E' user_key conn r ver rsp ctxt md')
  note c = env_like_cong [OF get.hyps(2)]
  have "md_inv E' contents md" "md5_ok E'" using get.IH md5 c by simp_all
  from md_map_same [OF md5db_get_same [OF this get.hyps(3,4)]] get.IH show ?case by blast
next
  case (exists md s E' user_key conn r ver md')
  then show ?case using md_map_same [OF md5db_exists_same [OF exists.hyps(3)]] by blast
next
  case (table md s tab ty added conn)
  then show ?case using md_map_same [OF set_inner_same(1)] by blast
next
  case (ttl md s t conn)
  then show ?case using md_map_same [OF set_inner_same(2)] by blast
qed

end
