(* ===== verification/Md5db_Requests.thy ===== *)
theory Md5db_Requests
  imports Md5db_Map
begin

text \<open>
  The theorems about the requests of the engine, with a new engine on which a put, a get
  and a conditional put are run as the concrete instance.
\<close>

section \<open>A new engine\<close>

definition ex_conn :: conn_ctxt_t where
  "ex_conn = \<lparr>worker_id = 0, compress_type = 0\<rparr>"

definition ex_store :: "(bytes \<times> bytes) list kv_leveldb_t" where
  "ex_store = \<lparr>kl_db = Some [], kl_bloom = \<lparr>bf_ptr_len = 0, bf_data = (\<lambda>_. 0), bf_type = MD5_BLOOM_DISABLED\<rparr>,
     kl_bloom_type = MD5_BLOOM_DISABLED\<rparr>"

definition ex_env :: "(bytes \<times> bytes) list md5db_env" where
  "ex_env = \<lparr>e_ldb = alist_db, e_md5 = (\<lambda>x. take 16 (x @ replicate 16 0)), e_contents = (\<lambda>_. content_io_good),
     e_fullkey = ex_io, e_fast = ex_io, e_alloc = True\<rparr>"

definition ex_content :: content2_t where
  "ex_content = the (fst (content2_open [47] 0 open_io_good \<lparr>cd_data = None, cd_fb = None\<rparr>))"

definition ex_db :: "(bytes \<times> bytes) list md5db" where
  "ex_db = \<lparr>md_buckets = (\<lambda>_. zero_file bucket_bytes),
     md_fullkeys = (\<lambda>f. fk_new_file\<lparr>fk_file_id := f, fk_ptr_len := Some (fk_len fk_new_file)\<rparr>),
     md_contents = \<lparr>ca_ok = True, ca_token = 0, ca_contents = [ex_content]\<rparr>,
     md_fast_conflicts = ex_new_fcs, md_conflicts = [ex_store],
     md_data = \<lparr>ka_ok = True, ka_file_count = 1, ka_files = (\<lambda>_. Some ex_store)\<rparr>,
     md_query_ctxts = (\<lambda>_. query_ctxt_reset), md_now = 1000\<rparr>"

lemma ex_content_ok: "ct_inv ex_content" "ct_owns ex_content Map.empty" "ct_fb_max ex_content = 0"
  "ct_data_file_size ex_content = 1024"
  by (rule content2_open_new [of 0]; simp add: ex_content_def)+

lemma ex_db_item: "m_type (md_item ex_db k) = BUCKET_NO_DATA" "md_loc ex_env ex_db k = None"
proof -
  show t: "m_type (md_item ex_db k) = BUCKET_NO_DATA"
    by (simp add: md_item_def ex_db_def get_bucket_def zero_file_def item_zero_bytes)
  show "md_loc ex_env ex_db k = None" by (rule md_loc_empty [OF t])
qed

lemma ex_slow: "length k = 16 \<Longrightarrow> cfa_get (e_ldb ex_env) (e_md5 ex_env) (md_conflicts ex_db) k = (ENOENT, block_id_zero, 0)"
  by (simp add: ex_env_def ex_db_def ex_store_def cfa_get_def get_conflict_def conflict_get_def kv_get_def alist_db_def
      ldb_check_key_def)

lemma ex_index: "md_index_inv ex_env map_of ex_db"
proof (rule md_index_invI)
  have "fullkey_open [47] (int f) None True id True True =
      (Some (fk_new_file\<lparr>fk_file_id := f, fk_ptr_len := Some (fk_len fk_new_file)\<rparr>), Some fk_new_file)" if "f < 256" for f
    using that by (simp add: fullkey_open_def fullkey_create_file_def Let_def fk_new_file_def width_simps)
  from fullkey_new_file_inv [OF this]
  show "\<forall>f<256. fk_inv (md_fullkeys ex_db f) \<and> fk_file_id (md_fullkeys ex_db f) = f" by (simp add: ex_db_def)
  show "fca_inv (md_buckets ex_db) (md_fullkeys ex_db) (md_fast_conflicts ex_db)"
    using ex_new_fcs_file by (simp add: ex_db_def fca_inv_def zero_file_def item_zero_bytes)
  show "cfa_inv (e_ldb ex_env) (e_md5 ex_env) map_of (md_conflicts ex_db)"
    using alist_db_ok by (simp add: cfa_inv_def ex_env_def ex_db_def ex_store_def kv_inv_def)
  show "cfa_answers (e_ldb ex_env) (e_md5 ex_env) (md_conflicts ex_db)" by (simp add: cfa_answers_def ex_slow)
  show "md_slot_ok ex_env ex_db k" if "length k = 16" for k
    using that by (simp add: md_slot_ok_def ex_db_item(1) md_slow_def cfa_look_def ex_slow)
qed (simp add: ex_db_item(2))

lemma ex_db_inv: "md_inv ex_env map_of ex_db" "md_owns ex_env map_of ex_db Map.empty"
proof -
  have "ca_owns (md_contents ex_db) Map.empty" using ex_content_ok by (simp add: ex_db_def ca_owns_def)
  then show "md_owns ex_env map_of ex_db Map.empty" using ex_index by (simp add: md_owns_def ex_db_item(2))
  then show "md_inv ex_env map_of ex_db" by (auto simp: md_inv_def)
qed

lemma ex_hyps: "md5_ok ex_env" "md_io_ok ex_env" "md_read_ok ex_env" "ldb_deletes (e_ldb ex_env)"
  by (simp_all add: md5_ok_def md_io_ok_def md_read_ok_def ldb_deletes_def ex_env_def alist_db_def good_io_ok ex_io_ok min_def)

text \<open>The key \<open>k\<close> with the value \<open>v\<close>, as a client or the binlog writes it.\<close>

abbreviation (input) ex_k :: bytes where "ex_k \<equiv> [107]"
abbreviation (input) ex_v :: bytes where "ex_v \<equiv> [118]"

lemma ex_digest:
  "get_inner_tbkey ex_k ex_conn ex_db = (ex_k, ex_db)"
  "md_digest ex_env ex_k ex_conn ex_db = 107 # replicate 15 0"
  by (simp_all add: get_inner_tbkey_def md_digest_def user_key_to_inner_def md_ctxt_def ex_db_def query_ctxt_reset_def
      ex_env_def)

lemma ex_write_value:
  assumes "length d = 14"
  obtains ca where "ca_write (e_contents ex_env) d (md_contents ex_db) = (Some (0, 1), ca)"
    "md_small (ex_db\<lparr>md_contents := ca\<rparr>)"
proof -
  obtain ct where w: "ct_write content_io_good d ex_content = (True, 1, ct)" and sz: "ct_data_file_size ct = 2048"
    using ex_content_ok(3,4) assms by (simp add: ct_write_def Let_def page_count_def page_tail_def ct_write_inner_def
        use_free_block_def ct_pwrite_full content_io_good_def width_simps trunc_def)
  show thesis
    by (rule that [of "\<lparr>ca_ok = True, ca_token = 1, ca_contents = [ct]\<rparr>"])
      (use w sz in \<open>simp_all add: ex_env_def ex_db_def ca_write_def trunc_def md_small_def ct_pages_def PAGE_def\<close>)
qed

lemma ex_add_data:
  assumes fk: "fk_write (e_fullkey ex_env) k (md_fk ex_db k) = (Some b, fk)" and k: "length k = 16"
    and u: "ic_inner_file_id ctxt = 0"
  obtains ctxt' md' where "add_data ex_env ex_conn k b ex_k ex_v ctxt (md_set_fk k fk ex_db) = (0, ctxt', md')"
    "md_small md'" "md_query_ctxts md' = md_query_ctxts ex_db"
proof -
  let ?md1 = "md_set_fk k fk ex_db" and ?w = "md_raw ex_conn ex_k ex_v ctxt (md_set_fk k fk ex_db)"
  have len: "length ?w = 14" by simp
  obtain ca where ca: "ca_write (e_contents ex_env) ?w (md_contents ex_db) = (Some (0, 1), ca)"
      and sm: "md_small (ex_db\<lparr>md_contents := ca\<rparr>)" by (rule ex_write_value [OF len])
  have io: "grow_io_ok (e_fullkey ex_env)" by (simp add: ex_env_def ex_io_ok)
  note fw = md_fk_write [OF ex_db_inv(2) k io fk]
  let ?c = "content_id_set (trunc 8 0) 1 (trunc 32 (length ?w))"
  obtain ok fk2 where set: "fk_set_content_id b ?c (md_fk ?md1 k) = (ok, fk2)" by fastforce
  have c: "content_id_wf ?c" "content_file_id ?c \<le> 255" "content_data_id ?c \<noteq> 0" "content_data_len ?c \<noteq> 0"
    using content_id_set_fits [of 0 1 "length ?w"] len by simp_all
  have ok by (rule md_set_content(1) [OF md_ownsD(1) [OF fw(1)] fw(2) c set])
  let ?md2 = "md_set_fk k fk2 (?md1\<lparr>md_contents := ca\<rparr>)" and ?ctxt = "ctxt\<lparr>ic_kv_data := md_kv_data ex_conn ex_k ctxt ?md1\<rparr>"
  have fkc: "md_fk (?md1\<lparr>md_contents := ca\<rparr>) k = md_fk ?md1 k" by (simp add: md_fk_def)
  obtain r c2 ka where pu: "put_from_md5db (e_ldb ex_env) (e_md5 ex_env) b (file_of_ctxt ?ctxt) (md_table ex_conn ?md2) []
      (qc_wttl (md_ctxt ?md2 ex_conn)) ?ctxt (md_data ?md2) = (r, c2, ka)" using prod_cases3 by blast
  have r: "r = 0"
    using pu u by (simp add: put_from_md5db_def file_of_ctxt_def ex_db_def ex_store_def ex_env_def ka_key_def md_table_def
        md_ctxt_def query_ctxt_reset_def kv_put_def ldb_check_key_def alist_db_def block_id_bytes_def codec_simps
        split: prod.splits)
  have "add_data ex_env ex_conn k b ex_k ex_v ctxt ?md1 = (r, c2, ?md2\<lparr>md_data := ka\<rparr>)"
    using \<open>ok\<close> ca set pu unfolding add_data_def add_data_to_content_db_def md_value_def Let_def
    by (simp add: fkc ex_env_def) (simp add: ex_db_def)
  moreover have "md_small (?md2\<lparr>md_data := ka\<rparr>)" using sm by (simp add: md_small_def)
  ultimately show thesis using that r by simp
qed

lemma ex_put:
  assumes "if is_dup then 0 < user_version \<and> user_version < 64 else user_version = 0"
  obtains ctxt md' where "md5db_put ex_env ex_k ex_v user_version is_dup ex_conn ex_db =
      (0, if is_dup then user_version else 1, Some ctxt, md')"
    "\<not> ic_is_version_error ctxt" "md_small md'" "md_query_ctxts md' = md_query_ctxts ex_db"
    "m_type (md_item md' (md_digest ex_env ex_k ex_conn ex_db)) = BUCKET_DIRECT_DATA"
proof -
  let ?k = "md_digest ex_env ex_k ex_conn ex_db"
  let ?c = "item_ctxt_reset\<lparr>ic_user_file_id := 0, ic_inner_file_id := 0\<rparr>"
  have k: "length ?k = 16" by (rule md_digest_length [OF ex_hyps(1)])
  have fin: "fk_inv (md_fk ex_db ?k)" by (rule md_index_invD(1) [OF ex_index])
  have h: "md_hash ex_conn ?k ex_db = (0, ?c)"
    by (simp add: md_hash_def md_ctxt_def hash_with_md5db_def ex_db_def query_ctxt_reset_def)
  have "fk_alloc_item (e_fullkey ex_env) (md_fk ex_db ?k) = (Some 1, (md_fk ex_db ?k)\<lparr>fk_count := 1\<rparr>)"
    by (simp add: fk_alloc_item_def ex_db_def ex_env_def ex_io_def md_fk_def get_fullkey_def fk_new_file_def fk_bump_def
        fk_get_max_def trunc_def width_simps)
  from fk_write_eq [OF fin _ k this] ex_hyps(2)
  obtain b fk where wr: "fk_write (e_fullkey ex_env) ?k (md_fk ex_db ?k) = (Some b, fk)" by (auto simp: md_io_ok_def)
  obtain c1 md1 where ad: "add_data ex_env ex_conn ?k b ex_k ex_v ?c (md_set_fk ?k fk ex_db) = (0, c1, md1)"
      and sm: "md_small md1" "md_query_ctxts md1 = md_query_ctxts ex_db"
    by (rule ex_add_data [OF wr k, of ?c]) simp
  let ?v = "if is_dup then user_version else 1"
  let ?it = "set_version ?v (set_type BUCKET_DIRECT_DATA ((md_item md1 ?k)\<lparr>m_block_id := b\<rparr>))"
  have g: "\<not> (\<not> is_dup \<and> user_version \<noteq> 0)" "(if \<not> is_dup then 1 else user_version) = ?v" "version ?it = ?v" "?v \<noteq> 0"
    using assms by (auto split: if_splits)
  have "new_data ex_env ex_conn ?k ex_k ex_v user_version is_dup ?c ex_db = (0, ?v, c1, md_set_item ?k ?it md1)"
    unfolding new_data_def if_not_P [OF g(1)] wr prod.case option.case ad Let_def g(2) g(3) by simp
  then have "put_slot ex_env ex_conn ?k ex_k ex_v user_version is_dup ?c ex_db =
      (0, ?v, c1\<lparr>ic_kv_type := NEW_KV\<rparr>, md_set_item ?k ?it md1)"
    using g(4) by (simp add: put_slot_def ex_db_item(1) put_result_def)
  moreover have "put_inner ex_env ex_k ex_v user_version ex_conn is_dup ex_db =
    (case put_slot ex_env ex_conn ?k ex_k ex_v user_version is_dup ?c ex_db of
       (r, ver, ctxt', md') \<Rightarrow> (r, ver, Some ctxt', md'))"
    by (rule put_inner_head [OF _ _ _ _ ex_digest(1) h])
      (use assms in \<open>auto simp: BUCKET_DATA_MAX_VERSION_def check_user_key_def width_simps split: if_splits\<close>)
  ultimately have "md5db_put ex_env ex_k ex_v user_version is_dup ex_conn ex_db =
      (0, ?v, Some (c1\<lparr>ic_kv_type := NEW_KV\<rparr>), md_set_item ?k ?it md1)" by (simp add: md5db_put_def)
  then show thesis
    by (rule that) (use add_data_ctxt [OF ad] sm md_small_cong [of "md_set_item ?k ?it md1" md1] in
      \<open>simp_all add: item_ctxt_reset_def md_item_set set_type_def trunc_def\<close>)
qed

text \<open>A second put of the key replaces the value in place.\<close>

lemma ex_set_data:
  assumes own: "md_owns ex_env map_of md m" and k: "length k = 16" and l: "md_loc ex_env md k = Some (b, v)"
    and ab: "md_abs ex_env md k = Some (v, e)" "length e = 14" and sm: "md_small md"
  obtains ctxt' md' where "set_data ex_env ex_conn k b ex_k ex_v ctxt md = (0, ctxt', md')"
    "md_small md'" "md_query_ctxts md' = md_query_ctxts md"
proof -
  let ?w = "md_raw ex_conn ex_k ex_v ctxt md"
  note inv = md_ownsD(1) [OF own]
  obtain e' where e': "md_stores md m k b e'" using md_ownsD(3) [OF own k l] by blast
  have "e' = e" using md_abs_eq(2) [OF own k l e'] ab by simp
  then obtain c where c: "fk_get_content_id (md_fk md k) b = Some c" "m (content_file_id c, content_data_id c) = Some e"
      "content_data_len c = 14" using e' ab(2) by (auto simp: md_stores_def)
  let ?f = "content_file_id c" and ?p = "content_data_id c"
  note cv = ca_owns_value [OF md_ownsD(2) [OF own] c(2)]
  have ok: "ca_ok (md_contents md)" using md_ownsD(2) [OF own] by (simp add: ca_owns_def)
  have "ct_pages (ca_contents (md_contents md) ! ?f) \<le> 268435456" "length (ca_contents (md_contents md)) \<le> 256"
    using sm cv(1) by (auto simp: md_small_def)
  then have fp: "?f < 256" "?p < 268435456" "?p \<noteq> 0" using cv(1,2) by auto
  obtain ct where u: "ct_update content_io_good ?p 14 ?w (ca_contents (md_contents md) ! ?f) = (True, ?p, ct)"
      and sz: "ct_data_file_size ct = ct_data_file_size (ca_contents (md_contents md) ! ?f)"
    by (simp add: ct_update_def Let_def page_count_def PAGE_def ct_pwrite_full content_io_good_def)
  define ca where "ca = (md_contents md)\<lparr>ca_contents := (ca_contents (md_contents md))[?f := ct]\<rparr>"
  have up: "ca_update (e_contents ex_env) ?f ?p 14 ?w (md_contents md) = (True, ?p, ca)"
    using u ok cv(1) by (simp add: ca_update_def ca_def ex_env_def)
  let ?c = "content_id_set ?f ?p (trunc 32 (length ?w))"
  have t8: "trunc 8 ?f = ?f" using fp(1) by (simp add: trunc_def)
  note ci = content_id_set_fits [OF fp(1,2), of "length ?w", unfolded t8]
  obtain ok2 fk where set: "fk_set_content_id b ?c (md_fk md k) = (ok2, fk)" by fastforce
  have ok2 by (rule md_set_content(1) [OF inv md_loc_names(1) [OF inv k l] _ _ _ _ set]) (use ci fp in simp_all)
  let ?md2 = "md_set_fk k fk (md\<lparr>md_contents := ca\<rparr>)"
  have fk': "md_fk (md\<lparr>md_contents := ca\<rparr>) k = md_fk md k" by (simp add: md_fk_def)
  have "set_data ex_env ex_conn k b ex_k ex_v ctxt md = (0, ctxt\<lparr>ic_kv_data := md_kv_data ex_conn ex_k ctxt md\<rparr>, ?md2)"
    unfolding set_data_def set_data_to_content_db_def md_value_def Let_def
    using ok c(1,3) up set \<open>ok2\<close> by (simp add: fk') (simp add: ex_env_def)
  moreover have "md_small ?md2"
    using sm sz nth_mem [OF cv(1)] by (auto simp: md_small_def ca_def ct_pages_def dest!: subsetD [OF set_update_subset_insert])
  ultimately show thesis using that by simp
qed

lemma ex_run_hyps:
  "md_abs ex_env ex_db k = None" "card (md_slot_keys ex_env ex_db k) < 63" "env_like ex_env ex_env" "check_user_key ex_k"
  "compress_type ex_conn < 4" "qc_wttl (md_ctxt ex_db ex_conn) < 4294967296"
proof -
  show "md_abs ex_env ex_db k = None" "card (md_slot_keys ex_env ex_db k) < 63"
    by (simp_all add: md_abs_def ex_db_item(2) md_slot_keys_def)
qed (simp_all add: env_like_def check_user_key_def width_simps ex_conn_def ex_db_def md_ctxt_def query_ctxt_reset_def)

lemma ex_digest_same:
  "md_query_ctxts md = md_query_ctxts ex_db \<Longrightarrow> md_digest ex_env ex_k ex_conn md = 107 # replicate 15 0"
  by (simp add: get_inner_tbkey_def md_digest_def user_key_to_inner_def md_ctxt_def ex_db_def query_ctxt_reset_def ex_env_def)

lemma ex_after_put:
  assumes "if is_dup then 0 < user_version \<and> user_version < 64 else user_version = 0"
  obtains ctxt md where "md5db_put ex_env ex_k ex_v user_version is_dup ex_conn ex_db =
      (0, if is_dup then user_version else 1, Some ctxt, md)"
    "\<not> ic_is_version_error ctxt" "md_small md" "md_query_ctxts md = md_query_ctxts ex_db" "md_inv ex_env map_of md"
    "md_abs ex_env md (md_digest ex_env ex_k ex_conn md) =
       Some (if is_dup then user_version else 1, md_stored ex_k ex_v ex_conn ex_db)"
    "md_digest ex_env ex_k ex_conn md = md_digest ex_env ex_k ex_conn ex_db"
    "m_type (md_item md (md_digest ex_env ex_k ex_conn md)) = BUCKET_DIRECT_DATA"
proof -
  let ?v = "if is_dup then user_version else 1"
  obtain c md where p: "md5db_put ex_env ex_k ex_v user_version is_dup ex_conn ex_db = (0, ?v, Some c, md)" "\<not> ic_is_version_error c"
      "md_small md" "md_query_ctxts md = md_query_ctxts ex_db"
      "m_type (md_item md (md_digest ex_env ex_k ex_conn ex_db)) = BUCKET_DIRECT_DATA"
    by (rule ex_put [OF assms]) (rule that)
  have d: "md_digest ex_env ex_k ex_conn md = md_digest ex_env ex_k ex_conn ex_db"
    unfolding ex_digest_same [OF p(4)] ex_digest(2) ..
  have "stored_version ?v = ?v" using assms by (simp split: if_splits)
  moreover have "md_put_ok ex_env map_of (md_digest ex_env ex_k ex_conn ex_db) user_version is_dup ?v (md_stored ex_k ex_v ex_conn ex_db)
      ex_db md"
    by (rule md5db_put_correct [OF ex_db_inv(1) ex_hyps(1,2) ex_run_hyps(2) p(1-3)])
  ultimately have "md_inv ex_env map_of md" "md_abs ex_env md (md_digest ex_env ex_k ex_conn md) =
       Some (?v, md_stored ex_k ex_v ex_conn ex_db)" unfolding d md_put_ok_def md_abs_upd_def by auto
  then show thesis by (rule that [OF p(1-4) _ _ d]) (use d p(5) in simp)
qed

lemma ex_second_put:
  assumes inv: "md_inv ex_env map_of md" and ab: "md_abs ex_env md (md_digest ex_env ex_k ex_conn md) = Some (v, e)" "length e = 14"
    and t: "m_type (md_item md (md_digest ex_env ex_k ex_conn md)) = BUCKET_DIRECT_DATA"
    and sm: "md_small md" and q: "md_query_ctxts md = md_query_ctxts ex_db"
  obtains ctxt md' where "md5db_put ex_env ex_k ex_v 0 False ex_conn md = (0, add_version v, Some ctxt, md')"
    "\<not> ic_is_version_error ctxt" "md_small md'" "md_query_ctxts md' = md_query_ctxts ex_db"
    "card (md_slot_keys ex_env md (md_digest ex_env ex_k ex_conn md)) < 63"
proof -
  let ?k = "md_digest ex_env ex_k ex_conn md"
  have k: "length ?k = 16" by (rule md_digest_length [OF ex_hyps(1)])
  obtain m where own: "md_owns ex_env map_of md m" using inv by (auto simp: md_inv_def)
  obtain b where l: "md_loc ex_env md ?k = Some (b, v)" using ab(1) by (auto simp: md_abs_def split: option.splits)
  obtain u where h: "md_hash ex_conn ?k md = (0, item_ctxt_reset\<lparr>ic_user_file_id := u, ic_inner_file_id := u\<rparr>)"
    using md_hash_reset by blast
  have tb: "get_inner_tbkey ex_k ex_conn md = (ex_k, md)"
    by (simp add: get_inner_tbkey_def md_ctxt_def q ex_db_def query_ctxt_reset_def)
  let ?c = "item_ctxt_reset\<lparr>ic_user_file_id := u, ic_inner_file_id := u\<rparr>"
  obtain c1 md1 where sd: "set_data ex_env ex_conn ?k b ex_k ex_v ?c md = (0, c1, md1)"
      and sm1: "md_small md1" "md_query_ctxts md1 = md_query_ctxts md"
    by (rule ex_set_data [OF own k l ab sm])
  note r = md_set_record [OF own k l ex_hyps(2) _ sd sm1(1)]
  have it: "md_item md1 ?k = md_item md ?k" by (rule r(5)) (simp add: width_simps)
  have same: "check_same_key ?k (m_block_id (md_item md ?k)) md = 0" and b: "b = m_block_id (md_item md ?k)" "v = version (md_item md ?k)"
    using check_same_key_eq [OF k t] l by auto
  let ?md2 = "md_set_item ?k (set_version (add_version v) (md_item md ?k)) md1"
  have nz: "add_version v \<noteq> 0" by (simp add: add_version_def)
  have "put_slot ex_env ex_conn ?k ex_k ex_v 0 False ?c md = (0, add_version v, c1, ?md2)"
    using t same sd nz unfolding put_slot_def put_direct_def Let_def b(1) [symmetric] by (simp add: it b(2))
  moreover have "put_inner ex_env ex_k ex_v 0 ex_conn False md =
    (case put_slot ex_env ex_conn ?k ex_k ex_v 0 False ?c md of (r, ver, ctxt', md') \<Rightarrow> (r, ver, Some ctxt', md'))"
    by (rule put_inner_head [OF _ _ _ _ tb h]) (simp_all add: check_user_key_def width_simps)
  ultimately have p: "md5db_put ex_env ex_k ex_v 0 False ex_conn md = (0, add_version v, Some c1, ?md2)"
    by (simp add: md5db_put_def)
  obtain k1 where "\<forall>k'. length k' = 16 \<and> same_slot k' ?k \<longrightarrow> md_loc ex_env md k' =
      (if k' = k1 then Some (m_block_id (md_item md ?k), version (md_item md ?k)) else None)"
    by (rule md_direct [OF md_ownsD(1) [OF own] k t]) (rule that)
  then have "md_slot_keys ex_env md ?k \<subseteq> {k1}" by (auto simp: md_slot_keys_def split: if_splits)
  from card_mono [OF _ this] have "card (md_slot_keys ex_env md ?k) < 63" by simp
  then show thesis
    by (rule that [OF p, rotated 3]) (use set_data_ctxt [OF sd] sm1 q md_small_cong [of ?md2 md1] in \<open>simp_all add: item_ctxt_reset_def\<close>)
qed

section \<open>Properties\<close>

lemma md5db_get_stored:
  assumes inv: "md_inv E contents md" "md5_ok E" "md_read_ok E" and uk: "check_user_key user_key"
    and ab: "md_abs E md (md_digest E user_key conn md) = Some (v, val @ user_key @ kv_data_bytes kd)"
    and kd: "kv_data_wf kd" "kd_user_key_len kd = length user_key"
  obtains ctxt md' where "md5db_get E user_key conn md = (0, v, Some val, Some ctxt, md')" "md_same_store md md'"
    "ic_kv_data ctxt = kd" "get_inner_ttl conn md' = kd_ttl kd"
proof -
  obtain c md1 where g: "md_same_store md md1" "md5db_get E user_key conn md =
      (case md_abs E md (md_digest E user_key conn md) of
         None \<Rightarrow> (ENOENT, 0, None, Some c, md1)
       | Some (v, w) \<Rightarrow> (case md_check_value conn user_key w c md1 of
           (r, rsp, ctxt1, md2) \<Rightarrow> (r, v, rsp, Some ctxt1, md2)))"
    by (rule md5db_get_eq [OF inv uk]) (rule that)
  have ne: "user_key \<noteq> []" using uk by (auto simp: check_user_key_def)
  note cv = md_check_value_ok [OF kd ne, of conn val c md1]
  show thesis
  proof (rule that)
    show "md5db_get E user_key conn md = (0, v, Some val, Some (c\<lparr>ic_kv_data := kd\<rparr>),
        md_upd_ctxt conn ((md_ctxt md1 conn)\<lparr>qc_rttl := kd_ttl kd\<rparr>) md1)" using g(2) ab cv by simp
    show "md_same_store md (md_upd_ctxt conn ((md_ctxt md1 conn)\<lparr>qc_rttl := kd_ttl kd\<rparr>) md1)"
      by (rule md_same_store_trans [OF g(1) md_check_value_same [OF cv]])
  qed (simp_all add: get_inner_ttl_def md_ctxt_def md_upd_ctxt_def)
qed

lemma md5db_get_absent:
  assumes inv: "md_inv E contents md" "md5_ok E" "md_read_ok E" and uk: "check_user_key user_key"
    and ab: "md_abs E md (md_digest E user_key conn md) = None"
  shows "\<exists>ctxt md'. md5db_get E user_key conn md = (ENOENT, 0, None, Some ctxt, md')"
proof (rule md5db_get_eq [OF inv uk])
  fix c md1
  assume "md5db_get E user_key conn md =
      (case md_abs E md (md_digest E user_key conn md) of
         None \<Rightarrow> (ENOENT, 0, None, Some c, md1)
       | Some (v, w) \<Rightarrow> (case md_check_value conn user_key w c md1 of
           (r, rsp, ctxt1, md2) \<Rightarrow> (r, v, rsp, Some ctxt1, md2)))"
  then show ?thesis unfolding ab by simp
qed

lemma md_descriptor_wf:
  assumes "check_user_key user_key" "compress_type conn < 4" "qc_wttl (md_ctxt md conn) < 4294967296"
  shows "kv_data_wf (md_descriptor user_key conn md)" "kd_user_key_len (md_descriptor user_key conn md) = length user_key"
  using assms by (simp_all add: kv_data_wf_def md_descriptor_def check_user_key_def MAX_KEY_LEN_def trunc_def)



text \<open>C4. A get after a put answers what was put: the value, the version the put returned, and the
  expiry time, as long as the version is below 64. The get may come from another connection, with
  other outcomes of the file operations.\<close>

theorem md5db_put_then_get:
  assumes "md_inv E contents md" and "md5_ok E" and "md_io_ok E"
    and "card (md_slot_keys E md (md_digest E user_key conn md)) < 63"
    and "compress_type conn < 4" and "qc_wttl (md_ctxt md conn) < 4294967296"
    and "md5db_put E user_key val user_version is_dup conn md = (0, ver, Some ctxt, md1)"
    and "\<not> ic_is_version_error ctxt" and "md_small md1" and "ver < 64"
    and "env_like E E'" and "md_read_ok E'"
    and "md_digest E user_key conn' md1 = md_digest E user_key conn md"
  shows "\<exists>ctxt' md2. md5db_get E' user_key conn' md1 = (0, ver, Some val, Some ctxt', md2)
    \<and> ic_kv_data ctxt' = md_descriptor user_key conn md
    \<and> get_inner_ttl conn' md2 = qc_wttl (md_ctxt md conn) \<and> md_same_store md1 md2"
proof -
  note c = env_like_cong [OF assms(11)]
  have uk: "check_user_key user_key" by (rule md5db_put_head [OF assms(7,8)])
  have "md_put_ok E contents (md_digest E user_key conn md) user_version is_dup ver (md_stored user_key val conn md) md md1"
    by (rule md5db_put_correct [OF assms(1-4,7-9)])
  then have i: "md_inv E' contents md1" "md5_ok E'"
      and ab: "md_abs E' md1 (md_digest E' user_key conn' md1) = Some (ver, md_stored user_key val conn md)"
    using assms(2,10,13) by (auto simp: md_put_ok_def md_abs_upd_def c)
  note wf = md_descriptor_wf [OF uk assms(5,6)]
  show ?thesis
    by (rule md5db_get_stored [OF i assms(12) uk ab [unfolded md_stored_def] wf]) (auto simp: md_descriptor_def)
qed

theorem md5db_put_then_get_witness:
  "\<exists>ctxt md1 ctxt' md2. md5db_put ex_env ex_k ex_v 0 False ex_conn ex_db = (0, 1, Some ctxt, md1)
     \<and> md5db_get ex_env ex_k ex_conn md1 = (0, 1, Some ex_v, Some ctxt', md2)"
proof -
  obtain c md where p: "md5db_put ex_env ex_k ex_v 0 False ex_conn ex_db = (0, 1, Some c, md)" "\<not> ic_is_version_error c"
      "md_small md" "md_query_ctxts md = md_query_ctxts ex_db"
    by (rule ex_put [of False 0]) simp_all
  have "md_digest ex_env ex_k ex_conn md = md_digest ex_env ex_k ex_conn ex_db"
    unfolding ex_digest_same [OF p(4)] ex_digest(2) ..
  from md5db_put_then_get [OF ex_db_inv(1) ex_hyps(1,2) ex_run_hyps(2,5,6) p(1-3) _ ex_run_hyps(3) ex_hyps(3) this] p(1)
  show ?thesis by auto
qed

lemma md_check_value_parts:
  assumes "md_check_value conn user_key w ctxt md = (0, Some val, ctxt', md')"
  obtains d where "w = val @ user_key @ d" "length d = 12" "kd_user_key_len (kv_data_of_bytes d) = length user_key"
proof -
  let ?n = "length user_key" and ?d = "drop (length w - 12) w"
  have p: "length w \<ge> 12 + ?n" "take ?n (drop (length w - 12 - ?n) w) = user_key" "val = take (length w - 12 - ?n) w"
    "kd_user_key_len (kv_data_of_bytes ?d) = ?n"
    using assms by (auto simp: md_check_value_def Let_def split: if_splits)
  have "w = take (length w - 12 - ?n) w @ take ?n (drop (length w - 12 - ?n) w) @ drop ?n (drop (length w - 12 - ?n) w)"
    by (simp only: append_take_drop_id)
  moreover have "drop ?n (drop (length w - 12 - ?n) w) = ?d" using p(1) by simp
  ultimately show thesis using that [of ?d] p by simp
qed

text \<open>C5. A get never answers with the value of another key. The two keys may even have the same
  digest: the bytes read from the value file are the answered value followed by the key that was
  asked for, and the version is the one the index has for the digest.\<close>

theorem md5db_get_own_value:
  assumes "md_inv E contents md" and "md5_ok E" and "md_read_ok E"
    and "md5db_get E user_key conn md = (0, ver, Some val, ctxt, md')"
  shows "\<exists>d. md_abs E md (md_digest E user_key conn md) = Some (ver, val @ user_key @ d) \<and> length d = 12
    \<and> kd_user_key_len (kv_data_of_bytes d) = length user_key"
proof -
  have uk: "check_user_key user_key"
    using assms(4) by (cases "check_user_key user_key") (simp_all add: md5db_get_def)
  show ?thesis
  proof (rule md5db_get_eq [OF assms(1-3) uk])
    fix c md1
    assume g: "md5db_get E user_key conn md =
        (case md_abs E md (md_digest E user_key conn md) of
           None \<Rightarrow> (ENOENT, 0, None, Some c, md1)
         | Some (v, w) \<Rightarrow> (case md_check_value conn user_key w c md1 of
             (r, rsp, ctxt1, md2) \<Rightarrow> (r, v, rsp, Some ctxt1, md2)))"
    obtain w where w: "md_abs E md (md_digest E user_key conn md) = Some (ver, w)"
        and cv: "\<exists>c' md2. md_check_value conn user_key w c md1 = (0, Some val, c', md2)"
      using g assms(4) by (auto split: option.splits prod.splits)
    from cv obtain c' md2 where cv': "md_check_value conn user_key w c md1 = (0, Some val, c', md2)" by blast
    show ?thesis by (rule md_check_value_parts [OF cv']) (use w in auto)
  qed
qed

theorem md5db_get_own_value_witness:
  "\<exists>md ctxt md' d. md5db_get ex_env ex_k ex_conn md = (0, 1, Some ex_v, Some ctxt, md')
     \<and> md_abs ex_env md (md_digest ex_env ex_k ex_conn md) = Some (1, ex_v @ ex_k @ d)
     \<and> kd_user_key_len (kv_data_of_bytes d) = 1"
proof -
  obtain c md where p: "md_inv ex_env map_of md" "md_abs ex_env md (md_digest ex_env ex_k ex_conn md) =
      Some (1, ex_v @ ex_k @ kv_data_bytes (md_descriptor ex_k ex_conn ex_db))"
    by (rule ex_after_put [of False 0]) (simp_all add: md_stored_def)
  obtain c' md' where g: "md5db_get ex_env ex_k ex_conn md = (0, 1, Some ex_v, Some c', md')"
    by (rule md5db_get_stored [OF p(1) ex_hyps(1,3) ex_run_hyps(4) p(2) md_descriptor_wf [OF ex_run_hyps(4-6)]]) (rule that)
  from md5db_get_own_value [OF p(1) ex_hyps(1,3) g] g show ?thesis by auto
qed

text \<open>C6. A put with a wrong version changes nothing. When the version the client names is not the
  version of the key, the put answers \<open>EINVAL\<close> and the version of the key; a request of the binlog
  that is older than the key answers 0. In both cases all files stay as they are.\<close>

theorem md5db_version_checked:
  assumes "md_inv E contents md" and "md5_ok E" and "check_user_key user_key"
    and "length user_key + length val \<le> MAX_VAL_LEN" and "user_version \<le> BUCKET_DATA_MAX_VERSION"
    and "md_abs E md (md_digest E user_key conn md) = Some (w, x)"
    and "user_version \<noteq> 0" and "if is_dup then \<not> binlog_version_valid user_version w else user_version \<noteq> w"
  shows "\<exists>ctxt md'. md5db_put E user_key val user_version is_dup conn md
      = (if is_dup then 0 else EINVAL, w, Some ctxt, md')
    \<and> ic_is_version_error ctxt \<and> md_same_store md md'"
  by (rule md5db_put_mismatch [OF assms(1-6), of is_dup]) (use assms(7,8) in \<open>auto simp: version_refused_def\<close>)

theorem md5db_version_checked_witness:
  "\<exists>md ctxt md'. md5db_put ex_env ex_k ex_v 5 False ex_conn md = (EINVAL, 1, Some ctxt, md') \<and> md_same_store md md'"
proof -
  obtain c md where p: "md_inv ex_env map_of md" "md_abs ex_env md (md_digest ex_env ex_k ex_conn md) =
      Some (1, md_stored ex_k ex_v ex_conn ex_db)"
    by (rule ex_after_put [of False 0]) simp_all
  from md5db_version_checked [OF p(1) ex_hyps(1) ex_run_hyps(4) _ _ p(2), of ex_v 5 False]
  show ?thesis by (auto simp: width_simps BUCKET_DATA_MAX_VERSION_def)
qed

text \<open>C30. The version a put returns need not be accepted. A put that takes a key from version 63 to
  64 answers 64, but the key then has version 80; a client that sends the 64 back with its next
  update is refused with \<open>EINVAL\<close>.\<close>

theorem md5db_returned_version_refused:
  assumes "md_inv E contents md" and "md5_ok E" and "md_io_ok E"
    and "card (md_slot_keys E md (md_digest E user_key conn md)) < 63"
    and "md5db_put E user_key val user_version False conn md = (0, 64, Some ctxt, md1)"
    and "\<not> ic_is_version_error ctxt" and "md_small md1"
    and "env_like E E'" and "md_digest E user_key conn' md1 = md_digest E user_key conn md"
    and "length user_key + length val' \<le> MAX_VAL_LEN"
  shows "\<exists>ctxt' md2. md5db_put E' user_key val' 64 False conn' md1 = (EINVAL, 80, Some ctxt', md2)
    \<and> md_same_store md1 md2"
proof -
  note c = env_like_cong [OF assms(8)]
  have uk: "check_user_key user_key" by (rule md5db_put_head [OF assms(5,6)])
  have v: "stored_version 64 = 80" by (simp add: stored_version_def version_set_version del: version_set_version_stored)
  have "md_put_ok E contents (md_digest E user_key conn md) user_version False 64 (md_stored user_key val conn md) md md1"
    by (rule md5db_put_correct [OF assms(1-7)])
  then have i: "md_inv E' contents md1" "md5_ok E'"
      and ab: "md_abs E' md1 (md_digest E' user_key conn' md1) = Some (80, md_stored user_key val conn md)"
    using assms(2,9) v by (auto simp: md_put_ok_def md_abs_upd_def c)
  show ?thesis
    by (rule md5db_put_mismatch [OF i uk assms(10) _ ab, of 64 False])
      (auto simp: version_refused_def BUCKET_DATA_MAX_VERSION_def)
qed

theorem md5db_returned_version_refused_witness:
  "\<exists>md ctxt md1 ctxt' md2. md5db_put ex_env ex_k ex_v 0 False ex_conn md = (0, 64, Some ctxt, md1)
     \<and> md5db_put ex_env ex_k ex_v 64 False ex_conn md1 = (EINVAL, 80, Some ctxt', md2)"
proof -
  obtain md where p: "md_small md" "md_query_ctxts md = md_query_ctxts ex_db" "md_inv ex_env map_of md"
      "md_abs ex_env md (md_digest ex_env ex_k ex_conn md) = Some (63, md_stored ex_k ex_v ex_conn ex_db)"
      "m_type (md_item md (md_digest ex_env ex_k ex_conn md)) = BUCKET_DIRECT_DATA"
    by (rule ex_after_put [of True 63]) simp_all
  have len: "length (md_stored ex_k ex_v ex_conn ex_db) = 14" by (simp add: md_stored_def)
  have v: "add_version 63 = 64" by (simp add: add_version_def BUCKET_DATA_MAX_VERSION_def)
  obtain c md1 where r: "md5db_put ex_env ex_k ex_v 0 False ex_conn md = (0, 64, Some c, md1)" "\<not> ic_is_version_error c"
      "md_small md1" "md_query_ctxts md1 = md_query_ctxts ex_db"
      "card (md_slot_keys ex_env md (md_digest ex_env ex_k ex_conn md)) < 63"
    by (rule ex_second_put [OF p(3,4) len p(5,1,2), unfolded v]) (rule that)
  have d: "md_digest ex_env ex_k ex_conn md1 = md_digest ex_env ex_k ex_conn md"
    unfolding ex_digest_same [OF r(4)] ex_digest_same [OF p(2)] ..
  from md5db_returned_version_refused [OF p(3) ex_hyps(1,2) r(5,1,2,3) ex_run_hyps(3) d, of ex_v]
  obtain c' md2 where "md5db_put ex_env ex_k ex_v 64 False ex_conn md1 = (EINVAL, 80, Some c', md2)"
    by (auto simp: width_simps)
  with r(1) show ?thesis by blast
qed

end
