(* ===== verification/Hustmq.thy ===== *)
theory Hustmq
  imports Hust_Prelude "HOL-Library.AList" "HOL-Library.List_Lexorder"
begin

text \<open>
  The message queues of \<open>module/hustdb.cpp\<close> (\<open>hustmq_put\<close> to \<open>hustmq_sub\<close>). A queue has an
  entry in the queue index file with three pairs of cyclic positions, one per priority,
  and an in-memory record of the messages delivered but not acknowledged. The messages
  themselves are stored in the key-value engine under \<open>queue|priority:position\<close>.

  The engine is a parameter here: the three calls the queues make on it. Locks are not
  modelled, every operation of the source holds the lock of its queue throughout. Times
  are the seconds of \<open>m_current_timestamp\<close>; an offset into the index file is the number of
  its entry.
\<close>

section \<open>The storage interface\<close>

text \<open>
  \<open>put\<close> takes the key, the value and the expiry time set before the call, \<open>get\<close> delivers the
  value and the expiry time of the item.
\<close>

record 's storage =
  st_put :: "bytes \<Rightarrow> bytes \<Rightarrow> nat \<Rightarrow> 's \<Rightarrow> errno \<times> 's"
  st_get :: "bytes \<Rightarrow> 's \<Rightarrow> errno \<times> bytes \<times> nat"
  st_del :: "bytes \<Rightarrow> 's \<Rightarrow> errno \<times> 's"

section \<open>Queue names and message keys\<close>

abbreviation (input) QUEUE_TB :: nat where "QUEUE_TB \<equiv> 0"
abbreviation (input) PUSHQ_TB :: nat where "PUSHQ_TB \<equiv> 1"
abbreviation (input) COMMON_TB :: nat where "COMMON_TB \<equiv> 4"

definition MAX_QUEUE_NAME_LEN :: nat where
  [width_simps]: "MAX_QUEUE_NAME_LEN = 64"

definition MAX_QKEY_LEN :: nat where
  [width_simps]: "MAX_QKEY_LEN = 80"

definition MIN_WORKER_LEN :: nat where
  [width_simps]: "MIN_WORKER_LEN = 4"

definition MAX_WORKER_LEN :: nat where
  [width_simps]: "MAX_WORKER_LEN = 32"

definition WORKER_TIMEOUT :: int where
  [width_simps]: "WORKER_TIMEOUT = 512"

definition MAX_QUEUE_ITEM_NUM :: nat where
  [width_simps]: "MAX_QUEUE_ITEM_NUM = 5000000"

definition CYCLE_QUEUE_ITEM_NUM :: nat where
  [width_simps]: "CYCLE_QUEUE_ITEM_NUM = 11000000"

definition tb_name_char :: "byte \<Rightarrow> bool" where
  "tb_name_char c \<longleftrightarrow>
     \<not> (\<not> (c \<ge> 0x30 \<and> c \<le> 0x39) \<and> (\<not> (c \<ge> 0x61 \<and> c \<le> 0x7A) \<and> \<not> (c \<ge> 0x41 \<and> c \<le> 0x5A))
        \<and> c \<noteq> 0x5F \<and> c \<noteq> 0x3A \<and> c \<noteq> 0x2E)"

definition tb_name_check :: "bytes \<Rightarrow> bool" where
  "tb_name_check name =
     (if length name = 0 \<or> length name > MAX_QUEUE_NAME_LEN then False
      else list_all tb_name_char name)"

text \<open>The conversions \<open>%u\<close> and \<open>%s|%u:%u\<close> of \<open>sprintf\<close>.\<close>

fun dec :: "nat \<Rightarrow> bytes" where
  "dec n = (if n < 10 then [byte_of (0x30 + n)] else dec (n div 10) @ [byte_of (0x30 + n mod 10)])"

declare dec.simps [simp del]

definition message_token :: "nat \<Rightarrow> nat \<Rightarrow> bytes" where
  "message_token priori tag = dec priori @ [0x3A] @ dec tag"

definition message_key :: "bytes \<Rightarrow> bytes \<Rightarrow> bytes" where
  "message_key queue token = queue @ [0x7C] @ token"

section \<open>The queue index\<close>

record queue_stat_t =
  q_sp :: nat
  q_ep :: nat
  q_sp1 :: nat
  q_ep1 :: nat
  q_sp2 :: nat
  q_ep2 :: nat
  q_flag :: nat
  q_lock :: nat
  q_type :: nat
  q_timeout :: nat
  q_max :: nat
  q_ctime :: nat
  q_name :: bytes

definition queue_stat_zero :: queue_stat_t where
  "queue_stat_zero =
     \<lparr>q_sp = 0, q_ep = 0, q_sp1 = 0, q_ep1 = 0, q_sp2 = 0, q_ep2 = 0, q_flag = 0, q_lock = 0,
      q_type = 0, q_timeout = 0, q_max = 0, q_ctime = 0, q_name = []\<rparr>"

text \<open>The six positions read and written as the array of words the code indexes.\<close>

definition q_word :: "queue_stat_t \<Rightarrow> nat \<Rightarrow> nat" where
  "q_word st n =
     (if n = 0 then q_sp st else if n = 1 then q_ep st else if n = 2 then q_sp1 st
      else if n = 3 then q_ep1 st else if n = 4 then q_sp2 st else q_ep2 st)"

definition q_set_word :: "nat \<Rightarrow> nat \<Rightarrow> queue_stat_t \<Rightarrow> queue_stat_t" where
  "q_set_word n v st =
     (if n = 0 then st\<lparr>q_sp := v\<rparr> else if n = 1 then st\<lparr>q_ep := v\<rparr> else if n = 2 then st\<lparr>q_sp1 := v\<rparr>
      else if n = 3 then st\<lparr>q_ep1 := v\<rparr> else if n = 4 then st\<lparr>q_sp2 := v\<rparr> else st\<lparr>q_ep2 := v\<rparr>)"

definition clac_real_item :: "nat \<Rightarrow> nat \<Rightarrow> nat" where
  "clac_real_item start end' =
     (if start \<le> end' then end' - start
      else if start > end' \<and> start > MAX_QUEUE_ITEM_NUM
      then (CYCLE_QUEUE_ITEM_NUM + UINT32_MOD - start + end') mod UINT32_MOD
      else 0)"

text \<open>The sum over the three priorities, as \<open>uint32_t\<close>.\<close>

definition q_real :: "queue_stat_t \<Rightarrow> nat" where
  "q_real st =
     trunc 32 (clac_real_item (q_sp st) (q_ep st) + clac_real_item (q_sp1 st) (q_ep1 st)
       + clac_real_item (q_sp2 st) (q_ep2 st))"

section \<open>Delivered messages\<close>

text \<open>
  \<open>std::map\<close> as an association list sorted by key: \<open>insert\<close> keeps an entry that is there,
  assignment through an iterator replaces it. \<open>std::multimap\<close> as a list sorted by key, in
  which a new entry goes behind the entries with the same key.
\<close>

definition map_insert :: "bytes \<Rightarrow> nat \<Rightarrow> (bytes \<times> nat) list \<Rightarrow> (bytes \<times> nat) list" where
  "map_insert k v m = (if k \<in> fst ` set m then m else insort_key fst (k, v) m)"

definition multimap_insert :: "nat \<Rightarrow> bytes \<Rightarrow> (nat \<times> bytes) list \<Rightarrow> (nat \<times> bytes) list" where
  "multimap_insert k v m =
     takeWhile (\<lambda>e. fst e \<le> k) m @ [(k, v)] @ dropWhile (\<lambda>e. fst e \<le> k) m"

record queue_info_t =
  qi_offset :: nat
  qi_unacked :: "(bytes \<times> nat) list"
  qi_redelivery :: "(nat \<times> bytes) list"
  qi_worker :: "(bytes \<times> nat) list"

record 's hustmq =
  mq_index :: "queue_stat_t list"
  mq_map :: "bytes \<Rightarrow> queue_info_t option"
  mq_now :: nat
  mq_over_threshold :: bool
  mq_redelivery_timeout :: nat
  mq_ttl_maximum :: nat
  mq_store :: 's

definition new_queue_info :: "nat \<Rightarrow> queue_info_t" where
  "new_queue_info i = \<lparr>qi_offset = i, qi_unacked = [], qi_redelivery = [], qi_worker = []\<rparr>"

text \<open>
  Loading the index at start: every entry in use gets an empty record. \<open>std::map::insert\<close>
  keeps the first of two entries with the same name.
\<close>

definition init_queue_index :: "queue_stat_t list \<Rightarrow> bytes \<Rightarrow> queue_info_t option" where
  "init_queue_index index =
     fold (\<lambda>i m. let st = index ! i in
             if q_flag st > 0 \<and> m (q_name st) = None then m(q_name st := Some (new_queue_info i)) else m)
       [0..<length index] (\<lambda>_. None)"

section \<open>Finding a queue\<close>

definition touch_worker :: "nat \<Rightarrow> bytes \<Rightarrow> (bytes \<times> nat) list \<Rightarrow> (bytes \<times> nat) list" where
  "touch_worker now worker wmap =
     (if worker = [] then wmap
      else if worker \<in> fst ` set wmap
      then map (\<lambda>e. if fst e = worker then (worker, trunc 32 now) else e) wmap
      else if length wmap > 1024 then wmap
      else map_insert worker (trunc 32 now) wmap)"

definition find_queue_offset ::
  "bytes \<Rightarrow> bool \<Rightarrow> nat \<Rightarrow> bytes \<Rightarrow> 's hustmq \<Rightarrow> nat option \<times> 's hustmq" where
  "find_queue_offset queue create ty worker mq =
     (case mq_map mq queue of
        Some info \<Rightarrow>
          (let info' = info\<lparr>qi_worker := touch_worker (mq_now mq) worker (qi_worker info)\<rparr>;
               mq' = mq\<lparr>mq_map := (mq_map mq)(queue := Some info')\<rparr>
           in if ty \<noteq> COMMON_TB \<and> q_type (mq_index mq ! qi_offset info) \<noteq> ty then (None, mq')
              else (Some (qi_offset info), mq'))
      | None \<Rightarrow>
          if \<not> create then (None, mq)
          else case find (\<lambda>i. q_flag (mq_index mq ! i) > 0 \<and> q_name (mq_index mq ! i) = queue)
                      [0..<length (mq_index mq)] of
                 Some i \<Rightarrow> (Some i, mq)
               | None \<Rightarrow>
                   (case find (\<lambda>i. q_flag (mq_index mq ! i) = 0) [0..<length (mq_index mq)] of
                      Some i \<Rightarrow>
                        (Some i,
                         mq\<lparr>mq_map := (mq_map mq)(queue := Some (new_queue_info i)),
                            mq_index := (mq_index mq)[i := queue_stat_zero
                              \<lparr>q_flag := 1, q_type := trunc 8 ty,
                               q_timeout := trunc 8 (mq_redelivery_timeout mq),
                               q_ctime := trunc 32 (mq_now mq), q_name := queue\<rparr>]\<rparr>)
                    | None \<Rightarrow> (None, mq)))"

section \<open>Put, get, acknowledge\<close>

definition q_refuses :: "queue_stat_t \<Rightarrow> nat \<Rightarrow> bool" where
  "q_refuses st real \<longleftrightarrow>
     q_lock st = 1 \<or> (q_max st > 0 \<and> real \<ge> q_max st) \<or> real \<ge> MAX_QUEUE_ITEM_NUM"

definition mq_set_word :: "nat \<Rightarrow> nat \<Rightarrow> nat \<Rightarrow> 's hustmq \<Rightarrow> 's hustmq" where
  "mq_set_word i n v mq = mq\<lparr>mq_index := (mq_index mq)[i := q_set_word n v (mq_index mq ! i)]\<rparr>"

definition hustmq_put ::
  "'s storage \<Rightarrow> bytes \<Rightarrow> bytes \<Rightarrow> nat \<Rightarrow> 's hustmq \<Rightarrow> errno \<times> 's hustmq" where
  "hustmq_put S queue item priori mq =
     (if \<not> tb_name_check queue \<or> item = [] \<or> priori > 2 then (EKEYREJECTED, mq)
      else if mq_over_threshold mq then (ENOMEM, mq)
      else case find_queue_offset queue True QUEUE_TB [] mq of
             (None, mq1) \<Rightarrow> (EPERM, mq1)
           | (Some i, mq1) \<Rightarrow>
               let st = mq_index mq1 ! i;
                   tag = (q_word st (priori * 2 + 1) + 1) mod CYCLE_QUEUE_ITEM_NUM in
               if q_refuses st (q_real st) then (EINVAL, mq1)
               else let (r, s) = st_put S (message_key queue (message_token priori tag)) item 0 (mq_store mq1);
                        mq2 = mq1\<lparr>mq_store := s\<rparr>
                    in if r \<noteq> 0 then (r, mq2)
                       else (0, mq_set_word i (priori * 2 + 1) tag mq2))"

text \<open>The result of \<open>hustmq_get\<close>: the return code, the key to acknowledge, the token, the message.\<close>

record mq_reply =
  rp_code :: errno
  rp_ack :: bytes
  rp_unacked :: bytes
  rp_item :: bytes

definition mq_error :: "errno \<Rightarrow> mq_reply" where
  "mq_error r = \<lparr>rp_code = r, rp_ack = [], rp_unacked = [], rp_item = []\<rparr>"

definition mq_info :: "bytes \<Rightarrow> 's hustmq \<Rightarrow> queue_info_t" where
  "mq_info queue mq = the (mq_map mq queue)"

definition mq_upd_info :: "bytes \<Rightarrow> queue_info_t \<Rightarrow> 's hustmq \<Rightarrow> 's hustmq" where
  "mq_upd_info queue info mq = mq\<lparr>mq_map := (mq_map mq)(queue := Some info)\<rparr>"

text \<open>The choice of the message: an overdue delivery first, then the highest priority.\<close>

definition mq_pick :: "bytes \<Rightarrow> nat \<Rightarrow> 's hustmq \<Rightarrow> (bytes \<times> 's hustmq) option" where
  "mq_pick queue i mq =
     (let st = mq_index mq ! i; info = mq_info queue mq in
      if qi_redelivery info \<noteq> []
         \<and> int (mq_now mq) - int (fst (hd (qi_redelivery info))) \<ge> int (q_timeout st * 60)
      then Some (snd (hd (qi_redelivery info)),
                 mq_upd_info queue (info\<lparr>qi_redelivery := tl (qi_redelivery info)\<rparr>) mq)
      else if clac_real_item (q_sp2 st) (q_ep2 st) > 0
      then (let tag = (q_sp2 st + 1) mod CYCLE_QUEUE_ITEM_NUM
            in Some (message_token 2 tag, mq_set_word i 4 tag mq))
      else if clac_real_item (q_sp1 st) (q_ep1 st) > 0
      then (let tag = (q_sp1 st + 1) mod CYCLE_QUEUE_ITEM_NUM
            in Some (message_token 1 tag, mq_set_word i 2 tag mq))
      else if clac_real_item (q_sp st) (q_ep st) > 0
      then (let tag = (q_sp st + 1) mod CYCLE_QUEUE_ITEM_NUM
            in Some (message_token 0 tag, mq_set_word i 0 tag mq))
      else None)"

definition hustmq_get ::
  "'s storage \<Rightarrow> bytes \<Rightarrow> bytes \<Rightarrow> bool \<Rightarrow> 's hustmq \<Rightarrow> mq_reply \<times> 's hustmq" where
  "hustmq_get S queue worker is_ack mq =
     (if \<not> tb_name_check queue \<or> length worker \<le> MIN_WORKER_LEN \<or> length worker > MAX_WORKER_LEN
      then (mq_error EKEYREJECTED, mq)
      else case find_queue_offset queue False QUEUE_TB worker mq of
             (None, mq1) \<Rightarrow> (mq_error EPERM, mq1)
           | (Some i, mq1) \<Rightarrow>
               (case mq_pick queue i mq1 of
                  None \<Rightarrow> (mq_error ENOENT, mq1)
                | Some (token, mq2) \<Rightarrow>
                    let qkey = message_key queue token in
                    case st_get S qkey (mq_store mq2) of
                      (r, item, _) \<Rightarrow>
                        if r \<noteq> 0 then (\<lparr>rp_code = r, rp_ack = qkey, rp_unacked = [], rp_item = []\<rparr>, mq2)
                        else if is_ack
                        then (\<lparr>rp_code = 0, rp_ack = qkey, rp_unacked = [], rp_item = item\<rparr>, mq2)
                        else let info = mq_info queue mq2;
                                 unacked = drop (length queue + 1) qkey;
                                 info' = info\<lparr>qi_unacked := map_insert unacked (trunc 32 (mq_now mq2)) (qi_unacked info),
                                              qi_redelivery := multimap_insert (trunc 32 (mq_now mq2)) unacked
                                                                 (qi_redelivery info)\<rparr>
                             in (\<lparr>rp_code = 0, rp_ack = qkey, rp_unacked = unacked, rp_item = item\<rparr>,
                                 mq_upd_info queue info' mq2)))"

definition hustmq_ack_inner :: "'s storage \<Rightarrow> bytes \<Rightarrow> 's hustmq \<Rightarrow> errno \<times> 's hustmq" where
  "hustmq_ack_inner S ack mq =
     (let (r, s) = st_del S ack (mq_store mq) in (r, mq\<lparr>mq_store := s\<rparr>))"

text \<open>The request handler: with automatic acknowledgement a delivered message is deleted.\<close>

definition hustmq_get_handler ::
  "'s storage \<Rightarrow> bytes \<Rightarrow> bytes \<Rightarrow> bool \<Rightarrow> 's hustmq \<Rightarrow> mq_reply \<times> 's hustmq" where
  "hustmq_get_handler S queue worker is_ack mq =
     (let (rp, mq1) = hustmq_get S queue worker is_ack mq in
      if rp_code rp = 0 \<and> is_ack then (rp, snd (hustmq_ack_inner S (rp_ack rp) mq1)) else (rp, mq1))"

text \<open>The loop of \<open>hustmq_ack\<close> over the deliveries of one time stamp.\<close>

fun redelivery_loop :: "nat \<Rightarrow> bytes \<Rightarrow> (nat \<times> bytes) list \<Rightarrow> (nat \<times> bytes) list" where
  "redelivery_loop t ack [] = []"
| "redelivery_loop t ack ((k, v) # rest) =
     (if k \<noteq> t then (k, v) # rest
      else if v = ack then rest
      else (k, v) # redelivery_loop t ack rest)"

definition redelivery_erase :: "nat \<Rightarrow> bytes \<Rightarrow> (nat \<times> bytes) list \<Rightarrow> (nat \<times> bytes) list" where
  "redelivery_erase t ack m =
     takeWhile (\<lambda>e. fst e \<noteq> t) m @ redelivery_loop t ack (dropWhile (\<lambda>e. fst e \<noteq> t) m)"

definition hustmq_ack :: "'s storage \<Rightarrow> bytes \<Rightarrow> bytes \<Rightarrow> 's hustmq \<Rightarrow> errno \<times> 's hustmq" where
  "hustmq_ack S queue ack mq =
     (if \<not> tb_name_check queue \<or> \<not> tb_name_check ack then (EKEYREJECTED, mq)
      else case find_queue_offset queue False QUEUE_TB [] mq of
             (None, mq1) \<Rightarrow> (EPERM, mq1)
           | (Some i, mq1) \<Rightarrow>
               let info = mq_info queue mq1 in
               (case map_of (qi_unacked info) ack of
                  None \<Rightarrow> (EPERM, mq1)
                | Some t \<Rightarrow>
                    let info' = info\<lparr>qi_redelivery := redelivery_erase t ack (qi_redelivery info),
                                     qi_unacked := AList.delete ack (qi_unacked info)\<rparr>;
                        mq2 = mq_upd_info queue info' mq1;
                        (r, s) = st_del S (message_key queue ack) (mq_store mq2)
                    in (r, mq2\<lparr>mq_store := s\<rparr>)))"

section \<open>Administration\<close>

text \<open>
  \<open>hustmq_worker\<close> and \<open>hustmq_stat\<close> print what they find as JSON; the model returns the
  values that are printed.
\<close>

definition hustmq_worker :: "bytes \<Rightarrow> 's hustmq \<Rightarrow> errno \<times> (bytes \<times> nat) list \<times> 's hustmq" where
  "hustmq_worker queue mq =
     (if \<not> tb_name_check queue then (EKEYREJECTED, [], mq)
      else case find_queue_offset queue False QUEUE_TB [] mq of
             (None, mq1) \<Rightarrow> (EPERM, [], mq1)
           | (Some i, mq1) \<Rightarrow>
               let info = mq_info queue mq1;
                   alive = filter (\<lambda>e. \<not> int (snd e) < int (mq_now mq1) - WORKER_TIMEOUT) (qi_worker info)
               in (0, alive, mq_upd_info queue (info\<lparr>qi_worker := alive\<rparr>) mq1))"

definition hustmq_stat :: "bytes \<Rightarrow> 's hustmq \<Rightarrow> errno \<times> nat list \<times> nat \<times> queue_stat_t \<times> 's hustmq" where
  "hustmq_stat queue mq =
     (if \<not> tb_name_check queue then (EKEYREJECTED, [], 0, queue_stat_zero, mq)
      else case find_queue_offset queue False COMMON_TB [] mq of
             (None, mq1) \<Rightarrow> (EPERM, [], 0, queue_stat_zero, mq1)
           | (Some i, mq1) \<Rightarrow>
               let st = mq_index mq1 ! i in
               (0, [clac_real_item (q_sp st) (q_ep st), clac_real_item (q_sp1 st) (q_ep1 st),
                    clac_real_item (q_sp2 st) (q_ep2 st)],
                length (qi_unacked (mq_info queue mq1)), st, mq1))"

definition hustmq_max :: "bytes \<Rightarrow> nat \<Rightarrow> 's hustmq \<Rightarrow> errno \<times> 's hustmq" where
  "hustmq_max queue max' mq =
     (if \<not> tb_name_check queue \<or> max' > MAX_QUEUE_ITEM_NUM then (EKEYREJECTED, mq)
      else case find_queue_offset queue False QUEUE_TB [] mq of
             (None, mq1) \<Rightarrow> (EPERM, mq1)
           | (Some i, mq1) \<Rightarrow>
               (0, mq1\<lparr>mq_index := (mq_index mq1)[i := (mq_index mq1 ! i)\<lparr>q_max := max'\<rparr>]\<rparr>))"

definition hustmq_lock :: "bytes \<Rightarrow> nat \<Rightarrow> 's hustmq \<Rightarrow> errno \<times> 's hustmq" where
  "hustmq_lock queue lock mq =
     (if \<not> tb_name_check queue \<or> lock \<noteq> 0 \<and> lock \<noteq> 1 then (EKEYREJECTED, mq)
      else case find_queue_offset queue False QUEUE_TB [] mq of
             (None, mq1) \<Rightarrow> (EPERM, mq1)
           | (Some i, mq1) \<Rightarrow>
               (0, mq1\<lparr>mq_index := (mq_index mq1)[i := (mq_index mq1 ! i)\<lparr>q_lock := lock\<rparr>]\<rparr>))"

definition hustmq_timeout :: "bytes \<Rightarrow> nat \<Rightarrow> 's hustmq \<Rightarrow> errno \<times> 's hustmq" where
  "hustmq_timeout queue timeout mq =
     (if \<not> tb_name_check queue \<or> timeout = 0 \<or> timeout > 255 then (EKEYREJECTED, mq)
      else case find_queue_offset queue False QUEUE_TB [] mq of
             (None, mq1) \<Rightarrow> (EPERM, mq1)
           | (Some i, mq1) \<Rightarrow>
               (0, mq1\<lparr>mq_index := (mq_index mq1)[i := (mq_index mq1 ! i)\<lparr>q_timeout := timeout\<rparr>]\<rparr>))"

primrec purge_loop :: "'s storage \<Rightarrow> bytes \<Rightarrow> nat \<Rightarrow> nat list \<Rightarrow> 's \<Rightarrow> 's" where
  "purge_loop S queue priori [] s = s"
| "purge_loop S queue priori (p # ps) s =
     purge_loop S queue priori ps
       (snd (st_del S (message_key queue (message_token priori (p mod CYCLE_QUEUE_ITEM_NUM))) s))"

definition hustmq_purge :: "'s storage \<Rightarrow> bytes \<Rightarrow> nat \<Rightarrow> 's hustmq \<Rightarrow> errno \<times> 's hustmq" where
  "hustmq_purge S queue priori mq =
     (if \<not> tb_name_check queue \<or> priori > 2 then (EKEYREJECTED, mq)
      else case find_queue_offset queue False QUEUE_TB [] mq of
             (None, mq1) \<Rightarrow> (EPERM, mq1)
           | (Some i, mq1) \<Rightarrow>
               let st = mq_index mq1 ! i;
                   stag = q_word st (priori * 2);
                   etag0 = q_word st (priori * 2 + 1);
                   etag = (if stag > etag0 \<and> stag > MAX_QUEUE_ITEM_NUM
                           then trunc 32 (etag0 + CYCLE_QUEUE_ITEM_NUM) else etag0);
                   s = purge_loop S queue priori [trunc 32 (stag + 1)..<etag + 1] (mq_store mq1);
                   mq2 = mq1\<lparr>mq_store := s\<rparr>;
                   real = (q_real st + UINT32_MOD - clac_real_item stag etag) mod UINT32_MOD
               in if real = 0
                  then (0, mq2\<lparr>mq_map := (mq_map mq2)(queue := None),
                               mq_index := (mq_index mq2)[i := queue_stat_zero]\<rparr>)
                  else (0, mq_set_word i (priori * 2 + 1) 0 (mq_set_word i (priori * 2) 0 mq2)))"

section \<open>Publish and subscribe\<close>

text \<open>
  \<open>hustmq_pub\<close> first walks from the start position over messages that subscribers are past
  (\<open>idx\<close>) or that have expired, and deletes them; the walk stops at a live message.
\<close>

fun pub_loop :: "'s storage \<Rightarrow> bytes \<Rightarrow> nat \<Rightarrow> nat \<Rightarrow> nat \<Rightarrow> nat \<Rightarrow> 's \<Rightarrow> nat \<times> 's" where
  "pub_loop S queue idx now 0 stag s = (stag, s)"
| "pub_loop S queue idx now (Suc n) stag s =
     (let stag1 = trunc 32 (stag + 1) mod CYCLE_QUEUE_ITEM_NUM;
          qkey = message_key queue (message_token 0 stag1) in
      if idx < CYCLE_QUEUE_ITEM_NUM \<and> clac_real_item stag1 idx > 0
      then pub_loop S queue idx now n stag1 (snd (st_del S qkey s))
      else case st_get S qkey s of
             (r, _, rttl) \<Rightarrow>
               if r \<noteq> 0 then pub_loop S queue idx now n stag1 s
               else if rttl \<le> now then pub_loop S queue idx now n stag1 (snd (st_del S qkey s))
               else ((stag1 + UINT32_MOD - 1) mod UINT32_MOD, s))"

definition hustmq_pub ::
  "'s storage \<Rightarrow> bytes \<Rightarrow> bytes \<Rightarrow> nat \<Rightarrow> nat \<Rightarrow> 's hustmq \<Rightarrow> errno \<times> 's hustmq" where
  "hustmq_pub S queue item idx wttl mq =
     (if \<not> tb_name_check queue \<or> item = [] \<or> wttl = 0 \<or> wttl > mq_ttl_maximum mq then (EKEYREJECTED, mq)
      else if mq_over_threshold mq then (ENOMEM, mq)
      else case find_queue_offset queue True PUSHQ_TB [] mq of
             (None, mq1) \<Rightarrow> (EPERM, mq1)
           | (Some i, mq1) \<Rightarrow>
               let st = mq_index mq1 ! i;
                   real = clac_real_item (q_sp st) (q_ep st) in
               if q_refuses st real then (EINVAL, mq1)
               else let (stag0, s) = pub_loop S queue idx (mq_now mq1) real (q_sp st) (mq_store mq1);
                        (stag, etag) =
                          (if idx < CYCLE_QUEUE_ITEM_NUM \<and> clac_real_item (q_ep st) idx > 0
                           then ((idx + CYCLE_QUEUE_ITEM_NUM - 1) mod CYCLE_QUEUE_ITEM_NUM, idx)
                           else (stag0, (q_ep st + 1) mod CYCLE_QUEUE_ITEM_NUM));
                        (r, s') = st_put S (message_key queue (message_token 0 etag)) item
                                    (trunc 32 (mq_now mq1 + wttl)) s;
                        mq2 = mq1\<lparr>mq_store := s'\<rparr>
                    in if r \<noteq> 0 then (r, mq2)
                       else (0, mq2\<lparr>mq_index := (mq_index mq2)[i :=
                                  (mq_index mq2 ! i)\<lparr>q_ctime := trunc 32 (mq_now mq2), q_sp := stag, q_ep := etag\<rparr>]\<rparr>))"

definition hustmq_sub ::
  "'s storage \<Rightarrow> bytes \<Rightarrow> nat \<Rightarrow> 's hustmq \<Rightarrow> errno \<times> nat \<times> nat \<times> bytes \<times> 's hustmq" where
  "hustmq_sub S queue idx mq =
     (if \<not> tb_name_check queue \<or> idx \<ge> CYCLE_QUEUE_ITEM_NUM then (EKEYREJECTED, 0, 0, [], mq)
      else case find_queue_offset queue False PUSHQ_TB [] mq of
             (None, mq1) \<Rightarrow> (EPERM, 0, 0, [], mq1)
           | (Some i, mq1) \<Rightarrow>
               let st = mq_index mq1 ! i in
               if clac_real_item (q_sp st) (q_ep st) = 0 then (ENOENT, 0, 0, [], mq1)
               else if clac_real_item (q_sp st) idx = 0
                       \<or> clac_real_item ((idx + CYCLE_QUEUE_ITEM_NUM - 1) mod CYCLE_QUEUE_ITEM_NUM) (q_ep st) = 0
               then (EINVAL, q_sp st, q_ep st, [], mq1)
               else let qkey = message_key queue (message_token 0 idx) in
                    case st_get S qkey (mq_store mq1) of
                      (r, item, rttl) \<Rightarrow>
                        if r \<noteq> 0 then (r, 0, 0, [], mq1)
                        else if rttl \<le> mq_now mq1
                        then (ENOENT, 0, 0, [], mq1\<lparr>mq_store := snd (st_del S qkey (mq_store mq1))\<rparr>)
                        else (0, 0, 0, item, mq1))"

end
