(* ===== verification/Hustmq_Fifo.thy ===== *)
theory Hustmq_Fifo
  imports Hustmq
begin

text \<open>
  What the queues promise. A queue holds three lists of messages, one per priority:
  \<open>hustmq_put\<close> appends to one, a \<open>get\<close> takes the oldest message of the highest priority
  that has one. Positions run around a cycle of 11000000, of which at most 5000000 are in
  use, so that the two positions determine the number of messages.
\<close>

section \<open>The contract of the storage\<close>

text \<open>
  \<open>contents\<close> is the map the engine implements. A failed \<open>put\<close> or \<open>del\<close> says nothing about its
  own key, no call affects another key, and reads do not fail. The engine keys its map by the
  digest of a key, so that it meets this for keys whose digests differ; for calls that
  succeed the theory \<open>Hustmq_Engine\<close> shows it.
\<close>

definition storage_ok :: "'s storage \<Rightarrow> ('s \<Rightarrow> bytes \<Rightarrow> (bytes \<times> nat) option) \<Rightarrow> bool" where
  "storage_ok S contents \<longleftrightarrow>
     (\<forall>k v t s r s'. st_put S k v t s = (r, s') \<longrightarrow>
        (\<forall>j. j \<noteq> k \<longrightarrow> contents s' j = contents s j) \<and> (r = 0 \<longrightarrow> contents s' k = Some (v, t)))
     \<and> (\<forall>k s r s'. st_del S k s = (r, s') \<longrightarrow>
        (\<forall>j. j \<noteq> k \<longrightarrow> contents s' j = contents s j) \<and> (r = 0 \<longrightarrow> contents s' k = None))
     \<and> (\<forall>k s. case contents s k of
          Some (v, t) \<Rightarrow> st_get S k s = (0, v, t)
        | None \<Rightarrow> fst (st_get S k s) = ENOENT)"

section \<open>Priority queues\<close>

text \<open>The highest priority with a message.\<close>

definition pq_next :: "(nat \<Rightarrow> bytes list) \<Rightarrow> nat option" where
  "pq_next q = (if q 2 \<noteq> [] then Some 2 else if q 1 \<noteq> [] then Some 1 else if q 0 \<noteq> [] then Some 0 else None)"

datatype mq_op = Mq_Put nat bytes | Mq_Get

fun mq_run ::
  "(nat \<Rightarrow> bytes \<Rightarrow> 'a \<Rightarrow> errno \<times> 'a) \<Rightarrow> ('a \<Rightarrow> errno \<times> bytes \<times> 'a) \<Rightarrow> mq_op list \<Rightarrow> 'a
   \<Rightarrow> (errno \<times> bytes) list \<times> 'a" where
  "mq_run put get [] s = ([], s)"
| "mq_run put get (Mq_Put p m # ops) s =
     (let (r, s1) = put p m s; (rs, s2) = mq_run put get ops s1 in ((r, []) # rs, s2))"
| "mq_run put get (Mq_Get # ops) s =
     (let (r, m, s1) = get s; (rs, s2) = mq_run put get ops s1 in ((r, m) # rs, s2))"

text \<open>
  The answers a priority queue may give: a put is refused or appends, a get must deliver
  the oldest message of the highest priority, or \<open>ENOENT\<close> when there is none. The result is
  the queue at the end.
\<close>

fun pq_accepts ::
  "mq_op list \<Rightarrow> (errno \<times> bytes) list \<Rightarrow> (nat \<Rightarrow> bytes list) \<Rightarrow> (nat \<Rightarrow> bytes list) option" where
  "pq_accepts [] [] q = Some q"
| "pq_accepts (Mq_Put p m # ops) ((r, _) # rs) q =
     pq_accepts ops rs (if r = 0 then q(p := q p @ [m]) else q)"
| "pq_accepts (Mq_Get # ops) ((r, m) # rs) q =
     (case pq_next q of
        None \<Rightarrow> if r = ENOENT then pq_accepts ops rs q else None
      | Some p \<Rightarrow> if r = 0 \<and> m = hd (q p) then pq_accepts ops rs (q(p := tl (q p))) else None)"
| "pq_accepts _ _ q = None"

locale message_queue =
  fixes put :: "nat \<Rightarrow> bytes \<Rightarrow> 'a \<Rightarrow> errno \<times> 'a"
    and get :: "'a \<Rightarrow> errno \<times> bytes \<times> 'a"
    and inv :: "'a \<Rightarrow> bool"
    and ready :: "'a \<Rightarrow> nat \<Rightarrow> bytes list"
  assumes put_inv: "inv s \<Longrightarrow> p \<le> 2 \<Longrightarrow> m \<noteq> [] \<Longrightarrow> put p m s = (r, s') \<Longrightarrow> inv s'"
    and put_ready: "inv s \<Longrightarrow> p \<le> 2 \<Longrightarrow> m \<noteq> [] \<Longrightarrow> put p m s = (r, s') \<Longrightarrow>
      ready s' = (if r = 0 then (ready s)(p := ready s p @ [m]) else ready s)"
    and get_inv: "inv s \<Longrightarrow> get s = (r, m, s') \<Longrightarrow> inv s'"
    and get_ready: "inv s \<Longrightarrow> get s = (r, m, s') \<Longrightarrow>
      (case pq_next (ready s) of
         None \<Rightarrow> r = ENOENT \<and> ready s' = ready s
       | Some p \<Rightarrow> r = 0 \<and> m = hd (ready s p) \<and> ready s' = (ready s)(p := tl (ready s p)))"
begin

lemma run_accepted:
  assumes "inv s" and "\<forall>p m. Mq_Put p m \<in> set ops \<longrightarrow> p \<le> 2 \<and> m \<noteq> []"
    and "mq_run put get ops s = (rs, s')"
  shows "inv s' \<and> pq_accepts ops rs (ready s) = Some (ready s')"
  using assms
proof (induction ops arbitrary: s rs)
  case (Cons op ops)
  have rest: "\<forall>p m. Mq_Put p m \<in> set ops \<longrightarrow> p \<le> 2 \<and> m \<noteq> []" using Cons.prems(2) by simp
  show ?case
  proof (cases op)
    case (Mq_Put p m)
    obtain r s1 where pt: "put p m s = (r, s1)" by force
    obtain rs1 where run: "mq_run put get ops s1 = (rs1, s')" and rs: "rs = (r, []) # rs1"
      using Cons.prems(3) pt by (auto simp: Mq_Put split: prod.splits)
    have pm: "p \<le> 2" "m \<noteq> []" using Cons.prems(2) by (simp_all add: Mq_Put)
    show ?thesis
      using Cons.IH [OF put_inv [OF Cons.prems(1) pm pt] rest run] put_ready [OF Cons.prems(1) pm pt]
      by (simp add: Mq_Put rs)
  next
    case Mq_Get
    obtain r m s1 where gt: "get s = (r, m, s1)" using prod_cases3 by blast
    obtain rs1 where run: "mq_run put get ops s1 = (rs1, s')" and rs: "rs = (r, m) # rs1"
      using Cons.prems(3) gt by (auto simp: Mq_Get split: prod.splits)
    show ?thesis
      using Cons.IH [OF get_inv [OF Cons.prems(1) gt] rest run] get_ready [OF Cons.prems(1) gt]
      by (cases "pq_next (ready s)") (simp_all add: Mq_Get rs fun_upd_def)
  qed
qed simp

end

section \<open>The queue as three lists\<close>

definition q_len :: "queue_stat_t \<Rightarrow> nat \<Rightarrow> nat" where
  "q_len st p = clac_real_item (q_word st (p * 2)) (q_word st (p * 2 + 1))"

definition q_wf :: "queue_stat_t \<Rightarrow> bool" where
  "q_wf st \<longleftrightarrow> (\<forall>p\<le>2. q_word st (p * 2) < CYCLE_QUEUE_ITEM_NUM \<and> q_word st (p * 2 + 1) < CYCLE_QUEUE_ITEM_NUM
     \<and> (q_word st (p * 2 + 1) + CYCLE_QUEUE_ITEM_NUM - q_word st (p * 2)) mod CYCLE_QUEUE_ITEM_NUM
         \<le> MAX_QUEUE_ITEM_NUM)"

definition q_key :: "bytes \<Rightarrow> queue_stat_t \<Rightarrow> nat \<Rightarrow> nat \<Rightarrow> bytes" where
  "q_key queue st p i =
     message_key queue (message_token p ((q_word st (p * 2) + 1 + i) mod CYCLE_QUEUE_ITEM_NUM))"

definition mq_stat :: "bytes \<Rightarrow> 's hustmq \<Rightarrow> queue_stat_t" where
  "mq_stat queue mq = mq_index mq ! qi_offset (mq_info queue mq)"

definition mq_ready :: "('s \<Rightarrow> bytes \<Rightarrow> (bytes \<times> nat) option) \<Rightarrow> bytes \<Rightarrow> 's hustmq \<Rightarrow> nat \<Rightarrow> bytes list" where
  "mq_ready contents queue mq p =
     (if p > 2 then []
      else map (\<lambda>i. fst (the (contents (mq_store mq) (q_key queue (mq_stat queue mq) p i))))
             [0..<q_len (mq_stat queue mq) p])"

text \<open>A queue that exists, with every message in storage.\<close>

definition mq_wf :: "('s \<Rightarrow> bytes \<Rightarrow> (bytes \<times> nat) option) \<Rightarrow> bytes \<Rightarrow> 's hustmq \<Rightarrow> bool" where
  "mq_wf contents queue mq \<longleftrightarrow>
     tb_name_check queue \<and> mq_map mq queue \<noteq> None
     \<and> qi_offset (mq_info queue mq) < length (mq_index mq)
     \<and> q_type (mq_stat queue mq) = QUEUE_TB \<and> q_wf (mq_stat queue mq)
     \<and> (\<forall>p\<le>2. \<forall>i<q_len (mq_stat queue mq) p.
          contents (mq_store mq) (q_key queue (mq_stat queue mq) p i) \<noteq> None)"

text \<open>The queue as its clients use it: messages acknowledged on delivery.\<close>

definition worker_ok :: "bytes \<Rightarrow> bool" where
  "worker_ok worker \<longleftrightarrow> MIN_WORKER_LEN < length worker \<and> length worker \<le> MAX_WORKER_LEN"

definition mq_inv ::
  "'s storage \<Rightarrow> ('s \<Rightarrow> bytes \<Rightarrow> (bytes \<times> nat) option) \<Rightarrow> bytes \<Rightarrow> bytes \<Rightarrow> 's hustmq \<Rightarrow> bool" where
  "mq_inv S contents queue worker mq \<longleftrightarrow>
     storage_ok S contents \<and> worker_ok worker \<and> mq_wf contents queue mq \<and> qi_redelivery (mq_info queue mq) = []"

definition mq_get_acked :: "'s storage \<Rightarrow> bytes \<Rightarrow> bytes \<Rightarrow> 's hustmq \<Rightarrow> errno \<times> bytes \<times> 's hustmq" where
  "mq_get_acked S queue worker mq =
     (let (rp, mq') = hustmq_get_handler S queue worker True mq in (rp_code rp, rp_item rp, mq'))"

section \<open>Keys\<close>

text \<open>The value of a decimal numeral.\<close>

definition dec_val :: "bytes \<Rightarrow> nat" where
  "dec_val bs = foldl (\<lambda>n b. 10 * n + (unat b - 48)) 0 bs"

lemma dec_val_snoc [simp]: "dec_val (bs @ [b]) = 10 * dec_val bs + (unat b - 48)"
  by (simp add: dec_val_def)

lemma dec_val_dec [simp]: "dec_val (dec n) = n"
proof (induction n rule: dec.induct)
  case (1 n)
  show ?case
  proof (cases "n < 10")
    case True
    then show ?thesis by (simp add: dec.simps [of n] dec_val_def)
  next
    case False
    then show ?thesis using 1 by (simp add: dec.simps [of n])
  qed
qed

lemma dec_inj: "dec m = dec n \<longleftrightarrow> m = n"
  by (metis dec_val_dec)

lemma dec_digits: "b \<in> set (dec n) \<Longrightarrow> 48 \<le> unat b \<and> unat b \<le> 57"
proof (induction n rule: dec.induct)
  case (1 n)
  have "unat (byte_of (48 + n mod 10)) = 48 + n mod 10" by simp
  then have d: "48 \<le> unat (byte_of (48 + n mod 10))" "unat (byte_of (48 + n mod 10)) \<le> 57" by simp_all
  show ?case
  proof (cases "n < 10")
    case True
    then show ?thesis using 1 d by (simp add: dec.simps [of n])
  next
    case False
    then show ?thesis using 1 d by (auto simp: dec.simps [of n])
  qed
qed

lemma dec_no_colon: "0x3A \<notin> set (dec n)"
  using dec_digits [of "0x3A" n] by auto

lemma dec_length: "n < 10 ^ Suc k \<Longrightarrow> length (dec n) \<le> Suc k"
proof (induction k arbitrary: n)
  case 0
  then show ?case by (simp add: dec.simps [of n])
next
  case (Suc k)
  show ?case
  proof (cases "n < 10")
    case False
    have "n div 10 < 10 ^ Suc k" using Suc.prems by (simp add: less_mult_imp_div_less mult.commute)
    then show ?thesis using Suc.IH False by (simp add: dec.simps [of n])
  qed (simp add: dec.simps [of n])
qed

lemma split_at:
  assumes "xs @ c # ys = xs' @ c # ys'" "c \<notin> set xs" "c \<notin> set xs'"
  shows "xs = xs' \<and> ys = ys'"
  using assms
proof (induction xs arbitrary: xs')
  case Nil
  then show ?case by (cases xs') auto
next
  case (Cons x xs)
  then show ?case by (cases xs') auto
qed

lemma message_token_inj: "message_token p t = message_token p' t' \<longleftrightarrow> p = p' \<and> t = t'"
  using split_at [of "dec p" "0x3A" "dec t" "dec p'" "dec t'"] dec_no_colon dec_inj
  by (auto simp: message_token_def)

lemma message_key_inj: "message_key q t = message_key q t' \<longleftrightarrow> t = t'"
  by (simp add: message_key_def)

lemma tb_name_no_bar: "tb_name_check q \<Longrightarrow> 0x7C \<notin> set q"
  by (auto simp: tb_name_check_def list_all_iff tb_name_char_def split: if_splits dest!: bspec)

lemma message_key_queue_inj:
  assumes "tb_name_check q" "tb_name_check q'" "message_key q t = message_key q' t'"
  shows "q = q' \<and> t = t'"
  using split_at [of q "0x7C" t q' t'] assms tb_name_no_bar by (simp add: message_key_def)

section \<open>Positions\<close>

lemma q_word_set_word: "n < 6 \<Longrightarrow> m < 6 \<Longrightarrow> q_word (q_set_word n v st) m = (if m = n then v else q_word st m)"
proof -
  assume "n < 6" "m < 6"
  then have "n \<in> set [0..<6]" "m \<in> set [0..<6]" by simp_all
  then show ?thesis by (auto simp: q_word_def q_set_word_def upt_rec)
qed

lemma q_set_word_frame [simp]:
  "q_type (q_set_word n v st) = q_type st" "q_timeout (q_set_word n v st) = q_timeout st"
  "q_lock (q_set_word n v st) = q_lock st" "q_max (q_set_word n v st) = q_max st"
  "q_name (q_set_word n v st) = q_name st" "q_flag (q_set_word n v st) = q_flag st"
  by (simp_all add: q_set_word_def)

lemma clac_real_item_eq:
  assumes "s < CYCLE_QUEUE_ITEM_NUM" "e < CYCLE_QUEUE_ITEM_NUM"
    "(e + CYCLE_QUEUE_ITEM_NUM - s) mod CYCLE_QUEUE_ITEM_NUM \<le> MAX_QUEUE_ITEM_NUM"
  shows "clac_real_item s e = (e + CYCLE_QUEUE_ITEM_NUM - s) mod CYCLE_QUEUE_ITEM_NUM"
proof (cases "s \<le> e")
  case True
  then have eq: "e + 11000000 - s = (e - s) + 11000000" by simp
  have "(e + 11000000 - s) mod 11000000 = e - s"
    unfolding eq mod_add_self2 using assms(2) by (simp add: width_simps)
  then show ?thesis using True by (simp add: clac_real_item_def width_simps)
next
  case False
  then have d: "(e + 11000000 - s) mod 11000000 = e + 11000000 - s" using assms by (simp add: width_simps)
  have eq: "11000000 + 4294967296 - s + e = (e + 11000000 - s) + 4294967296"
    using assms(1) by (simp add: width_simps)
  have "(11000000 + 4294967296 - s + e) mod 4294967296 = e + 11000000 - s"
    unfolding eq mod_add_self2 using assms(2) False by (simp add: width_simps)
  moreover have "s > 5000000" using assms False d by (simp add: width_simps)
  ultimately show ?thesis using False d by (simp add: clac_real_item_def width_simps)
qed

lemma mod_back:
  fixes s e c :: nat
  assumes "s < c" "e < c"
  shows "(s + (e + c - s) mod c) mod c = e"
proof -
  have "(s + (e + c - s) mod c) mod c = (s + (e + c - s)) mod c" by (simp add: mod_simps)
  also have "s + (e + c - s) = e + c" using assms by simp
  finally show ?thesis using assms by simp
qed

lemma q_wfD:
  assumes "q_wf st" "p \<le> 2"
  shows "q_word st (p * 2) < CYCLE_QUEUE_ITEM_NUM" "q_word st (p * 2 + 1) < CYCLE_QUEUE_ITEM_NUM"
    "q_len st p \<le> MAX_QUEUE_ITEM_NUM"
    "(q_word st (p * 2) + q_len st p) mod CYCLE_QUEUE_ITEM_NUM = q_word st (p * 2 + 1)"
proof -
  have w: "q_word st (p * 2) < CYCLE_QUEUE_ITEM_NUM" "q_word st (p * 2 + 1) < CYCLE_QUEUE_ITEM_NUM"
    "(q_word st (p * 2 + 1) + CYCLE_QUEUE_ITEM_NUM - q_word st (p * 2)) mod CYCLE_QUEUE_ITEM_NUM \<le> MAX_QUEUE_ITEM_NUM"
    using assms by (simp_all add: q_wf_def)
  then show "q_word st (p * 2) < CYCLE_QUEUE_ITEM_NUM" "q_word st (p * 2 + 1) < CYCLE_QUEUE_ITEM_NUM"
    "q_len st p \<le> MAX_QUEUE_ITEM_NUM"
    "(q_word st (p * 2) + q_len st p) mod CYCLE_QUEUE_ITEM_NUM = q_word st (p * 2 + 1)"
    using clac_real_item_eq [OF w] mod_back [OF w(1,2)] by (simp_all add: q_len_def)
qed

text \<open>The positions of one priority after a message went in or out.\<close>

lemma clac_step:
  assumes "s < CYCLE_QUEUE_ITEM_NUM" "d \<le> MAX_QUEUE_ITEM_NUM" "e = (s + d) mod CYCLE_QUEUE_ITEM_NUM"
  shows "clac_real_item s e = d"
    "(e + CYCLE_QUEUE_ITEM_NUM - s) mod CYCLE_QUEUE_ITEM_NUM = d"
proof -
  have e: "e < CYCLE_QUEUE_ITEM_NUM" using assms(3) by (simp add: width_simps)
  have "(e + 11000000 - s) mod 11000000 = d"
  proof (cases "s + d < 11000000")
    case True
    then have "e + 11000000 - s = d + 11000000" using assms by (simp add: width_simps)
    then show ?thesis using assms(2) by (simp add: width_simps)
  next
    case False
    then have "e = s + d - 11000000" using assms by (simp add: width_simps mod_if)
    then have "e + 11000000 - s = d" using False by simp
    then show ?thesis using assms(2) by (simp add: width_simps)
  qed
  then show *: "(e + CYCLE_QUEUE_ITEM_NUM - s) mod CYCLE_QUEUE_ITEM_NUM = d" by (simp add: width_simps)
  show "clac_real_item s e = d"
    using clac_real_item_eq [OF assms(1) e] * assms(2) by simp
qed

lemma q_wf_set:
  assumes wf: "q_wf st" and p: "p \<le> 2" and n: "n = p * 2 \<or> n = p * 2 + 1"
    and s: "s' = (if n = p * 2 then v else q_word st (p * 2))"
    and e: "e' = (if n = p * 2 then q_word st (p * 2 + 1) else v)"
    and b: "s' < CYCLE_QUEUE_ITEM_NUM" "d \<le> MAX_QUEUE_ITEM_NUM" "e' = (s' + d) mod CYCLE_QUEUE_ITEM_NUM"
  shows "q_wf (q_set_word n v st)" "q_len (q_set_word n v st) p = d"
    "p' \<le> 2 \<Longrightarrow> p' \<noteq> p \<Longrightarrow> q_len (q_set_word n v st) p' = q_len st p'"
    "p' \<le> 2 \<Longrightarrow> p' \<noteq> p \<Longrightarrow> q_word (q_set_word n v st) (p' * 2) = q_word st (p' * 2)"
    "q_word (q_set_word n v st) (p * 2) = s'"
proof -
  have n6: "n < 6" using p n by auto
  have w: "q_word (q_set_word n v st) (p' * 2) = (if p' = p then s' else q_word st (p' * 2))"
    "q_word (q_set_word n v st) (p' * 2 + 1) = (if p' = p then e' else q_word st (p' * 2 + 1))"
    if "p' \<le> 2" for p'
  proof -
    have "p' * 2 = p * 2 + 1 \<longleftrightarrow> False" "p' * 2 + 1 = p * 2 \<longleftrightarrow> False" by presburger+
    then show "q_word (q_set_word n v st) (p' * 2) = (if p' = p then s' else q_word st (p' * 2))"
      "q_word (q_set_word n v st) (p' * 2 + 1) = (if p' = p then e' else q_word st (p' * 2 + 1))"
      using that n s e by (auto simp: q_word_set_word [OF n6])
  qed
  have e6: "e' < CYCLE_QUEUE_ITEM_NUM" using b(3) by (simp add: width_simps)
  note c = clac_step [OF b]
  show "q_wf (q_set_word n v st)"
    unfolding q_wf_def
  proof (intro allI impI)
    fix p' :: nat
    assume p': "p' \<le> 2"
    show "q_word (q_set_word n v st) (p' * 2) < CYCLE_QUEUE_ITEM_NUM
      \<and> q_word (q_set_word n v st) (p' * 2 + 1) < CYCLE_QUEUE_ITEM_NUM
      \<and> (q_word (q_set_word n v st) (p' * 2 + 1) + CYCLE_QUEUE_ITEM_NUM - q_word (q_set_word n v st) (p' * 2))
          mod CYCLE_QUEUE_ITEM_NUM \<le> MAX_QUEUE_ITEM_NUM"
      unfolding w [OF p'] using wf [unfolded q_wf_def, rule_format, OF p'] c(2) b(1,2) e6
      by (cases "p' = p") simp_all
  qed
  show "q_len (q_set_word n v st) p = d" "q_word (q_set_word n v st) (p * 2) = s'"
    unfolding q_len_def w [OF p] using c(1) by simp_all
  show "q_len (q_set_word n v st) p' = q_len st p'"
    "q_word (q_set_word n v st) (p' * 2) = q_word st (p' * 2)" if "p' \<le> 2" "p' \<noteq> p"
    unfolding q_len_def w [OF that(1)] using that(2) by simp_all
qed

lemma q_wf_end:
  assumes "q_wf st" "p \<le> 2" "d \<le> MAX_QUEUE_ITEM_NUM"
    "v = (q_word st (p * 2) + d) mod CYCLE_QUEUE_ITEM_NUM"
  shows "q_wf (q_set_word (p * 2 + 1) v st)" "q_len (q_set_word (p * 2 + 1) v st) p = d"
    "p' \<le> 2 \<Longrightarrow> p' \<noteq> p \<Longrightarrow> q_len (q_set_word (p * 2 + 1) v st) p' = q_len st p'"
    "p' \<le> 2 \<Longrightarrow> q_word (q_set_word (p * 2 + 1) v st) (p' * 2) = q_word st (p' * 2)"
proof -
  note w = q_wf_set [OF assms(1,2), of "p * 2 + 1" "q_word st (p * 2)" v v d]
  show "q_wf (q_set_word (p * 2 + 1) v st)" "q_len (q_set_word (p * 2 + 1) v st) p = d"
    using w(1,2) q_wfD(1) [OF assms(1,2)] assms(3,4) by simp_all
  show "q_len (q_set_word (p * 2 + 1) v st) p' = q_len st p'" if "p' \<le> 2" "p' \<noteq> p"
    using w(3) q_wfD(1) [OF assms(1,2)] assms(3,4) that by simp
  show "q_word (q_set_word (p * 2 + 1) v st) (p' * 2) = q_word st (p' * 2)" if "p' \<le> 2"
    using w(4,5) q_wfD(1) [OF assms(1,2)] assms(3,4) that by (cases "p' = p") simp_all
qed

lemma q_wf_start:
  assumes "q_wf st" "p \<le> 2" "v < CYCLE_QUEUE_ITEM_NUM" "d \<le> MAX_QUEUE_ITEM_NUM"
    "q_word st (p * 2 + 1) = (v + d) mod CYCLE_QUEUE_ITEM_NUM"
  shows "q_wf (q_set_word (p * 2) v st)" "q_len (q_set_word (p * 2) v st) p = d"
    "p' \<le> 2 \<Longrightarrow> p' \<noteq> p \<Longrightarrow> q_len (q_set_word (p * 2) v st) p' = q_len st p'"
    "p' \<le> 2 \<Longrightarrow> p' \<noteq> p \<Longrightarrow> q_word (q_set_word (p * 2) v st) (p' * 2) = q_word st (p' * 2)"
    "q_word (q_set_word (p * 2) v st) (p * 2) = v"
proof -
  note w = q_wf_set [OF assms(1,2), of "p * 2" v v "q_word st (p * 2 + 1)" d]
  show "q_wf (q_set_word (p * 2) v st)" "q_len (q_set_word (p * 2) v st) p = d"
    "q_word (q_set_word (p * 2) v st) (p * 2) = v"
    using w(1,2,5) assms(3-5) by simp_all
  show "q_len (q_set_word (p * 2) v st) p' = q_len st p'"
    "q_word (q_set_word (p * 2) v st) (p' * 2) = q_word st (p' * 2)" if "p' \<le> 2" "p' \<noteq> p"
    using w(3,4) assms(3-5) that by simp_all
qed

lemma mod_shift_inj:
  fixes a i j c :: nat
  assumes "(a + i) mod c = (a + j) mod c" "i < c" "j < c"
  shows "i = j"
proof -
  have le: "i = j" if "i \<le> j" "(a + i) mod c = (a + j) mod c" "j < c" for i j :: nat
  proof -
    have "c dvd (a + j) - (a + i)" using that by (subst mod_eq_dvd_iff_nat [symmetric]) simp_all
    then have "c dvd j - i" by simp
    then show ?thesis using that(1,3) nat_dvd_not_less [of "j - i" c] by fastforce
  qed
  show ?thesis using le [of i j] le [of j i] assms by (cases "i \<le> j") simp_all
qed

lemma q_key_inj:
  assumes "i \<le> MAX_QUEUE_ITEM_NUM" "j \<le> MAX_QUEUE_ITEM_NUM"
  shows "q_key q st p i = q_key q st p' j \<longleftrightarrow> p = p' \<and> i = j"
  using assms mod_shift_inj [of "q_word st (p * 2) + 1" i CYCLE_QUEUE_ITEM_NUM j]
  by (auto simp: q_key_def message_key_inj message_token_inj width_simps)

section \<open>Operations on one queue\<close>

lemma mq_wfD:
  assumes "mq_wf contents queue mq"
  shows "tb_name_check queue" "mq_map mq queue = Some (mq_info queue mq)"
    "qi_offset (mq_info queue mq) < length (mq_index mq)"
    "q_type (mq_stat queue mq) = QUEUE_TB" "q_wf (mq_stat queue mq)"
    "p \<le> 2 \<Longrightarrow> i < q_len (mq_stat queue mq) p \<Longrightarrow>
       contents (mq_store mq) (q_key queue (mq_stat queue mq) p i) \<noteq> None"
  using assms by (auto simp: mq_wf_def mq_info_def)

text \<open>What depends on the positions and on the stored messages only.\<close>

lemma mq_wf_store:
  assumes "mq_wf contents queue mq" "mq_index mq' = mq_index mq" "mq_map mq' queue \<noteq> None"
    "qi_offset (mq_info queue mq') = qi_offset (mq_info queue mq)"
    "\<forall>p\<le>2. \<forall>i<q_len (mq_stat queue mq) p.
      contents (mq_store mq') (q_key queue (mq_stat queue mq) p i)
        = contents (mq_store mq) (q_key queue (mq_stat queue mq) p i)"
  shows "mq_wf contents queue mq'" "mq_ready contents queue mq' = mq_ready contents queue mq"
    "mq_stat queue mq' = mq_stat queue mq"
proof -
  show st: "mq_stat queue mq' = mq_stat queue mq" using assms(2,4) by (simp add: mq_stat_def)
  show "mq_wf contents queue mq'"
    using assms unfolding mq_wf_def st by simp
  show "mq_ready contents queue mq' = mq_ready contents queue mq"
    using assms(5) by (auto simp: mq_ready_def st fun_eq_iff)
qed

definition mq_touch :: "bytes \<Rightarrow> bytes \<Rightarrow> 's hustmq \<Rightarrow> 's hustmq" where
  "mq_touch queue worker mq = mq_upd_info queue ((mq_info queue mq)
     \<lparr>qi_worker := touch_worker (mq_now mq) worker (qi_worker (mq_info queue mq))\<rparr>) mq"

lemma mq_upd_info_simps [simp]:
  "mq_index (mq_upd_info q info mq) = mq_index mq" "mq_store (mq_upd_info q info mq) = mq_store mq"
  "mq_now (mq_upd_info q info mq) = mq_now mq" "mq_info q (mq_upd_info q info mq) = info"
  "mq_map (mq_upd_info q info mq) q = Some info" "mq_over_threshold (mq_upd_info q info mq) = mq_over_threshold mq"
  by (simp_all add: mq_upd_info_def mq_info_def)

lemma mq_touch_simps [simp]:
  "mq_index (mq_touch q w mq) = mq_index mq" "mq_store (mq_touch q w mq) = mq_store mq"
  "mq_now (mq_touch q w mq) = mq_now mq" "mq_map (mq_touch q w mq) q \<noteq> None"
  "qi_offset (mq_info q (mq_touch q w mq)) = qi_offset (mq_info q mq)"
  "qi_redelivery (mq_info q (mq_touch q w mq)) = qi_redelivery (mq_info q mq)"
  "qi_unacked (mq_info q (mq_touch q w mq)) = qi_unacked (mq_info q mq)"
  "mq_stat q (mq_touch q w mq) = mq_stat q mq"
  by (simp_all add: mq_touch_def mq_stat_def)

lemma mq_touch_wf:
  assumes "mq_wf contents queue mq"
  shows "mq_wf contents queue (mq_touch queue w mq)"
    "mq_ready contents queue (mq_touch queue w mq) = mq_ready contents queue mq"
  by (rule mq_wf_store [OF assms]; simp)+

lemma find_queue_existing:
  assumes "mq_wf contents queue mq"
  shows "find_queue_offset queue create QUEUE_TB worker mq
    = (Some (qi_offset (mq_info queue mq)), mq_touch queue worker mq)"
  using mq_wfD(2,4) [OF assms]
  by (simp add: find_queue_offset_def mq_touch_def mq_upd_info_def mq_stat_def Let_def)

text \<open>Moving a position of one priority.\<close>

lemma mq_set_word_simps [simp]:
  "mq_map (mq_set_word i n v mq) = mq_map mq" "mq_store (mq_set_word i n v mq) = mq_store mq"
  "mq_info q (mq_set_word i n v mq) = mq_info q mq" "mq_now (mq_set_word i n v mq) = mq_now mq"
  by (simp_all add: mq_set_word_def mq_info_def)

lemma mq_stat_set_word:
  assumes "qi_offset (mq_info q mq) < length (mq_index mq)"
  shows "mq_stat q (mq_set_word (qi_offset (mq_info q mq)) n v mq) = q_set_word n v (mq_stat q mq)"
  using assms by (simp add: mq_stat_def) (simp add: mq_set_word_def)

lemma storage_put:
  assumes "storage_ok S contents" "st_put S k v t s = (r, s')"
  shows "j \<noteq> k \<Longrightarrow> contents s' j = contents s j" "r = 0 \<Longrightarrow> contents s' k = Some (v, t)"
proof -
  have "(\<forall>j. j \<noteq> k \<longrightarrow> contents s' j = contents s j) \<and> (r = 0 \<longrightarrow> contents s' k = Some (v, t))"
    by (rule conjunct1 [OF assms(1) [unfolded storage_ok_def], rule_format, OF assms(2)])
  then show "j \<noteq> k \<Longrightarrow> contents s' j = contents s j" "r = 0 \<Longrightarrow> contents s' k = Some (v, t)" by simp_all
qed

lemma storage_del:
  assumes "storage_ok S contents" "st_del S k s = (r, s')"
  shows "j \<noteq> k \<Longrightarrow> contents s' j = contents s j" "r = 0 \<Longrightarrow> contents s' k = None"
proof -
  have "(\<forall>j. j \<noteq> k \<longrightarrow> contents s' j = contents s j) \<and> (r = 0 \<longrightarrow> contents s' k = None)"
    by (rule conjunct1 [OF conjunct2 [OF assms(1) [unfolded storage_ok_def]], rule_format, OF assms(2)])
  then show "j \<noteq> k \<Longrightarrow> contents s' j = contents s j" "r = 0 \<Longrightarrow> contents s' k = None" by simp_all
qed

lemma storage_get:
  assumes "storage_ok S contents"
  shows "contents s k = Some (v, t) \<Longrightarrow> st_get S k s = (0, v, t)"
    "contents s k = None \<Longrightarrow> fst (st_get S k s) = ENOENT"
proof -
  have "case contents s k of Some (v, t) \<Rightarrow> st_get S k s = (0, v, t) | None \<Rightarrow> fst (st_get S k s) = ENOENT"
    using conjunct2 [OF conjunct2 [OF assms [unfolded storage_ok_def]]] by simp
  then show "contents s k = Some (v, t) \<Longrightarrow> st_get S k s = (0, v, t)"
    "contents s k = None \<Longrightarrow> fst (st_get S k s) = ENOENT" by simp_all
qed

lemma q_real_sum:
  assumes "q_wf st"
  shows "q_real st = q_len st 0 + q_len st 1 + q_len st 2"
proof -
  have "q_len st 0 \<le> 5000000" "q_len st 1 \<le> 5000000" "q_len st 2 \<le> 5000000"
    using q_wfD(3) [OF assms, of 0] q_wfD(3) [OF assms, of 1] q_wfD(3) [OF assms, of 2]
    by (simp_all add: MAX_QUEUE_ITEM_NUM_def)
  then show ?thesis by (simp add: q_real_def q_len_def q_word_def trunc_def)
qed

lemma q_len_less:
  assumes "q_wf st" "\<not> q_refuses st (q_real st)" "p \<le> 2"
  shows "q_len st p < MAX_QUEUE_ITEM_NUM"
proof -
  have "p = 0 \<or> p = 1 \<or> p = 2" using assms(3) by auto
  then show ?thesis using assms(2) q_real_sum [OF assms(1)] by (auto simp: q_refuses_def)
qed

text \<open>A message put under the next position of a priority.\<close>

lemma q_next_key:
  assumes "q_wf st" "p \<le> 2"
  shows "(q_word st (p * 2 + 1) + 1) mod CYCLE_QUEUE_ITEM_NUM
      = (q_word st (p * 2) + 1 + q_len st p) mod CYCLE_QUEUE_ITEM_NUM"
proof -
  have "(q_word st (p * 2 + 1) + 1) mod CYCLE_QUEUE_ITEM_NUM
      = ((q_word st (p * 2) + q_len st p) mod CYCLE_QUEUE_ITEM_NUM + 1) mod CYCLE_QUEUE_ITEM_NUM"
    by (simp only: q_wfD(4) [OF assms])
  also have "\<dots> = (q_word st (p * 2) + q_len st p + 1) mod CYCLE_QUEUE_ITEM_NUM"
    by (rule mod_add_left_eq)
  finally show ?thesis by (simp add: add.assoc add.commute)
qed

lemma mq_append:
  fixes mq :: "'s hustmq"
  assumes wf: "mq_wf contents queue mq" and p: "p \<le> 2"
    and len: "q_len (mq_stat queue mq) p < MAX_QUEUE_ITEM_NUM"
    and tag: "tag = (q_word (mq_stat queue mq) (p * 2 + 1) + 1) mod CYCLE_QUEUE_ITEM_NUM"
    and key: "contents (mq_store mq) (message_key queue (message_token p tag)) = Some (m, t)"
    and mq': "mq' = mq_set_word (qi_offset (mq_info queue mq)) (p * 2 + 1) tag mq"
  shows "mq_wf contents queue mq'"
    and "mq_ready contents queue mq' = (mq_ready contents queue mq)(p := mq_ready contents queue mq p @ [m])"
proof -
  let ?st = "mq_stat queue mq" and ?st' = "mq_stat queue mq'"
  note inv = mq_wfD [OF wf]
  have st': "?st' = q_set_word (p * 2 + 1) tag ?st" using mq_stat_set_word [OF inv(3)] by (simp add: mq')
  have k: "message_key queue (message_token p tag) = q_key queue ?st p (q_len ?st p)"
    by (simp only: q_key_def tag q_next_key [OF inv(5) p])
  have "tag = (q_word ?st (p * 2) + Suc (q_len ?st p)) mod CYCLE_QUEUE_ITEM_NUM"
    unfolding tag q_next_key [OF inv(5) p] by simp
  note w = q_wf_end [OF inv(5) p Suc_leI [OF len] this, folded st']
  have qk: "q_key queue ?st' p' i = q_key queue ?st p' i" if "p' \<le> 2" for p' i
    using w(4) [OF that] by (simp add: q_key_def)
  have c: "contents (mq_store mq') (q_key queue ?st' p' i) \<noteq> None" if "p' \<le> 2" "i < q_len ?st' p'" for p' i
    using inv(6) [of p' i] that key w(2) w(3) [of p'] unfolding qk [OF that(1)]
    by (cases "p' = p"; cases "i = q_len ?st p") (auto simp: mq' k)
  have "mq_map mq' queue \<noteq> None" "qi_offset (mq_info queue mq') < length (mq_index mq')"
    using wf inv(3) by (simp_all add: mq_wf_def mq') (simp add: mq_set_word_def)
  then show "mq_wf contents queue mq'"
    using inv(1,4) w(1) c unfolding mq_wf_def by (simp add: st')
  show "mq_ready contents queue mq' = (mq_ready contents queue mq)(p := mq_ready contents queue mq p @ [m])"
  proof
    fix p'
    show "mq_ready contents queue mq' p'
        = ((mq_ready contents queue mq)(p := mq_ready contents queue mq p @ [m])) p'"
      using p w(2) w(3) [of p'] key qk [of p'] by (auto simp: mq_ready_def k) (simp_all add: mq')
  qed
qed

text \<open>Taking the oldest message of a priority off its list.\<close>

lemma mq_remove:
  fixes mq :: "'s hustmq"
  assumes wf: "mq_wf contents queue mq" and p: "p \<le> 2" and len: "0 < q_len (mq_stat queue mq) p"
    and tag: "tag = (q_word (mq_stat queue mq) (p * 2) + 1) mod CYCLE_QUEUE_ITEM_NUM"
    and mq': "mq' = mq_set_word (qi_offset (mq_info queue mq)) (p * 2) tag mq"
  shows "mq_wf contents queue mq'"
    and "mq_ready contents queue mq' = (mq_ready contents queue mq)(p := tl (mq_ready contents queue mq p))"
    and "message_key queue (message_token p tag) = q_key queue (mq_stat queue mq) p 0"
    and "p' \<le> 2 \<Longrightarrow> i < q_len (mq_stat queue mq') p' \<Longrightarrow>
      q_key queue (mq_stat queue mq') p' i \<noteq> message_key queue (message_token p tag)"
proof -
  let ?st = "mq_stat queue mq" and ?st' = "mq_stat queue mq'"
  let ?d = "q_len ?st p - 1"
  note inv = mq_wfD [OF wf]
  have st': "?st' = q_set_word (p * 2) tag ?st" using mq_stat_set_word [OF inv(3)] by (simp add: mq')
  show k: "message_key queue (message_token p tag) = q_key queue ?st p 0" by (simp add: q_key_def tag)
  have "(tag + ?d) mod CYCLE_QUEUE_ITEM_NUM = (q_word ?st (p * 2) + 1 + ?d) mod CYCLE_QUEUE_ITEM_NUM"
    unfolding tag by (rule mod_add_left_eq)
  also have "\<dots> = q_word ?st (p * 2 + 1)" using q_wfD(4) [OF inv(5) p] len by simp
  finally have e: "q_word ?st (p * 2 + 1) = (tag + ?d) mod CYCLE_QUEUE_ITEM_NUM" by simp
  have t: "tag < CYCLE_QUEUE_ITEM_NUM" using tag by (simp add: CYCLE_QUEUE_ITEM_NUM_def)
  have d: "?d \<le> MAX_QUEUE_ITEM_NUM" using q_wfD(3) [OF inv(5) p] by simp
  note w = q_wf_start [OF inv(5) p t d e, folded st']
  have qk: "q_key queue ?st' p i = q_key queue ?st p (Suc i)" for i
  proof -
    have "(tag + 1 + i) mod CYCLE_QUEUE_ITEM_NUM
        = ((q_word ?st (p * 2) + 1) mod CYCLE_QUEUE_ITEM_NUM + (1 + i)) mod CYCLE_QUEUE_ITEM_NUM"
      by (simp add: tag)
    also have "\<dots> = (q_word ?st (p * 2) + 1 + (1 + i)) mod CYCLE_QUEUE_ITEM_NUM" by (rule mod_add_left_eq)
    finally show ?thesis using w(5) by (simp add: q_key_def)
  qed
  have qk': "q_key queue ?st' p' i = q_key queue ?st p' i" if "p' \<le> 2" "p' \<noteq> p" for p' i
    using w(4) [OF that] by (simp add: q_key_def)
  have c: "contents (mq_store mq') (q_key queue ?st' p' i) \<noteq> None" if "p' \<le> 2" "i < q_len ?st' p'" for p' i
    using inv(6) [of p' i] inv(6) [of p "Suc i"] that w(2) w(3) [of p'] qk qk' [of p' i] p
    by (cases "p' = p") (simp_all add: mq')
  have "mq_map mq' queue \<noteq> None" "qi_offset (mq_info queue mq') < length (mq_index mq')"
    using wf inv(3) by (simp_all add: mq_wf_def mq') (simp add: mq_set_word_def)
  then show "mq_wf contents queue mq'"
    using inv(1,4) w(1) c unfolding mq_wf_def by (simp add: st')
  show "mq_ready contents queue mq' = (mq_ready contents queue mq)(p := tl (mq_ready contents queue mq p))"
  proof
    fix p'
    have sh: "tl (map f [0..<n]) = map (\<lambda>i. f (Suc i)) [0..<n - 1]" for f :: "nat \<Rightarrow> bytes" and n
      by (cases n) (simp_all add: upt_conv_Cons map_Suc_upt [symmetric] del: upt_Suc)
    show "mq_ready contents queue mq' p'
        = ((mq_ready contents queue mq)(p := tl (mq_ready contents queue mq p))) p'"
      using p w(2) w(3) [of p'] qk qk' [of p'] by (auto simp: mq_ready_def sh) (simp_all add: mq')
  qed
  show "q_key queue ?st' p' i \<noteq> message_key queue (message_token p tag)"
    if p': "p' \<le> 2" "i < q_len ?st' p'"
  proof (cases "p' = p")
    case True
    have "Suc i \<le> MAX_QUEUE_ITEM_NUM" using p'(2) w(2) q_wfD(3) [OF inv(5) p] True by simp
    then show ?thesis using True q_key_inj [of "Suc i" 0 queue ?st p p] by (simp add: k qk)
  next
    case False
    have "i \<le> MAX_QUEUE_ITEM_NUM"
      using p' w(3) [OF p'(1) False] q_wfD(3) [OF inv(5) p'(1)] by simp
    then show ?thesis using False q_key_inj [of i 0 queue ?st p' p] by (simp add: k qk' [OF p'(1) False])
  qed
qed

lemma hustmq_put_correct:
  assumes S: "storage_ok S contents" and wf: "mq_wf contents queue mq" and p: "p \<le> 2" and m: "m \<noteq> []"
    and put: "hustmq_put S queue m p mq = (r, mq')"
  shows "mq_wf contents queue mq'"
    and "mq_ready contents queue mq' = (if r = 0 then (mq_ready contents queue mq)(p := mq_ready contents queue mq p @ [m])
       else mq_ready contents queue mq)"
    and "qi_redelivery (mq_info queue mq') = qi_redelivery (mq_info queue mq)"
proof -
  let ?mq1 = "mq_touch queue [] mq" and ?st = "mq_stat queue mq"
  let ?tag = "(q_word ?st (p * 2 + 1) + 1) mod CYCLE_QUEUE_ITEM_NUM"
  let ?k = "message_key queue (message_token p ?tag)"
  note inv = mq_wfD [OF wf] and t = mq_touch_wf [OF wf, of "[]"]
  have st: "mq_index mq ! qi_offset (mq_info queue mq) = ?st" by (simp add: mq_stat_def)
  obtain r1 s where sp: "st_put S ?k m 0 (mq_store mq) = (r1, s)" by force
  define mq2 where "mq2 = ?mq1\<lparr>mq_store := s\<rparr>"
  have cases: "r \<noteq> 0 \<and> mq' = mq \<or> r \<noteq> 0 \<and> mq' = ?mq1 \<or> r \<noteq> 0 \<and> mq' = mq2
      \<or> r = 0 \<and> r1 = 0 \<and> \<not> q_refuses ?st (q_real ?st)
        \<and> mq' = mq_set_word (qi_offset (mq_info queue mq)) (p * 2 + 1) ?tag mq2"
    using put p m inv(1) sp
    by (auto simp: hustmq_put_def find_queue_existing [OF wf] st Let_def mq2_def split: if_splits)
  have k: "?k = q_key queue ?st p (q_len ?st p)" by (simp only: q_key_def q_next_key [OF inv(5) p])
  have ne: "q_key queue ?st p' i \<noteq> ?k" if "p' \<le> 2" "i < q_len ?st p'" for p' i
  proof -
    have "i \<le> MAX_QUEUE_ITEM_NUM" using q_wfD(3) [OF inv(5) that(1)] that(2) by simp
    then have "q_key queue ?st p' i = q_key queue ?st p (q_len ?st p) \<longleftrightarrow> p' = p \<and> i = q_len ?st p"
      by (rule q_key_inj [OF _ q_wfD(3) [OF inv(5) p]])
    then show ?thesis using that(2) by (simp only: k) auto
  qed
  have info: "mq_info queue mq2 = mq_info queue ?mq1" "mq_map mq2 = mq_map ?mq1" "mq_index mq2 = mq_index mq"
    "mq_store mq2 = s"
    by (simp_all add: mq2_def mq_info_def)
  have cong: "contents (mq_store mq2) (q_key queue ?st p' i) = contents (mq_store mq) (q_key queue ?st p' i)"
    if "p' \<le> 2" "i < q_len ?st p'" for p' i
    using storage_put(1) [OF S sp ne [OF that]] info(4) by simp
  have "mq_map mq2 queue \<noteq> None" "qi_offset (mq_info queue mq2) = qi_offset (mq_info queue mq)"
    by (simp_all add: info)
  then have wf2: "mq_wf contents queue mq2" "mq_ready contents queue mq2 = mq_ready contents queue mq"
      "mq_stat queue mq2 = ?st"
    using mq_wf_store [OF wf info(3)] cong by blast+
  have "mq_wf contents queue mq'
    \<and> mq_ready contents queue mq' = (if r = 0 then (mq_ready contents queue mq)(p := mq_ready contents queue mq p @ [m])
       else mq_ready contents queue mq)
    \<and> qi_redelivery (mq_info queue mq') = qi_redelivery (mq_info queue mq)"
    using cases
  proof (elim disjE)
    assume ok: "r = 0 \<and> r1 = 0 \<and> \<not> q_refuses ?st (q_real ?st)
        \<and> mq' = mq_set_word (qi_offset (mq_info queue mq)) (p * 2 + 1) ?tag mq2"
    have len: "q_len (mq_stat queue mq2) p < MAX_QUEUE_ITEM_NUM"
      using q_len_less [OF inv(5) _ p] ok by (simp add: wf2(3))
    have key: "contents (mq_store mq2) ?k = Some (m, 0)"
      using storage_put(2) [OF S sp] ok info(4) by simp
    have "mq' = mq_set_word (qi_offset (mq_info queue mq2)) (p * 2 + 1) ?tag mq2"
      using ok by (simp add: info)
    from mq_append [OF wf2(1) p len, unfolded wf2(3), OF refl key this] ok
    show ?thesis by (simp add: wf2(2) info)
  qed (use wf t wf2 info in auto)
  then show "mq_wf contents queue mq'"
    "mq_ready contents queue mq' = (if r = 0 then (mq_ready contents queue mq)(p := mq_ready contents queue mq p @ [m])
       else mq_ready contents queue mq)"
    "qi_redelivery (mq_info queue mq') = qi_redelivery (mq_info queue mq)" by blast+
qed

lemma mq_pick_ready:
  assumes "qi_redelivery (mq_info queue mq) = []
    \<or> int (mq_now mq) - int (fst (hd (qi_redelivery (mq_info queue mq)))) < int (q_timeout (mq_stat queue mq) * 60)"
  shows "mq_pick queue (qi_offset (mq_info queue mq)) mq =
    (case pq_next (mq_ready contents queue mq) of
       None \<Rightarrow> None
     | Some p \<Rightarrow> let tag = (q_word (mq_stat queue mq) (p * 2) + 1) mod CYCLE_QUEUE_ITEM_NUM in
         Some (message_token p tag, mq_set_word (qi_offset (mq_info queue mq)) (p * 2) tag mq))"
proof -
  have r: "mq_ready contents queue mq p \<noteq> [] \<longleftrightarrow> 0 < q_len (mq_stat queue mq) p" if "p \<le> 2" for p
    using that by (simp add: mq_ready_def)
  have l: "q_len (mq_stat queue mq) 2 = clac_real_item (q_sp2 (mq_stat queue mq)) (q_ep2 (mq_stat queue mq))"
    "q_len (mq_stat queue mq) 1 = clac_real_item (q_sp1 (mq_stat queue mq)) (q_ep1 (mq_stat queue mq))"
    "q_len (mq_stat queue mq) 0 = clac_real_item (q_sp (mq_stat queue mq)) (q_ep (mq_stat queue mq))"
    by (simp_all add: q_len_def q_word_def)
  have st: "mq_index mq ! qi_offset (mq_info queue mq) = mq_stat queue mq" by (simp add: mq_stat_def)
  have nd: "\<not> (qi_redelivery (mq_info queue mq) \<noteq> []
      \<and> int (mq_now mq) - int (fst (hd (qi_redelivery (mq_info queue mq)))) \<ge> int (q_timeout (mq_stat queue mq) * 60))"
    using assms by auto
  show ?thesis
    unfolding mq_pick_def pq_next_def Let_def st if_not_P [OF nd] l [symmetric]
    using r [of 0] r [of 1] r [of 2] by (simp add: q_word_def)
qed

text \<open>Delivery of the next message, with or without automatic acknowledgement.\<close>

lemma hustmq_get_ready:
  fixes mq :: "'s hustmq"
  assumes S: "storage_ok S contents" and wf: "mq_wf contents queue mq"
    and w: "worker_ok worker"
    and nd: "qi_redelivery (mq_info queue mq) = []
      \<or> int (mq_now mq) - int (fst (hd (qi_redelivery (mq_info queue mq)))) < int (q_timeout (mq_stat queue mq) * 60)"
    and p: "pq_next (mq_ready contents queue mq) = Some p"
  obtains mq2 tag t where "mq_wf contents queue mq2"
    "mq_ready contents queue mq2 = (mq_ready contents queue mq)(p := tl (mq_ready contents queue mq p))"
    "tag = (q_word (mq_stat queue mq) (p * 2) + 1) mod CYCLE_QUEUE_ITEM_NUM" "p \<le> 2"
    "mq2 = mq_set_word (qi_offset (mq_info queue mq)) (p * 2) tag (mq_touch queue worker mq)"
    "contents (mq_store mq2) (message_key queue (message_token p tag)) = Some (hd (mq_ready contents queue mq p), t)"
    "\<forall>p'\<le>2. \<forall>i<q_len (mq_stat queue mq2) p'. q_key queue (mq_stat queue mq2) p' i \<noteq> message_key queue (message_token p tag)"
    "mq_info queue mq2 = mq_info queue (mq_touch queue worker mq)" "mq_store mq2 = mq_store mq" "mq_now mq2 = mq_now mq"
    "q_timeout (mq_stat queue mq2) = q_timeout (mq_stat queue mq)"
    "hustmq_get S queue worker is_ack mq =
       (if is_ack then (\<lparr>rp_code = 0, rp_ack = message_key queue (message_token p tag), rp_unacked = [],
                        rp_item = hd (mq_ready contents queue mq p)\<rparr>, mq2)
        else let info = mq_info queue mq2; now = trunc 32 (mq_now mq) in
             (\<lparr>rp_code = 0, rp_ack = message_key queue (message_token p tag), rp_unacked = message_token p tag,
               rp_item = hd (mq_ready contents queue mq p)\<rparr>,
              mq_upd_info queue (info\<lparr>qi_unacked := map_insert (message_token p tag) now (qi_unacked info),
                qi_redelivery := multimap_insert now (message_token p tag) (qi_redelivery info)\<rparr>) mq2))"
proof -
  let ?mq1 = "mq_touch queue worker mq" and ?st = "mq_stat queue mq"
  define tag where "tag = (q_word ?st (p * 2) + 1) mod CYCLE_QUEUE_ITEM_NUM"
  define mq2 where "mq2 = mq_set_word (qi_offset (mq_info queue mq)) (p * 2) tag ?mq1"
  note inv = mq_wfD [OF wf] and t1 = mq_touch_wf [OF wf, of worker]
  have p2: "p \<le> 2" using p by (auto simp: pq_next_def split: if_splits)
  have len: "0 < q_len ?st p" and nn: "mq_ready contents queue mq p \<noteq> []"
    using p p2 by (auto simp: pq_next_def mq_ready_def split: if_splits)
  note rm = mq_remove [OF t1(1) p2, unfolded mq_touch_simps, OF len tag_def mq2_def]
  have st2: "mq_info queue mq2 = mq_info queue ?mq1" "mq_store mq2 = mq_store mq" "mq_now mq2 = mq_now mq"
    "q_timeout (mq_stat queue mq2) = q_timeout ?st"
    using mq_stat_set_word [of queue ?mq1] inv(3)
    by (simp_all add: mq2_def tag_def CYCLE_QUEUE_ITEM_NUM_def)
  obtain m t where c: "contents (mq_store mq) (q_key queue ?st p 0) = Some (m, t)"
    using inv(6) [OF p2 len] by auto
  have m: "m = hd (mq_ready contents queue mq p)"
    using c len p2 by (simp add: mq_ready_def upt_conv_Cons del: upt_Suc)
  have pick: "mq_pick queue (qi_offset (mq_info queue mq)) ?mq1 = Some (message_token p tag, mq2)"
    using mq_pick_ready [of queue ?mq1 contents] nd p t1(2) by (simp add: Let_def tag_def mq2_def)
  have key: "q_key queue ?st p 0 = message_key queue (message_token p tag)"
    by (simp add: q_key_def tag_def)
  have get: "st_get S (message_key queue (message_token p tag)) (mq_store mq2) = (0, m, t)"
    using storage_get(1) [OF S c] key st2(2) by simp
  have tk: "drop (length queue + 1) (message_key queue (message_token p tag)) = message_token p tag"
    by (simp add: message_key_def)
  have "hustmq_get S queue worker is_ack mq =
       (if is_ack then (\<lparr>rp_code = 0, rp_ack = message_key queue (message_token p tag), rp_unacked = [],
                        rp_item = m\<rparr>, mq2)
        else let info = mq_info queue mq2; now = trunc 32 (mq_now mq) in
             (\<lparr>rp_code = 0, rp_ack = message_key queue (message_token p tag), rp_unacked = message_token p tag,
               rp_item = m\<rparr>,
              mq_upd_info queue (info\<lparr>qi_unacked := map_insert (message_token p tag) now (qi_unacked info),
                qi_redelivery := multimap_insert now (message_token p tag) (qi_redelivery info)\<rparr>) mq2))"
    using inv(1) w tk st2(3) by (simp add: worker_ok_def hustmq_get_def find_queue_existing [OF wf] pick get Let_def)
  then show thesis
    using rm t1(2) c key p2 st2 tag_def mq2_def unfolding m
    by (intro that [of mq2 tag t]) simp_all
qed

lemma hustmq_get_empty:
  assumes wf: "mq_wf contents queue mq"
    and w: "worker_ok worker"
    and nd: "qi_redelivery (mq_info queue mq) = []
      \<or> int (mq_now mq) - int (fst (hd (qi_redelivery (mq_info queue mq)))) < int (q_timeout (mq_stat queue mq) * 60)"
    and p: "pq_next (mq_ready contents queue mq) = None"
  shows "hustmq_get S queue worker is_ack mq = (mq_error ENOENT, mq_touch queue worker mq)"
proof -
  have "mq_pick queue (qi_offset (mq_info queue mq)) (mq_touch queue worker mq) = None"
    using mq_pick_ready [of queue "mq_touch queue worker mq" contents] nd p mq_touch_wf(2) [OF wf] by simp
  then show ?thesis
    using mq_wfD(1) [OF wf] w by (simp add: worker_ok_def hustmq_get_def find_queue_existing [OF wf])
qed

lemma mq_get_acked_correct:
  assumes inv: "mq_inv S contents queue worker mq" and g: "mq_get_acked S queue worker mq = (r, m, mq')"
  shows "mq_inv S contents queue worker mq' \<and>
    (case pq_next (mq_ready contents queue mq) of
       None \<Rightarrow> r = ENOENT \<and> mq_ready contents queue mq' = mq_ready contents queue mq
     | Some p \<Rightarrow> r = 0 \<and> m = hd (mq_ready contents queue mq p)
         \<and> mq_ready contents queue mq' = (mq_ready contents queue mq)(p := tl (mq_ready contents queue mq p)))"
proof -
  from inv have S: "storage_ok S contents" and w: "worker_ok worker" and wf: "mq_wf contents queue mq"
    and re: "qi_redelivery (mq_info queue mq) = []" by (simp_all add: mq_inv_def)
  note nd = disjI1 [OF re, of "int (mq_now mq) - int (fst (hd (qi_redelivery (mq_info queue mq))))
    < int (q_timeout (mq_stat queue mq) * 60)"]
  show ?thesis
  proof (cases "pq_next (mq_ready contents queue mq)")
    case None
    have "r = ENOENT" "mq' = mq_touch queue worker mq"
      using g hustmq_get_empty [OF wf w nd None, of S True]
      by (simp_all add: mq_get_acked_def hustmq_get_handler_def mq_error_def)
    then show ?thesis using None S w re mq_touch_wf [OF wf, of worker] by (simp add: mq_inv_def)
  next
    case (Some p)
    obtain mq2 tag t where f: "mq_wf contents queue mq2"
      "mq_ready contents queue mq2 = (mq_ready contents queue mq)(p := tl (mq_ready contents queue mq p))"
      "\<forall>p'\<le>2. \<forall>i<q_len (mq_stat queue mq2) p'. q_key queue (mq_stat queue mq2) p' i \<noteq> message_key queue (message_token p tag)"
      "mq_info queue mq2 = mq_info queue (mq_touch queue worker mq)"
      "hustmq_get S queue worker True mq = (\<lparr>rp_code = 0, rp_ack = message_key queue (message_token p tag), rp_unacked = [],
                        rp_item = hd (mq_ready contents queue mq p)\<rparr>, mq2)"
      by (rule hustmq_get_ready [OF S wf w nd Some, of True]) simp
    obtain r1 s where d: "st_del S (message_key queue (message_token p tag)) (mq_store mq2) = (r1, s)" by force
    have m': "r = 0" "m = hd (mq_ready contents queue mq p)" "mq' = mq2\<lparr>mq_store := s\<rparr>"
      using g d by (simp_all add: mq_get_acked_def hustmq_get_handler_def f(5) hustmq_ack_inner_def)
    have "\<forall>p'\<le>2. \<forall>i<q_len (mq_stat queue mq2) p'.
        contents (mq_store mq') (q_key queue (mq_stat queue mq2) p' i)
          = contents (mq_store mq2) (q_key queue (mq_stat queue mq2) p' i)"
      using f(3) storage_del(1) [OF S d] by (simp add: m'(3))
    moreover have "mq_index mq' = mq_index mq2" "mq_map mq' queue \<noteq> None"
      "qi_offset (mq_info queue mq') = qi_offset (mq_info queue mq2)" "mq_info queue mq' = mq_info queue mq2"
      using mq_wfD(2) [OF f(1)] by (auto simp: m'(3) mq_info_def)
    ultimately have "mq_wf contents queue mq'" "mq_ready contents queue mq' = mq_ready contents queue mq2"
      "mq_info queue mq' = mq_info queue mq2"
      using mq_wf_store [OF f(1)] by blast+
    then show ?thesis using m' f(2,4) S w re Some by (simp add: mq_inv_def)
  qed
qed

interpretation hmq: message_queue
  "\<lambda>p m. hustmq_put S queue m p" "mq_get_acked S queue worker" "mq_inv S contents queue worker"
  "mq_ready contents queue" for S contents queue worker
proof unfold_locales
  fix s s' p m r
  assume i: "mq_inv S contents queue worker s" and p: "p \<le> 2" "m \<noteq> []" and e: "hustmq_put S queue m p s = (r, s')"
  note c = hustmq_put_correct [OF _ _ p e, of contents]
  show "mq_inv S contents queue worker s'" using i c by (simp add: mq_inv_def)
  show "mq_ready contents queue s' = (if r = 0
      then (mq_ready contents queue s)(p := mq_ready contents queue s p @ [m]) else mq_ready contents queue s)"
    using i c by (simp add: mq_inv_def)
next
  fix s r m s'
  assume i: "mq_inv S contents queue worker s" and e: "mq_get_acked S queue worker s = (r, m, s')"
  note c = mq_get_acked_correct [OF i e]
  show "mq_inv S contents queue worker s'" by (rule conjunct1 [OF c])
  show "case pq_next (mq_ready contents queue s) of
      None \<Rightarrow> r = ENOENT \<and> mq_ready contents queue s' = mq_ready contents queue s
    | Some p \<Rightarrow> r = 0 \<and> m = hd (mq_ready contents queue s p)
        \<and> mq_ready contents queue s' = (mq_ready contents queue s)(p := tl (mq_ready contents queue s p))"
    by (rule conjunct2 [OF c])
qed

end
