(* ===== verification/Hustmq_Example.thy ===== *)
theory Hustmq_Example
  imports Hustmq_Fifo "HOL-Library.Code_Target_Nat"
begin

text \<open>
  A storage with the contract of \<open>Hustmq_Fifo\<close> and a small queue on it, at which the
  properties of the queues are evaluated.
\<close>

section \<open>A storage for examples\<close>

text \<open>An association list with the storage interface.\<close>

definition alist_storage :: "(bytes \<times> bytes \<times> nat) list storage" where
  "alist_storage =
     \<lparr>st_put = (\<lambda>k v t s. (0, (k, v, t) # s)),
      st_get = (\<lambda>k s. case map_of s k of None \<Rightarrow> (ENOENT, [], 0) | Some (v, t) \<Rightarrow> (0, v, t)),
      st_del = (\<lambda>k s. (0, filter (\<lambda>e. fst e \<noteq> k) s))\<rparr>"

definition ex_queue :: bytes where
  "ex_queue = [0x71]"

definition ex_worker :: bytes where
  "ex_worker = [0x77, 0x77, 0x77, 0x77, 0x77]"

definition ex_mq :: "(bytes \<times> bytes \<times> nat) list hustmq" where
  "ex_mq = \<lparr>mq_index = [queue_stat_zero\<lparr>q_flag := 1, q_timeout := 5, q_name := ex_queue\<rparr>],
     mq_map = (\<lambda>_. None)(ex_queue := Some (new_queue_info 0)), mq_now = 1000, mq_over_threshold = False,
     mq_redelivery_timeout = 5, mq_ttl_maximum = 100, mq_store = []\<rparr>"

text \<open>The queue with two messages of priority 0.\<close>

definition ex_mq2 :: "(bytes \<times> bytes \<times> nat) list hustmq" where
  "ex_mq2 = snd (hustmq_put alist_storage ex_queue [2] 0 (snd (hustmq_put alist_storage ex_queue [1] 0 ex_mq)))"

lemma map_of_filter_key: "map_of (filter (\<lambda>e. fst e \<noteq> k) s) = (map_of s)(k := None)"
  by (induction s) (auto simp: fun_eq_iff)

lemma alist_storage_ok: "storage_ok alist_storage map_of"
  by (auto simp: storage_ok_def alist_storage_def map_of_filter_key split: option.split)

lemma ex_mq_inv: "mq_inv alist_storage map_of ex_queue ex_worker ex_mq"
  using alist_storage_ok
  by (simp add: mq_inv_def mq_wf_def worker_ok_def ex_mq_def ex_queue_def ex_worker_def mq_info_def mq_stat_def
      new_queue_info_def q_wf_def q_len_def q_word_def clac_real_item_def queue_stat_zero_def
      tb_name_check_def tb_name_char_def width_simps)

lemma ex_mq2_inv: "mq_inv alist_storage map_of ex_queue ex_worker ex_mq2"
proof -
  have "mq_inv alist_storage map_of ex_queue ex_worker (snd (hustmq_put alist_storage ex_queue m 0 mq))"
    if "mq_inv alist_storage map_of ex_queue ex_worker mq" "m \<noteq> []" for m mq
    by (rule hmq.put_inv [OF that(1) _ that(2)]) (simp_all add: prod_eq_iff)
  then show ?thesis using ex_mq_inv by (simp add: ex_mq2_def)
qed

end
