(* ===== verification/Hustmq_Registry.thy ===== *)
theory Hustmq_Registry
  imports Hustmq_Example
begin

text \<open>
  The two records of which queues exist: the queue index file and the map in memory. Every
  request of the queue interface as a command, the invariant that the two agree, what a
  restart recovers from the file, and that requests on one queue do not touch another.
\<close>

section \<open>Requests\<close>

datatype mq_cmd =
    C_Put bytes bytes nat
  | C_Get bytes bytes bool
  | C_Ack bytes bytes
  | C_Worker bytes
  | C_Stat bytes
  | C_Max bytes nat
  | C_Lock bytes nat
  | C_Timeout bytes nat
  | C_Purge bytes nat
  | C_Pub bytes bytes nat nat
  | C_Sub bytes nat
  | C_Tick nat

text \<open>The clock moves between requests.\<close>

fun mq_exec :: "'s storage \<Rightarrow> mq_cmd \<Rightarrow> 's hustmq \<Rightarrow> 's hustmq" where
  "mq_exec S (C_Put q m p) mq = snd (hustmq_put S q m p mq)"
| "mq_exec S (C_Get q w a) mq = snd (hustmq_get_handler S q w a mq)"
| "mq_exec S (C_Ack q a) mq = snd (hustmq_ack S q a mq)"
| "mq_exec S (C_Worker q) mq = snd (snd (hustmq_worker q mq))"
| "mq_exec S (C_Stat q) mq = snd (snd (snd (snd (hustmq_stat q mq))))"
| "mq_exec S (C_Max q n) mq = snd (hustmq_max q n mq)"
| "mq_exec S (C_Lock q n) mq = snd (hustmq_lock q n mq)"
| "mq_exec S (C_Timeout q n) mq = snd (hustmq_timeout q n mq)"
| "mq_exec S (C_Purge q p) mq = snd (hustmq_purge S q p mq)"
| "mq_exec S (C_Pub q m i t) mq = snd (hustmq_pub S q m i t mq)"
| "mq_exec S (C_Sub q i) mq = snd (snd (snd (snd (hustmq_sub S q i mq))))"
| "mq_exec S (C_Tick n) mq = mq\<lparr>mq_now := mq_now mq + n\<rparr>"

fun cmd_queue :: "mq_cmd \<Rightarrow> bytes option" where
  "cmd_queue (C_Put q _ _) = Some q"
| "cmd_queue (C_Get q _ _) = Some q"
| "cmd_queue (C_Ack q _) = Some q"
| "cmd_queue (C_Worker q) = Some q"
| "cmd_queue (C_Stat q) = Some q"
| "cmd_queue (C_Max q _) = Some q"
| "cmd_queue (C_Lock q _) = Some q"
| "cmd_queue (C_Timeout q _) = Some q"
| "cmd_queue (C_Purge q _) = Some q"
| "cmd_queue (C_Pub q _ _ _) = Some q"
| "cmd_queue (C_Sub q _) = Some q"
| "cmd_queue (C_Tick _) = None"

section \<open>The invariant\<close>

text \<open>
  A queue of the map has an entry in use with its name, and the name of every entry in use
  is mapped to that entry.
\<close>

definition mq_registry :: "'s hustmq \<Rightarrow> bool" where
  "mq_registry mq \<longleftrightarrow>
     (\<forall>q info. mq_map mq q = Some info \<longrightarrow> qi_offset info < length (mq_index mq)
        \<and> 0 < q_flag (mq_index mq ! qi_offset info) \<and> q_name (mq_index mq ! qi_offset info) = q)
     \<and> (\<forall>i<length (mq_index mq). 0 < q_flag (mq_index mq ! i) \<longrightarrow>
          map_option qi_offset (mq_map mq (q_name (mq_index mq ! i))) = Some i)"

lemma mq_registryD:
  assumes "mq_registry mq"
  shows "mq_map mq q = Some info \<Longrightarrow> qi_offset info < length (mq_index mq)"
    "mq_map mq q = Some info \<Longrightarrow> 0 < q_flag (mq_index mq ! qi_offset info)"
    "mq_map mq q = Some info \<Longrightarrow> q_name (mq_index mq ! qi_offset info) = q"
    "i < length (mq_index mq) \<Longrightarrow> 0 < q_flag (mq_index mq ! i) \<Longrightarrow>
       map_option qi_offset (mq_map mq (q_name (mq_index mq ! i))) = Some i"
  using assms unfolding mq_registry_def by blast+

text \<open>Steps that change neither which entries are in use nor where a queue is.\<close>

definition mq_kept :: "'s hustmq \<Rightarrow> 's hustmq \<Rightarrow> bool" where
  "mq_kept mq mq' \<longleftrightarrow> length (mq_index mq') = length (mq_index mq)
     \<and> (\<forall>i<length (mq_index mq). q_flag (mq_index mq' ! i) = q_flag (mq_index mq ! i)
          \<and> q_name (mq_index mq' ! i) = q_name (mq_index mq ! i))
     \<and> (\<forall>q. map_option qi_offset (mq_map mq' q) = map_option qi_offset (mq_map mq q))"

lemma mq_kept_refl [simp, intro]: "mq_kept mq mq"
  by (simp add: mq_kept_def)

lemma mq_kept_trans [trans]: "mq_kept a b \<Longrightarrow> mq_kept b c \<Longrightarrow> mq_kept a c"
  by (simp add: mq_kept_def)

lemma mq_registry_offset:
  "mq_registry mq \<longleftrightarrow>
     (\<forall>q i. map_option qi_offset (mq_map mq q) = Some i \<longrightarrow> i < length (mq_index mq)
        \<and> 0 < q_flag (mq_index mq ! i) \<and> q_name (mq_index mq ! i) = q)
     \<and> (\<forall>i<length (mq_index mq). 0 < q_flag (mq_index mq ! i) \<longrightarrow>
          map_option qi_offset (mq_map mq (q_name (mq_index mq ! i))) = Some i)"
  by (auto simp: mq_registry_def)

lemma mq_registry_kept: "mq_registry mq \<Longrightarrow> mq_kept mq mq' \<Longrightarrow> mq_registry mq'"
  unfolding mq_registry_offset mq_kept_def by (metis (no_types, lifting))

lemma mq_kept_store [simp]: "mq_kept mq (mq'\<lparr>mq_store := s\<rparr>) = mq_kept mq mq'"
  "mq_kept mq (mq'\<lparr>mq_now := t\<rparr>) = mq_kept mq mq'"
  by (simp_all add: mq_kept_def)

lemma mq_kept_index:
  assumes "mq_kept mq mq'" "q_flag st = q_flag (mq_index mq' ! i)" "q_name st = q_name (mq_index mq' ! i)"
  shows "mq_kept mq (mq'\<lparr>mq_index := (mq_index mq')[i := st]\<rparr>)"
  using assms by (cases "i < length (mq_index mq')") (auto simp: mq_kept_def nth_list_update)

lemma mq_kept_set_word: "mq_kept mq mq' \<Longrightarrow> mq_kept mq (mq_set_word i n v mq')"
  unfolding mq_set_word_def by (rule mq_kept_index) (simp_all add: q_set_word_def)

lemma mq_kept_upd_info:
  assumes "mq_kept mq mq'" "mq_map mq' q = Some info" "qi_offset info' = qi_offset info"
  shows "mq_kept mq (mq_upd_info q info' mq')"
proof -
  have "map_option qi_offset (mq_map mq q) = Some (qi_offset info')" using assms by (metis mq_kept_def option.simps(9))
  then show ?thesis using assms(1) by (auto simp: mq_kept_def mq_upd_info_def)
qed

lemma mq_kept_map: "mq_kept mq mq' \<Longrightarrow> mq_map mq q = Some info \<Longrightarrow>
    \<exists>info'. mq_map mq' q = Some info' \<and> qi_offset info' = qi_offset info"
  unfolding mq_kept_def by (metis (no_types, lifting) map_option_eq_Some)

section \<open>Finding and creating a queue\<close>

text \<open>The registry with an unused entry taken for a new queue.\<close>

lemma mq_registry_create:
  assumes reg: "mq_registry mq" and new: "mq_map mq q = None" and i: "i < length (mq_index mq)" "q_flag (mq_index mq ! i) = 0"
    and st: "0 < q_flag st" "q_name st = q"
  shows "mq_registry (mq\<lparr>mq_map := (mq_map mq)(q := Some (new_queue_info i)), mq_index := (mq_index mq)[i := st]\<rparr>)"
proof -
  have "qi_offset info \<noteq> i" if "mq_map mq q' = Some info" for q' info
    using mq_registryD(2) [OF reg that] i(2) by auto
  moreover have "q_name (mq_index mq ! j) \<noteq> q" if "j < length (mq_index mq)" "0 < q_flag (mq_index mq ! j)" for j
    using mq_registryD(4) [OF reg that] new by auto
  ultimately show ?thesis
    using reg i st unfolding mq_registry_def by (auto simp: new_queue_info_def nth_list_update)
qed

lemma find_queue_registry:
  assumes reg: "mq_registry mq" and f: "find_queue_offset q create ty w mq = (r, mq1)"
  shows "mq_registry mq1" and "r = Some i \<Longrightarrow> map_option qi_offset (mq_map mq1 q) = Some i"
proof -
  have "mq_registry mq1 \<and> (r = Some i \<longrightarrow> map_option qi_offset (mq_map mq1 q) = Some i)"
  proof (cases "mq_map mq q")
    case (Some info)
    have "mq_kept mq (mq\<lparr>mq_map := (mq_map mq)(q := Some (info\<lparr>qi_worker := x\<rparr>))\<rparr>)" for x
      using Some by (simp add: mq_kept_def)
    then show ?thesis
      using f Some mq_registry_kept [OF reg] by (auto simp: find_queue_offset_def Let_def split: if_splits)
  next
    case None
    have nf: "find (\<lambda>i. q_flag (mq_index mq ! i) > 0 \<and> q_name (mq_index mq ! i) = q) [0..<length (mq_index mq)] = None"
      using mq_registryD(4) [OF reg] None by (fastforce simp: find_None_iff)
    show ?thesis
    proof (cases "find (\<lambda>i. q_flag (mq_index mq ! i) = 0) [0..<length (mq_index mq)]")
      case N: None
      then show ?thesis using f None nf reg by (auto simp: find_queue_offset_def split: if_splits)
    next
      case (Some j)
      then have j: "j < length (mq_index mq)" "q_flag (mq_index mq ! j) = 0"
        by (auto simp: find_Some_iff)
      show ?thesis
        using f None nf Some reg mq_registry_create [OF reg None j]
        by (auto simp: find_queue_offset_def new_queue_info_def split: if_splits)
    qed
  qed
  then show "mq_registry mq1" "r = Some i \<Longrightarrow> map_option qi_offset (mq_map mq1 q) = Some i" by auto
qed

section \<open>Every request keeps the registry\<close>

lemma mq_registry_store [simp]:
  "mq_registry (mq\<lparr>mq_store := s\<rparr>) = mq_registry mq" "mq_registry (mq\<lparr>mq_now := t\<rparr>) = mq_registry mq"
  by (simp_all add: mq_registry_def)

lemma mq_registry_set_word [simp]: "mq_registry mq \<Longrightarrow> mq_registry (mq_set_word i n v mq)"
  by (rule mq_registry_kept [OF _ mq_kept_set_word [OF mq_kept_refl]])

lemma mq_registry_index:
  assumes "mq_registry mq" "q_flag st = q_flag (mq_index mq ! i)" "q_name st = q_name (mq_index mq ! i)"
  shows "mq_registry (mq\<lparr>mq_index := (mq_index mq)[i := st]\<rparr>)"
  by (rule mq_registry_kept [OF assms(1) mq_kept_index [OF mq_kept_refl assms(2,3)]])

lemma mq_registry_upd_info:
  assumes "mq_registry mq" "mq_map mq q \<noteq> None" "qi_offset info = qi_offset (mq_info q mq)"
  shows "mq_registry (mq_upd_info q info mq)"
proof -
  from assms(2) obtain info' where "mq_map mq q = Some info'" by auto
  then show ?thesis
    using assms(1,3) mq_kept_upd_info [OF mq_kept_refl, of mq q info' info] mq_registry_kept by (auto simp: mq_info_def)
qed

lemma mq_pick_registry:
  assumes "mq_registry mq" "mq_map mq q \<noteq> None" "mq_pick q i mq = Some (token, mq')"
  shows "mq_registry mq' \<and> mq_map mq' q \<noteq> None"
  using assms by (auto simp: mq_pick_def Let_def split: if_splits intro!: mq_registry_upd_info)

lemma put_registry: "mq_registry mq \<Longrightarrow> mq_registry (snd (hustmq_put S q m p mq))"
  using find_queue_registry(1) [of mq q True QUEUE_TB "[]"]
  by (auto simp: hustmq_put_def Let_def split: prod.split option.split)

lemma get_registry:
  assumes reg: "mq_registry mq"
  shows "mq_registry (snd (hustmq_get S q w a mq))"
proof -
  obtain r mq1 where f: "find_queue_offset q False QUEUE_TB w mq = (r, mq1)" by force
  have reg1: "mq_registry mq1" "r = Some i \<Longrightarrow> mq_map mq1 q \<noteq> None" for i
    using find_queue_registry [OF reg f] by auto
  show ?thesis
  proof (cases r)
    case (Some i)
    show ?thesis
    proof (cases "mq_pick q i mq1")
      case P: (Some tm)
      obtain token mq2 where tm: "tm = (token, mq2)" by force
      have "mq_registry mq2" "mq_map mq2 q \<noteq> None" using mq_pick_registry [OF reg1(1) reg1(2) [OF Some]] P tm by auto
      then show ?thesis
        using reg by (auto simp: hustmq_get_def f Some P tm Let_def split: prod.split intro!: mq_registry_upd_info)
    qed (use reg reg1 in \<open>simp add: hustmq_get_def f Some\<close>)
  qed (use reg reg1 in \<open>simp add: hustmq_get_def f\<close>)
qed

lemma get_handler_registry: "mq_registry mq \<Longrightarrow> mq_registry (snd (hustmq_get_handler S q w a mq))"
  using get_registry [of mq S q w a]
  by (auto simp: hustmq_get_handler_def hustmq_ack_inner_def split: prod.split)

lemma ack_registry:
  assumes reg: "mq_registry mq"
  shows "mq_registry (snd (hustmq_ack S q a mq))"
proof -
  obtain r mq1 where f: "find_queue_offset q False QUEUE_TB [] mq = (r, mq1)" by force
  have reg1: "mq_registry mq1" "r = Some i \<Longrightarrow> mq_map mq1 q \<noteq> None" for i
    using find_queue_registry [OF reg f] by auto
  then show ?thesis
    using reg by (auto simp: hustmq_ack_def f Let_def split: prod.split option.split intro!: mq_registry_upd_info)
qed

lemma admin_registry:
  assumes reg: "mq_registry mq"
  shows "mq_registry (snd (snd (hustmq_worker q mq)))" "mq_registry (snd (snd (snd (snd (hustmq_stat q mq)))))"
    "mq_registry (snd (hustmq_max q n mq))" "mq_registry (snd (hustmq_lock q n mq))"
    "mq_registry (snd (hustmq_timeout q n mq))" "mq_registry (snd (snd (snd (snd (hustmq_sub S q n mq)))))"
proof -
  note f = find_queue_registry [OF reg]
  show "mq_registry (snd (snd (hustmq_worker q mq)))"
    using reg f by (fastforce simp: hustmq_worker_def Let_def split: prod.split option.split intro!: mq_registry_upd_info)
  show "mq_registry (snd (snd (snd (snd (hustmq_stat q mq)))))"
    using reg f(1) by (auto simp: hustmq_stat_def Let_def split: prod.split option.split)
  show "mq_registry (snd (snd (snd (snd (hustmq_sub S q n mq)))))"
    using reg f(1) by (auto simp: hustmq_sub_def Let_def split: prod.split option.split)
  show "mq_registry (snd (hustmq_max q n mq))" "mq_registry (snd (hustmq_lock q n mq))"
    "mq_registry (snd (hustmq_timeout q n mq))"
    using reg f(1)
    by (auto simp: hustmq_max_def hustmq_lock_def hustmq_timeout_def split: prod.split option.split intro!: mq_registry_index)
qed

lemma pub_registry:
  assumes reg: "mq_registry mq"
  shows "mq_registry (snd (hustmq_pub S q m i t mq))"
proof -
  obtain r mq1 where f: "find_queue_offset q True PUSHQ_TB [] mq = (r, mq1)" by force
  note reg1 = find_queue_registry(1) [OF reg f]
  have st: "mq_registry (mq1\<lparr>mq_store := s, mq_index := (mq_index mq1)[j := (mq_index mq1 ! j)\<lparr>q_ctime := x, q_sp := y, q_ep := z\<rparr>]\<rparr>)"
    for s j x y z
    using mq_registry_index [of "mq1\<lparr>mq_store := s\<rparr>" "(mq_index mq1 ! j)\<lparr>q_ctime := x, q_sp := y, q_ep := z\<rparr>" j] reg1 by simp
  show ?thesis
    using reg reg1 st unfolding hustmq_pub_def f by (simp add: Let_def split: prod.split option.split)
qed

text \<open>A queue removed from the map and its entry cleared.\<close>

lemma mq_registry_remove:
  assumes reg: "mq_registry mq" and i: "map_option qi_offset (mq_map mq q) = Some i" and st: "q_flag st = 0"
  shows "mq_registry (mq\<lparr>mq_map := (mq_map mq)(q := None), mq_index := (mq_index mq)[i := st]\<rparr>)"
proof -
  obtain info where info: "mq_map mq q = Some info" "qi_offset info = i" using i by auto
  have "qi_offset info' \<noteq> i" if "mq_map mq q' = Some info'" "q' \<noteq> q" for q' info'
    using mq_registryD(3) [OF reg] that info by metis
  moreover have "q_name (mq_index mq ! j) \<noteq> q" if "j < length (mq_index mq)" "0 < q_flag (mq_index mq ! j)" "j \<noteq> i" for j
    using mq_registryD(4) [OF reg that(1,2)] i that(3) by auto
  ultimately show ?thesis
    using reg st mq_registryD(1) [OF reg info(1)] info(2)
    unfolding mq_registry_def by (simp add: nth_list_update) blast
qed

lemma purge_registry:
  assumes reg: "mq_registry mq"
  shows "mq_registry (snd (hustmq_purge S q p mq))"
proof -
  obtain r mq1 where f: "find_queue_offset q False QUEUE_TB [] mq = (r, mq1)" by force
  note reg1 = find_queue_registry [OF reg f]
  have "mq_registry (mq1\<lparr>mq_store := s, mq_map := (mq_map mq1)(q := None), mq_index := (mq_index mq1)[i := queue_stat_zero]\<rparr>)"
    if "r = Some i" for s i
    using mq_registry_remove [of "mq1\<lparr>mq_store := s\<rparr>" q i queue_stat_zero] reg1 that by (simp add: queue_stat_zero_def)
  then show ?thesis
    using reg reg1(1) by (simp add: hustmq_purge_def f Let_def split: option.split)
qed

lemma exec_registry: "mq_registry mq \<Longrightarrow> mq_registry (mq_exec S c mq)"
  by (cases c) (simp_all add: put_registry get_handler_registry ack_registry admin_registry purge_registry pub_registry)

section \<open>Start and restart\<close>

definition mq_restart :: "'s hustmq \<Rightarrow> 's hustmq" where
  "mq_restart mq = mq\<lparr>mq_map := init_queue_index (mq_index mq)\<rparr>"

text \<open>A server on a new index file, which is filled with zeros.\<close>

definition mq_fresh :: "nat \<Rightarrow> 's \<Rightarrow> 's hustmq" where
  "mq_fresh n s = mq_restart
     \<lparr>mq_index = replicate n queue_stat_zero, mq_map = (\<lambda>_. None), mq_now = 0, mq_over_threshold = False,
      mq_redelivery_timeout = 5, mq_ttl_maximum = 604800, mq_store = s\<rparr>"

lemma init_queue_index_find:
  "init_queue_index index q =
     map_option new_queue_info (find (\<lambda>i. 0 < q_flag (index ! i) \<and> q_name (index ! i) = q) [0..<length index])"
proof -
  let ?f = "\<lambda>i m. let st = index ! i in
    if q_flag st > 0 \<and> m (q_name st) = None then m(q_name st := Some (new_queue_info i)) else m"
  have "fold ?f is m q = (case m q of Some x \<Rightarrow> Some x
      | None \<Rightarrow> map_option new_queue_info (find (\<lambda>i. 0 < q_flag (index ! i) \<and> q_name (index ! i) = q) is))" for "is" m
    by (induction "is" arbitrary: m) (auto simp: Let_def split: option.split)
  then show ?thesis by (simp add: init_queue_index_def)
qed

lemma restart_offset:
  assumes reg: "mq_registry mq"
  shows "map_option qi_offset (mq_map (mq_restart mq) q) = map_option qi_offset (mq_map mq q)"
proof (cases "mq_map mq q")
  case None
  then have "find (\<lambda>i. 0 < q_flag (mq_index mq ! i) \<and> q_name (mq_index mq ! i) = q) [0..<length (mq_index mq)] = None"
    using mq_registryD(4) [OF reg] by (fastforce simp: find_None_iff)
  then show ?thesis using None by (simp add: mq_restart_def init_queue_index_find)
next
  case (Some info)
  obtain j where j: "find (\<lambda>i. 0 < q_flag (mq_index mq ! i) \<and> q_name (mq_index mq ! i) = q) [0..<length (mq_index mq)] = Some j"
    using mq_registryD(1-3) [OF reg Some]
    by (cases "find (\<lambda>i. 0 < q_flag (mq_index mq ! i) \<and> q_name (mq_index mq ! i) = q) [0..<length (mq_index mq)]")
      (auto simp: find_None_iff)
  then have "j < length (mq_index mq)" "0 < q_flag (mq_index mq ! j)" "q_name (mq_index mq ! j) = q"
    by (auto simp: find_Some_iff)
  then have "qi_offset info = j" using mq_registryD(4) [OF reg, of j] Some by auto
  then show ?thesis using Some j by (simp add: mq_restart_def init_queue_index_find new_queue_info_def)
qed

lemma fresh_registry: "mq_registry (mq_fresh n s)"
proof -
  have "find (\<lambda>i. 0 < q_flag (replicate n queue_stat_zero ! i) \<and> q_name (replicate n queue_stat_zero ! i) = q) [0..<n] = None" for q
    by (auto simp: find_None_iff queue_stat_zero_def)
  then show ?thesis
    by (auto simp: mq_registry_def mq_fresh_def mq_restart_def init_queue_index_find queue_stat_zero_def)
qed

lemma run_registry: "mq_registry mq \<Longrightarrow> mq_registry (fold (mq_exec S) cmds mq)"
  by (induction cmds arbitrary: mq) (simp_all add: exec_registry)

text \<open>
  C12. The map in memory and the index file agree after every sequence of requests (puts, gets,
  acknowledgements, settings, purges, publications, subscriptions) on a server that started
  with an empty file: every queue of the map has an entry in use with its name, no two
  queues share an entry, and a restart, which reads the file, finds exactly the same
  queues at the same offsets.
\<close>

theorem queues_survive_restart:
  "let mq = fold (mq_exec S) cmds (mq_fresh n s) in
     mq_registry mq
     \<and> (\<forall>q q' info info'. mq_map mq q = Some info \<and> mq_map mq q' = Some info' \<and> qi_offset info = qi_offset info' \<longrightarrow> q = q')
     \<and> (\<forall>q. map_option qi_offset (mq_map (mq_restart mq) q) = map_option qi_offset (mq_map mq q))"
proof -
  have reg: "mq_registry (fold (mq_exec S) cmds (mq_fresh n s))" by (rule run_registry [OF fresh_registry])
  show ?thesis
    unfolding Let_def using reg restart_offset [OF reg] mq_registryD(3) [OF reg] by metis
qed

theorem queues_survive_restart_witness:
  "map_option qi_offset (mq_map (mq_restart
     (fold (mq_exec alist_storage) [C_Put [0x61] [1] 0, C_Put ex_queue [1] 0] (mq_fresh 2 []))) ex_queue) = Some 1"
proof -
  have "map_option qi_offset (mq_map
     (fold (mq_exec alist_storage) [C_Put [0x61] [1] 0, C_Put ex_queue [1] 0] (mq_fresh 2 [])) ex_queue) = Some 1"
    by code_simp
  then show ?thesis
    using queues_survive_restart [of alist_storage "[C_Put [0x61] [1] 0, C_Put ex_queue [1] 0]" 2 "[]"]
    unfolding Let_def by metis
qed

section \<open>Independence of queues\<close>

text \<open>What a queue is made of: its record, its entry of the index and its stored messages.\<close>

definition mq_same :: "('s \<Rightarrow> bytes \<Rightarrow> (bytes \<times> nat) option) \<Rightarrow> bytes \<Rightarrow> 's hustmq \<Rightarrow> 's hustmq \<Rightarrow> bool" where
  "mq_same contents q mq mq' \<longleftrightarrow> mq_map mq' q = mq_map mq q \<and> length (mq_index mq') = length (mq_index mq)
     \<and> mq_stat q mq' = mq_stat q mq
     \<and> (\<forall>token. contents (mq_store mq') (message_key q token) = contents (mq_store mq) (message_key q token))"

lemma mq_same_refl [simp]: "mq_same contents q mq mq"
  by (simp add: mq_same_def)

lemma mq_same_trans: "mq_same contents q a b \<Longrightarrow> mq_same contents q b c \<Longrightarrow> mq_same contents q a c"
  by (simp add: mq_same_def)

lemma mq_same_wf:
  assumes "mq_wf contents q mq" "mq_same contents q mq mq'"
  shows "mq_wf contents q mq' \<and> mq_ready contents q mq' = mq_ready contents q mq \<and> mq_info q mq' = mq_info q mq"
  using assms by (auto simp: mq_wf_def mq_same_def mq_info_def mq_ready_def q_key_def fun_eq_iff)

lemma mq_same_upd_info: "q' \<noteq> q \<Longrightarrow> mq_same contents q mq mq' \<Longrightarrow> mq_same contents q mq (mq_upd_info q' info mq')"
  by (auto simp: mq_same_def mq_stat_def mq_info_def mq_upd_info_def)

lemma mq_same_index:
  "mq_same contents q mq mq' \<Longrightarrow> i \<noteq> qi_offset (mq_info q mq') \<Longrightarrow>
     mq_same contents q mq (mq'\<lparr>mq_index := (mq_index mq')[i := st]\<rparr>)"
  by (auto simp: mq_same_def mq_stat_def mq_info_def)

lemma mq_same_set_word:
  "mq_same contents q mq mq' \<Longrightarrow> i \<noteq> qi_offset (mq_info q mq') \<Longrightarrow> mq_same contents q mq (mq_set_word i n v mq')"
  unfolding mq_set_word_def by (rule mq_same_index)

lemma mq_same_store:
  "mq_same contents q mq mq' \<Longrightarrow> \<forall>token. contents s (message_key q token) = contents (mq_store mq') (message_key q token)
     \<Longrightarrow> mq_same contents q mq (mq'\<lparr>mq_store := s\<rparr>)"
  by (auto simp: mq_same_def mq_stat_def mq_info_def)

text \<open>Storage operations under the key of another queue.\<close>

lemma other_key:
  assumes "tb_name_check q" "tb_name_check q'" "q' \<noteq> q"
  shows "message_key q token \<noteq> message_key q' token'"
  using message_key_queue_inj [OF assms(1,2)] assms(3) by auto

lemma other_put:
  assumes "storage_ok S contents" "tb_name_check q" "tb_name_check q'" "q' \<noteq> q"
  shows "contents (snd (st_put S (message_key q' token') v t s)) (message_key q token) = contents s (message_key q token)"
  by (rule storage_put(1) [OF assms(1) surjective_pairing other_key [OF assms(2-4)]])

lemma other_del:
  assumes "storage_ok S contents" "tb_name_check q" "tb_name_check q'" "q' \<noteq> q"
  shows "contents (snd (st_del S (message_key q' token') s)) (message_key q token) = contents s (message_key q token)"
  by (rule storage_del(1) [OF assms(1) surjective_pairing other_key [OF assms(2-4)]])

lemma other_purge:
  assumes "storage_ok S contents" "tb_name_check q" "tb_name_check q'" "q' \<noteq> q"
  shows "contents (purge_loop S q' p ps s) (message_key q token) = contents s (message_key q token)"
  by (induction ps arbitrary: s) (simp_all add: other_del [OF assms])

lemma other_pub:
  assumes "storage_ok S contents" "tb_name_check q" "tb_name_check q'" "q' \<noteq> q"
  shows "contents (snd (pub_loop S q' idx now n stag s)) (message_key q token) = contents s (message_key q token)"
  by (induction n arbitrary: stag s) (simp_all add: other_del [OF assms] Let_def split: prod.split)

lemma registry_distinct:
  assumes "mq_registry mq" "map_option qi_offset (mq_map mq q') = Some i" "mq_map mq q \<noteq> None" "q' \<noteq> q"
  shows "i \<noteq> qi_offset (mq_info q mq)"
proof -
  obtain info info' where "mq_map mq q = Some info" "mq_map mq q' = Some info'" "qi_offset info' = i"
    using assms(2,3) by auto
  then show ?thesis using mq_registryD(3) [OF assms(1)] assms(4) by (metis mq_info_def option.sel)
qed

lemma find_queue_same:
  assumes reg: "mq_registry mq" and q: "mq_map mq q \<noteq> None" "q' \<noteq> q" and f: "find_queue_offset q' create ty w mq = (r, mq1)"
  shows "mq_same contents q mq mq1" and "r = Some i \<Longrightarrow> i \<noteq> qi_offset (mq_info q mq1)"
proof -
  have new: "j \<noteq> qi_offset (mq_info q mq)" if "q_flag (mq_index mq ! j) = 0" for j
    using q(1) mq_registryD(2) [OF reg, of q] that by (auto simp: mq_info_def)
  show same: "mq_same contents q mq mq1"
  proof (cases "mq_map mq q'")
    case None
    have "mq_same contents q mq (mq\<lparr>mq_map := (mq_map mq)(q' \<mapsto> x), mq_index := (mq_index mq)[j := st]\<rparr>)"
      if "q_flag (mq_index mq ! j) = 0" for j x st
      using q(2) new [OF that] by (simp add: mq_same_def mq_stat_def mq_info_def)
    then show ?thesis
      using f None by (auto simp: find_queue_offset_def find_Some_iff split: if_splits option.splits)
  next
    case (Some info)
    then show ?thesis
      using f q(2) by (auto simp: find_queue_offset_def mq_same_def mq_stat_def mq_info_def Let_def split: if_splits)
  qed
  assume "r = Some i"
  then show "i \<noteq> qi_offset (mq_info q mq1)"
    using registry_distinct [OF find_queue_registry(1) [OF reg f] find_queue_registry(2) [OF reg f] _ q(2)] same q(1)
    by (simp add: mq_same_def)
qed

lemma mq_pick_same:
  assumes "mq_pick q' i mq = Some (token, mq')" "q' \<noteq> q" "i \<noteq> qi_offset (mq_info q mq)"
  shows "mq_same contents q mq mq'"
  using assms by (auto simp: mq_pick_def Let_def split: if_splits intro!: mq_same_upd_info mq_same_set_word)

lemma mq_info_store [simp]: "mq_info q (mq\<lparr>mq_store := s\<rparr>) = mq_info q mq"
  by (simp add: mq_info_def)

lemma put_same:
  assumes S: "storage_ok S contents" and reg: "mq_registry mq" and q: "tb_name_check q" "mq_map mq q \<noteq> None" "q' \<noteq> q"
  shows "mq_same contents q mq (snd (hustmq_put S q' m p mq))"
proof (cases "tb_name_check q'")
  case True
  obtain r mq1 where f: "find_queue_offset q' True QUEUE_TB [] mq = (r, mq1)" by force
  note fs = find_queue_same(1) [OF reg q(2,3) f, where contents = contents] find_queue_same(2) [OF reg q(2,3) f] and ok = other_put [OF S q(1) True q(3)]
  show ?thesis
    unfolding hustmq_put_def f using fs
    by (auto simp: case_prod_beta Let_def ok split: option.split intro!: mq_same_set_word mq_same_store)
qed (simp add: hustmq_put_def)

lemma get_same:
  assumes S: "storage_ok S contents" and reg: "mq_registry mq" and q: "tb_name_check q" "mq_map mq q \<noteq> None" "q' \<noteq> q"
  shows "mq_same contents q mq (snd (hustmq_get S q' w a mq))"
proof -
  obtain r mq1 where f: "find_queue_offset q' False QUEUE_TB w mq = (r, mq1)" by force
  note fs = find_queue_same(1) [OF reg q(2,3) f, where contents = contents] find_queue_same(2) [OF reg q(2,3) f]
  have "mq_same contents q mq mq2" if "r = Some i" "mq_pick q' i mq1 = Some (token, mq2)" for i token mq2
    by (rule mq_same_trans [OF fs(1) mq_pick_same [OF that(2) q(3) fs(2) [OF that(1)]]])
  then show ?thesis
    unfolding hustmq_get_def f using fs(1) q(3)
    by (auto simp: Let_def split: option.split prod.split intro!: mq_same_upd_info)
qed

lemma get_handler_same:
  assumes S: "storage_ok S contents" and reg: "mq_registry mq" and q: "tb_name_check q" "mq_map mq q \<noteq> None" "q' \<noteq> q"
  shows "mq_same contents q mq (snd (hustmq_get_handler S q' w a mq))"
proof -
  obtain rp mq1 where g: "hustmq_get S q' w a mq = (rp, mq1)" by force
  have "\<exists>token. rp_ack rp = message_key q' token" "tb_name_check q'" if "rp_code rp = 0"
    using g that by (auto simp: hustmq_get_def mq_error_def Let_def split: if_splits option.splits prod.splits)
  then show ?thesis
    using get_same [OF assms, of w a] other_del [OF S q(1) _ q(3)]
    by (auto simp: hustmq_get_handler_def g hustmq_ack_inner_def case_prod_beta intro!: mq_same_store)
qed

lemma ack_same:
  assumes S: "storage_ok S contents" and reg: "mq_registry mq" and q: "tb_name_check q" "mq_map mq q \<noteq> None" "q' \<noteq> q"
  shows "mq_same contents q mq (snd (hustmq_ack S q' a mq))"
proof (cases "tb_name_check q'")
  case True
  obtain r mq1 where f: "find_queue_offset q' False QUEUE_TB [] mq = (r, mq1)" by force
  note fs = find_queue_same(1) [OF reg q(2,3) f, where contents = contents] find_queue_same(2) [OF reg q(2,3) f] and ok = other_del [OF S q(1) True q(3)]
  show ?thesis
    unfolding hustmq_ack_def f using fs(1) q(3)
    by (auto simp: case_prod_beta Let_def ok split: option.split intro!: mq_same_store mq_same_upd_info)
qed (simp add: hustmq_ack_def)

lemma admin_same:
  assumes reg: "mq_registry mq" and q: "mq_map mq q \<noteq> None" "q' \<noteq> q"
  shows "mq_same contents q mq (snd (snd (hustmq_worker q' mq)))" "mq_same contents q mq (snd (snd (snd (snd (hustmq_stat q' mq)))))"
    "mq_same contents q mq (snd (hustmq_max q' n mq))" "mq_same contents q mq (snd (hustmq_lock q' n mq))"
    "mq_same contents q mq (snd (hustmq_timeout q' n mq))"
proof -
  note fs = find_queue_same(1) [OF reg q, where contents = contents] find_queue_same(2) [OF reg q _ refl]
  show "mq_same contents q mq (snd (snd (hustmq_worker q' mq)))"
    using fs(1) q(2) by (auto simp: hustmq_worker_def Let_def split: prod.split option.split intro!: mq_same_upd_info)
  show "mq_same contents q mq (snd (snd (snd (snd (hustmq_stat q' mq)))))"
    using fs(1) by (auto simp: hustmq_stat_def Let_def split: prod.split option.split)
  show "mq_same contents q mq (snd (hustmq_max q' n mq))" "mq_same contents q mq (snd (hustmq_lock q' n mq))"
    "mq_same contents q mq (snd (hustmq_timeout q' n mq))"
    using fs(1)
    by (auto simp: hustmq_max_def hustmq_lock_def hustmq_timeout_def split: prod.split option.split intro!: mq_same_index
        dest: fs(2))
qed

lemma purge_same:
  assumes S: "storage_ok S contents" and reg: "mq_registry mq" and q: "tb_name_check q" "mq_map mq q \<noteq> None" "q' \<noteq> q"
  shows "mq_same contents q mq (snd (hustmq_purge S q' p mq))"
proof (cases "tb_name_check q'")
  case True
  obtain r mq1 where f: "find_queue_offset q' False QUEUE_TB [] mq = (r, mq1)" by force
  note fs = find_queue_same(1) [OF reg q(2,3) f, where contents = contents] find_queue_same(2) [OF reg q(2,3) f]
    and ok = other_purge [OF S q(1) True q(3)]
  have st: "mq_same contents q mq (mq1\<lparr>mq_store := purge_loop S q' p ps (mq_store mq1)\<rparr>)" for ps
    using fs(1) by (intro mq_same_store) (simp_all add: ok)
  have "mq_same contents q mq (mq1\<lparr>mq_store := purge_loop S q' p ps (mq_store mq1), mq_map := (mq_map mq1)(q' := None),
      mq_index := (mq_index mq1)[i := queue_stat_zero]\<rparr>)" if "r = Some i" for ps i
    using st [of ps] fs(2) [OF that] q(3) by (auto simp: mq_same_def mq_stat_def mq_info_def)
  moreover have "mq_same contents q mq (mq_set_word i n v (mq_set_word i n' v'
      (mq1\<lparr>mq_store := purge_loop S q' p ps (mq_store mq1)\<rparr>)))" if "r = Some i" for ps i n v n' v'
    using st [of ps] fs(2) [OF that] by (intro mq_same_set_word) simp_all
  ultimately show ?thesis
    unfolding hustmq_purge_def f using fs(1) by (simp add: Let_def split: option.split del: upt_Suc)
qed (simp add: hustmq_purge_def)

lemma pub_same:
  assumes S: "storage_ok S contents" and reg: "mq_registry mq" and q: "tb_name_check q" "mq_map mq q \<noteq> None" "q' \<noteq> q"
  shows "mq_same contents q mq (snd (hustmq_pub S q' m idx t mq))"
proof (cases "tb_name_check q'")
  case True
  obtain r mq1 where f: "find_queue_offset q' True PUSHQ_TB [] mq = (r, mq1)" by force
  note fs = find_queue_same(1) [OF reg q(2,3) f, where contents = contents] find_queue_same(2) [OF reg q(2,3) f]
    and ok = other_put [OF S q(1) True q(3)] other_pub [OF S q(1) True q(3)]
  have st: "mq_same contents q mq (mq1\<lparr>mq_store := snd (st_put S (message_key q' token) v ttl
      (snd (pub_loop S q' idx now n stag (mq_store mq1))))\<rparr>)" for token v ttl now n stag
    using fs(1) by (intro mq_same_store) (simp_all add: ok)
  have "mq_same contents q mq (mq1\<lparr>mq_store := snd (st_put S (message_key q' token) v ttl
      (snd (pub_loop S q' idx now n stag (mq_store mq1)))), mq_index := (mq_index mq1)[i := stat]\<rparr>)"
    if "r = Some i" for token v ttl now n stag i stat
    using mq_same_index [OF st, of i token v ttl now n stag stat] fs(2) [OF that] by simp
  then show ?thesis
    unfolding hustmq_pub_def f using fs(1) st by (simp add: case_prod_beta Let_def split: option.split)
qed (simp add: hustmq_pub_def)

lemma sub_same:
  assumes S: "storage_ok S contents" and reg: "mq_registry mq" and q: "tb_name_check q" "mq_map mq q \<noteq> None" "q' \<noteq> q"
  shows "mq_same contents q mq (snd (snd (snd (snd (hustmq_sub S q' idx mq)))))"
proof (cases "tb_name_check q'")
  case True
  obtain r mq1 where f: "find_queue_offset q' False PUSHQ_TB [] mq = (r, mq1)" by force
  show ?thesis
    unfolding hustmq_sub_def f
    using find_queue_same(1) [OF reg q(2,3) f, where contents = contents] other_del [OF S q(1) True q(3)]
    by (auto simp: Let_def split: option.split prod.split intro!: mq_same_store)
qed (simp add: hustmq_sub_def)

lemma mq_same_now: "mq_same contents q mq (mq\<lparr>mq_now := t\<rparr>)"
  by (simp add: mq_same_def mq_stat_def mq_info_def)

lemma exec_same:
  assumes S: "storage_ok S contents" and reg: "mq_registry mq" and q: "tb_name_check q" "mq_map mq q \<noteq> None" "cmd_queue c \<noteq> Some q"
  shows "mq_same contents q mq (mq_exec S c mq)"
  using q(3) put_same [OF S reg q(1,2)] get_handler_same [OF S reg q(1,2)] ack_same [OF S reg q(1,2)]
    admin_same [OF reg q(2)] purge_same [OF S reg q(1,2)] pub_same [OF S reg q(1,2)] sub_same [OF S reg q(1,2)]
  by (cases c) (simp_all add: mq_same_now)

lemma run_same:
  assumes "storage_ok S contents" "mq_registry mq" "mq_wf contents q mq" "\<forall>c\<in>set cmds. cmd_queue c \<noteq> Some q"
  shows "mq_same contents q mq (fold (mq_exec S) cmds mq)"
  using assms
proof (induction cmds arbitrary: mq)
  case (Cons c cmds)
  have "mq_same contents q mq (mq_exec S c mq)"
    using exec_same [OF Cons.prems(1,2), of q c] Cons.prems(3,4) by (simp add: mq_wf_def)
  moreover have "mq_same contents q (mq_exec S c mq) (fold (mq_exec S) cmds (mq_exec S c mq))"
    using Cons.IH [OF Cons.prems(1) exec_registry [OF Cons.prems(2)]] mq_same_wf [OF Cons.prems(3) calculation] Cons.prems(4)
    by simp
  ultimately show ?case by (simp add: mq_same_trans)
qed simp

text \<open>
  C16. Queues are independent: no sequence of requests on other queues, whatever they are and
  whether they create, fill, drain or purge those queues, changes the messages waiting in
  this queue, its entry in the index file or its record of outstanding deliveries.
\<close>

theorem queues_do_not_interfere:
  assumes "storage_ok S contents" and "mq_registry mq" and "mq_wf contents q mq"
    and "\<forall>c\<in>set cmds. cmd_queue c \<noteq> Some q"
  shows "let mq' = fold (mq_exec S) cmds mq in
    mq_wf contents q mq' \<and> mq_ready contents q mq' = mq_ready contents q mq
    \<and> mq_stat q mq' = mq_stat q mq \<and> mq_info q mq' = mq_info q mq"
  using run_same [OF assms] mq_same_wf [OF assms(3) run_same [OF assms]] by (simp add: mq_same_def Let_def)

lemma ex_mq2_registry: "mq_registry ex_mq2"
proof -
  have "mq_registry ex_mq"
    by (simp add: mq_registry_def ex_mq_def new_queue_info_def queue_stat_zero_def)
  then show ?thesis by (simp add: ex_mq2_def put_registry)
qed

theorem queues_do_not_interfere_witness:
  "mq_ready map_of ex_queue (fold (mq_exec alist_storage) [C_Put [0x61] [7] 2, C_Purge [0x61] 2, C_Tick 9] ex_mq2) 0 = [[1], [2]]"
proof -
  have wf: "mq_wf map_of ex_queue ex_mq2" using ex_mq2_inv by (simp add: mq_inv_def)
  have "\<forall>c\<in>set [C_Put [0x61] [7] 2, C_Purge [0x61] 2, C_Tick 9]. cmd_queue c \<noteq> Some ex_queue"
    by (simp add: ex_queue_def)
  from queues_do_not_interfere [OF alist_storage_ok ex_mq2_registry wf this]
  have "mq_ready map_of ex_queue (fold (mq_exec alist_storage) [C_Put [0x61] [7] 2, C_Purge [0x61] 2, C_Tick 9] ex_mq2)
      = mq_ready map_of ex_queue ex_mq2" by (simp add: Let_def)
  moreover have "mq_ready map_of ex_queue ex_mq2 0 = [[1], [2]]" by code_simp
  ultimately show ?thesis by simp
qed

end
