(* ===== verification/Hustmq_Delivery.thy ===== *)
theory Hustmq_Delivery
  imports Hustmq_Registry
begin

text \<open>
  Delivery without automatic acknowledgement, the key buffers and publish/subscribe, on
  the queues of \<open>Hustmq\<close>: what an acknowledgement, a timeout and a restart do to messages
  that were delivered.
\<close>

section \<open>Priority and order\<close>

text \<open>
  C3. A queue whose messages are acknowledged on delivery is a priority queue: on every
  sequence of puts (of non-empty messages with priority 0 to 2) and gets, over any storage
  that keeps its contract, a get delivers the oldest message of the highest priority that
  was accepted and not yet delivered, and answers \<open>ENOENT\<close> exactly when there is none. The
  cyclic positions may wrap around on the way. The queue may be locked: then the puts are
  refused while the gets go on delivering, since the code does not read the lock there (the
  documentation of the request says otherwise, as a property below states).
\<close>

theorem hustmq_refines_priority_fifo:
  assumes "mq_inv S contents queue worker mq"
    and "\<forall>p m. Mq_Put p m \<in> set ops \<longrightarrow> p \<le> 2 \<and> m \<noteq> []"
    and "mq_run (\<lambda>p m. hustmq_put S queue m p) (mq_get_acked S queue worker) ops mq = (rs, mq')"
  shows "mq_inv S contents queue worker mq'
    \<and> pq_accepts ops rs (mq_ready contents queue mq) = Some (mq_ready contents queue mq')"
  using assms by (rule hmq.run_accepted)

definition ex_mq_ops :: "mq_op list" where
  "ex_mq_ops = [Mq_Put 0 [1], Mq_Put 2 [2], Mq_Get, Mq_Get, Mq_Get]"

theorem hustmq_refines_priority_fifo_witness:
  "\<exists>rs mq'. mq_run (\<lambda>p m. hustmq_put alist_storage ex_queue m p) (mq_get_acked alist_storage ex_queue ex_worker)
       ex_mq_ops ex_mq = (rs, mq')
     \<and> pq_accepts ex_mq_ops rs (mq_ready map_of ex_queue ex_mq) = Some (mq_ready map_of ex_queue mq')
     \<and> rs = [(0, []), (0, []), (0, [2]), (0, [1]), (ENOENT, [])]"
proof -
  let ?run = "mq_run (\<lambda>p m. hustmq_put alist_storage ex_queue m p) (mq_get_acked alist_storage ex_queue ex_worker)
    ex_mq_ops ex_mq"
  have ops: "\<forall>p m. Mq_Put p m \<in> set ex_mq_ops \<longrightarrow> p \<le> 2 \<and> m \<noteq> []" by (simp add: ex_mq_ops_def)
  have "fst ?run = [(0, []), (0, []), (0, [2]), (0, [1]), (ENOENT, [])]" by code_simp
  then show ?thesis
    using hustmq_refines_priority_fifo [OF ex_mq_inv ops surjective_pairing [of ?run]] by (metis surjective_pairing)
qed

lemma mq_pick_store: "mq_pick queue i mq = Some (k, m) \<Longrightarrow> mq_store m = mq_store mq"
  unfolding mq_pick_def Let_def by (auto simp: mq_upd_info_def split: if_splits)

lemma mq_pick_locked:
  "map_option fst (mq_pick queue i (mq\<lparr>mq_index := (mq_index mq)[i := (mq_index mq ! i)\<lparr>q_lock := l\<rparr>]\<rparr>)) =
   map_option fst (mq_pick queue i mq)"
proof -
  define mq' where "mq' = mq\<lparr>mq_index := (mq_index mq)[i := (mq_index mq ! i)\<lparr>q_lock := l\<rparr>]\<rparr>"
  let ?st = "mq_index mq ! i" and ?st' = "mq_index mq' ! i"
  have "?st' = ?st \<or> ?st' = ?st\<lparr>q_lock := l\<rparr>"
    by (cases "i < length (mq_index mq)") (simp_all add: mq'_def list_update_beyond)
  then have st: "q_timeout ?st' = q_timeout ?st" "q_sp ?st' = q_sp ?st" "q_ep ?st' = q_ep ?st" "q_sp1 ?st' = q_sp1 ?st"
    "q_ep1 ?st' = q_ep1 ?st" "q_sp2 ?st' = q_sp2 ?st" "q_ep2 ?st' = q_ep2 ?st" by auto
  have inf: "mq_info queue mq' = mq_info queue mq" "mq_now mq' = mq_now mq" by (simp_all add: mq'_def mq_info_def)
  show ?thesis
    unfolding mq'_def [symmetric] mq_pick_def Let_def st inf by (simp split: if_split)
qed

text \<open>
  C27. Locking a queue does not change what its gets answer: whatever the lock is set to, a get
  replies as without the lock, so that a locked queue with waiting messages goes on
  delivering them. The documentation of the request promises 404 (\<open>ENOENT\<close>) for it.
\<close>

theorem get_ignores_lock:
  assumes "hustmq_lock queue lock mq = (0, mq1)"
  shows "fst (hustmq_get S queue worker is_ack mq1) = fst (hustmq_get S queue worker is_ack mq)"
proof -
  have n: "tb_name_check queue" and "fst (find_queue_offset queue False QUEUE_TB [] mq) \<noteq> None"
    using assms by (auto simp: hustmq_lock_def split: if_splits prod.splits option.splits)
  then obtain info where m: "mq_map mq queue = Some info" and ty: "q_type (mq_index mq ! qi_offset info) = QUEUE_TB"
    by (auto simp: find_queue_offset_def Let_def split: option.splits if_splits)
  let ?i = "qi_offset info"
  have f: "find_queue_offset queue False QUEUE_TB [] mq = (Some ?i, mq)"
    using m ty by (simp add: find_queue_offset_def touch_worker_def Let_def fun_upd_idem)
  have mq1: "mq1 = mq\<lparr>mq_index := (mq_index mq)[?i := (mq_index mq ! ?i)\<lparr>q_lock := lock\<rparr>]\<rparr>"
    using assms n by (auto simp: hustmq_lock_def f split: if_splits)
  define w where "w = info\<lparr>qi_worker := touch_worker (mq_now mq) worker (qi_worker info)\<rparr>"
  define a where "a = mq\<lparr>mq_map := (mq_map mq)(queue := Some w)\<rparr>"
  have fa: "find_queue_offset queue False QUEUE_TB worker mq = (Some ?i, a)"
    using m ty by (simp add: find_queue_offset_def Let_def a_def w_def)
  have ty1: "q_type (mq_index mq1 ! ?i) = QUEUE_TB"
    using ty by (cases "?i < length (mq_index mq)") (simp_all add: mq1 list_update_beyond)
  have fb: "find_queue_offset queue False QUEUE_TB worker mq1 = (Some ?i, a\<lparr>mq_index := (mq_index a)[?i := (mq_index a ! ?i)\<lparr>q_lock := lock\<rparr>]\<rparr>)"
    using m ty1 by (simp add: find_queue_offset_def Let_def a_def w_def mq1)
  define b where "b = a\<lparr>mq_index := (mq_index a)[?i := (mq_index a ! ?i)\<lparr>q_lock := lock\<rparr>]\<rparr>"
  have p: "map_option fst (mq_pick queue ?i b) = map_option fst (mq_pick queue ?i a)" and sb: "mq_store b = mq_store a"
    using mq_pick_locked [of queue ?i a lock] by (simp_all add: b_def)
  show ?thesis
  proof (cases "mq_pick queue ?i a")
    case None
    then show ?thesis using p unfolding hustmq_get_def fa fb b_def [symmetric] by simp
  next
    case (Some x)
    then obtain k m m' where k: "mq_pick queue ?i a = Some (k, m)" "mq_pick queue ?i b = Some (k, m')"
      using p by (cases x; cases "mq_pick queue ?i b") auto
    have "mq_store m = mq_store a" "mq_store m' = mq_store a" using mq_pick_store [OF k(1)] mq_pick_store [OF k(2)] sb by simp_all
    then show ?thesis
      unfolding hustmq_get_def fa fb b_def [symmetric] using k by (simp add: Let_def split: prod.split)
  qed
qed

theorem get_ignores_lock_witness:
  "rp_item (fst (hustmq_get alist_storage ex_queue ex_worker True (snd (hustmq_lock ex_queue 1 ex_mq2)))) = [1]
   \<and> q_lock (mq_stat ex_queue (snd (hustmq_lock ex_queue 1 ex_mq2))) = 1"
proof -
  have e: "fst (hustmq_lock ex_queue 1 ex_mq2) = 0" "q_lock (mq_stat ex_queue (snd (hustmq_lock ex_queue 1 ex_mq2))) = 1"
    "rp_item (fst (hustmq_get alist_storage ex_queue ex_worker True ex_mq2)) = [1]" by code_simp+
  have "hustmq_lock ex_queue 1 ex_mq2 = (0, snd (hustmq_lock ex_queue 1 ex_mq2))" using e(1) by (metis prod.collapse)
  from get_ignores_lock [OF this, of alist_storage ex_worker True] e(2,3) show ?thesis by simp
qed

text \<open>
  C26. \<open>hustmq_put\<close> on an existing queue refuses a message only for the reasons the code names:
  \<open>ENOMEM\<close> when the server is over its memory threshold, \<open>EINVAL\<close> when the queue is locked,
  has reached the maximum set for it or holds five million messages over all priorities,
  and otherwise it answers what the storage answers to storing the message.
\<close>

theorem hustmq_put_return_code:
  assumes "mq_wf contents queue mq" and "p \<le> 2" and "m \<noteq> []"
  shows "fst (hustmq_put S queue m p mq) =
    (let st = mq_stat queue mq;
         n = length (mq_ready contents queue mq 0) + length (mq_ready contents queue mq 1)
               + length (mq_ready contents queue mq 2) in
     if mq_over_threshold mq then ENOMEM
     else if q_lock st = 1 \<or> (0 < q_max st \<and> q_max st \<le> n) \<or> 5000000 \<le> n then EINVAL
     else fst (st_put S (message_key queue (message_token p
            ((q_word st (p * 2 + 1) + 1) mod CYCLE_QUEUE_ITEM_NUM))) m 0 (mq_store mq)))"
proof -
  note inv = mq_wfD [OF assms(1)]
  have n: "q_real (mq_stat queue mq) = length (mq_ready contents queue mq 0) + length (mq_ready contents queue mq 1)
      + length (mq_ready contents queue mq 2)"
    using q_real_sum [OF inv(5)] by (simp add: mq_ready_def)
  have st: "mq_index mq ! qi_offset (mq_info queue mq) = mq_stat queue mq" by (simp add: mq_stat_def)
  show ?thesis
    using assms(2,3) inv(1)
    by (simp add: hustmq_put_def find_queue_existing [OF assms(1)] st n q_refuses_def MAX_QUEUE_ITEM_NUM_def
        Let_def split: prod.split)
qed

theorem hustmq_put_return_code_witness:
  "fst (hustmq_put alist_storage ex_queue [3] 1 ex_mq) = 0
   \<and> fst (hustmq_put alist_storage ex_queue [3] 1 (snd (hustmq_lock ex_queue 1 ex_mq))) = EINVAL"
proof -
  have wf: "mq_wf map_of ex_queue ex_mq" using ex_mq_inv by (simp add: mq_inv_def)
  have "mq_ready map_of ex_queue ex_mq p = []" for p
    by (simp add: mq_ready_def q_len_def q_word_def clac_real_item_def mq_stat_def mq_info_def ex_mq_def
        new_queue_info_def queue_stat_zero_def)
  moreover have "\<not> mq_over_threshold ex_mq" "q_lock (mq_stat ex_queue ex_mq) \<noteq> 1" "q_max (mq_stat ex_queue ex_mq) = 0"
    by code_simp+
  ultimately have "fst (hustmq_put alist_storage ex_queue [3] 1 ex_mq) = 0"
    using hustmq_put_return_code [OF wf, of 1 "[3]" alist_storage] by (simp add: alist_storage_def)
  moreover have "fst (hustmq_put alist_storage ex_queue [3] 1 (snd (hustmq_lock ex_queue 1 ex_mq))) = EINVAL"
    by code_simp
  ultimately show ?thesis by simp
qed

section \<open>Key buffers\<close>

lemma message_token_length:
  assumes "p \<le> 2" "tag < CYCLE_QUEUE_ITEM_NUM"
  shows "length (message_token p tag) \<le> 10"
  using dec_length [of p 0] dec_length [of tag 7] assms by (simp add: message_token_def CYCLE_QUEUE_ITEM_NUM_def)

lemma message_token_valid:
  assumes "p \<le> 2" "tag < CYCLE_QUEUE_ITEM_NUM"
  shows "tb_name_check (message_token p tag)"
proof -
  have d: "tb_name_char b" if "b \<in> set (dec n)" for b n
    using dec_digits [OF that] by (auto simp: tb_name_char_def word_le_nat_alt)
  have "tb_name_char 0x3A" by (simp add: tb_name_char_def)
  then have "list_all tb_name_char (message_token p tag)" using d by (auto simp: list_all_iff message_token_def)
  then show ?thesis
    using message_token_length [OF assms] by (simp add: tb_name_check_def MAX_QUEUE_NAME_LEN_def message_token_def)
qed

text \<open>
  C25. The key of a message, written with \<open>sprintf\<close> into a buffer of \<open>MAX_QKEY_LEN\<close> bytes, fits
  with its terminating zero for every valid queue name, priority and position, the token
  handed to the worker is itself accepted by \<open>hustmq_ack\<close>, and different queues, priorities
  or positions have different keys.
\<close>

theorem message_key_fits_and_identifies:
  assumes "tb_name_check queue" and "p \<le> 2" and "tag < CYCLE_QUEUE_ITEM_NUM" and "tb_name_check queue'"
  shows "length (message_key queue (message_token p tag)) + 1 \<le> MAX_QKEY_LEN
    \<and> tb_name_check (message_token p tag)
    \<and> (message_key queue (message_token p tag) = message_key queue' (message_token p' tag')
         \<longleftrightarrow> queue = queue' \<and> p = p' \<and> tag = tag')"
  using message_token_length [OF assms(2,3)] message_token_valid [OF assms(2,3)] assms(1,4)
    message_key_queue_inj [of queue queue' "message_token p tag" "message_token p' tag'"]
  by (auto simp: message_key_def MAX_QKEY_LEN_def message_token_inj tb_name_check_def MAX_QUEUE_NAME_LEN_def
      split: if_splits)

theorem message_key_fits_and_identifies_witness:
  "length (message_key ex_queue (message_token 2 10999999)) + 1 \<le> MAX_QKEY_LEN
   \<and> tb_name_check (message_token 2 10999999)
   \<and> message_key ex_queue (message_token 2 10999999) \<noteq> message_key ex_queue (message_token 1 10999999)"
proof -
  have q: "tb_name_check ex_queue" by code_simp
  have "(10999999::nat) < CYCLE_QUEUE_ITEM_NUM" by (simp add: CYCLE_QUEUE_ITEM_NUM_def)
  from message_key_fits_and_identifies [OF q _ this q, of 2 1 10999999] show ?thesis by simp
qed

section \<open>Acknowledgement\<close>

text \<open>
  A delivery that is not overdue for redelivery, entered into the multimap and erased again.
\<close>

lemma redelivery_loop_insert:
  assumes "(t, ack) \<notin> set m" "\<forall>e\<in>set m. fst e = t"
  shows "redelivery_loop t ack (m @ (t, ack) # rest) = m @ rest"
  using assms by (induction m) (auto split: if_splits)

lemma redelivery_erase_insert:
  assumes "sorted (map fst m)" "(t, ack) \<notin> set m"
  shows "redelivery_erase t ack (multimap_insert t ack m) = m"
proof -
  define a where "a = takeWhile (\<lambda>e. fst e < t) m"
  define b where "b = takeWhile (\<lambda>e. fst e = t) (dropWhile (\<lambda>e. fst e < t) m)"
  define c where "c = dropWhile (\<lambda>e. fst e \<le> t) m"
  have split: "takeWhile (\<lambda>e. fst e \<le> t) m = a @ b" "m = (a @ b) @ c"
  proof -
    show "takeWhile (\<lambda>e. fst e \<le> t) m = a @ b"
      using assms(1) unfolding a_def b_def
    proof (induction m)
      case (Cons e m)
      have "takeWhile (\<lambda>e. fst e < t) m = []" "dropWhile (\<lambda>e. fst e < t) m = m" if "t \<le> fst e"
        using Cons.prems that by (cases m; simp)+
      moreover have "takeWhile (\<lambda>e. fst e \<le> t) m = []" if "t < fst e"
        using Cons.prems that by (cases m; simp)
      ultimately show ?case using Cons by (cases "fst e" t rule: linorder_cases) auto
    qed simp
    then show "m = (a @ b) @ c" unfolding c_def by (metis takeWhile_dropWhile_id)
  qed
  have a: "\<forall>e\<in>set a. fst e \<noteq> t" unfolding a_def by (auto dest: set_takeWhileD)
  have b: "\<forall>e\<in>set b. fst e = t" unfolding b_def by (auto dest: set_takeWhileD)
  have ins: "multimap_insert t ack m = a @ (b @ (t, ack) # c)"
    by (simp add: multimap_insert_def split(1) c_def)
  have "takeWhile (\<lambda>e. fst e \<noteq> t) (a @ (b @ (t, ack) # c)) = a" "dropWhile (\<lambda>e. fst e \<noteq> t) (a @ (b @ (t, ack) # c)) = b @ (t, ack) # c"
    using a b by (cases b; simp add: takeWhile_append dropWhile_append)+
  then have "redelivery_erase t ack (multimap_insert t ack m) = a @ redelivery_loop t ack (b @ (t, ack) # c)"
    by (simp add: redelivery_erase_def ins)
  also have "redelivery_loop t ack (b @ (t, ack) # c) = b @ c"
    using redelivery_loop_insert [of t ack b c] b assms(2) split(2) by auto
  finally show ?thesis using split(2) by simp
qed

lemma delete_map_insert: "k \<notin> fst ` set m \<Longrightarrow> AList.delete k (map_insert k v m) = m"
proof -
  have "AList.delete k (insort_key fst (k, v) m) = AList.delete k m" by (induction m) auto
  moreover assume "k \<notin> fst ` set m"
  ultimately show ?thesis by (simp add: map_insert_def AList.delete_idem)
qed

lemma map_of_map_insert: "k \<notin> fst ` set m \<Longrightarrow> map_of (map_insert k v m) k = Some v"
proof -
  have "k \<notin> fst ` set m \<Longrightarrow> map_of (insort_key fst (k, v) m) k = Some v" by (induction m) auto
  then show "k \<notin> fst ` set m \<Longrightarrow> map_of (map_insert k v m) k = Some v" by (simp add: map_insert_def)
qed

lemma mq_touch_nil: "mq_map mq queue = Some (mq_info queue mq) \<Longrightarrow> mq_touch queue [] mq = mq"
  by (simp add: mq_touch_def mq_upd_info_def touch_worker_def fun_upd_idem)

lemma hustmq_ack_existing:
  assumes "mq_wf contents queue mq" "tb_name_check ack" "map_of (qi_unacked (mq_info queue mq)) ack = Some t"
  shows "hustmq_ack S queue ack mq =
    (let info = mq_info queue mq;
         mq2 = mq_upd_info queue (info\<lparr>qi_redelivery := redelivery_erase t ack (qi_redelivery info),
                                   qi_unacked := AList.delete ack (qi_unacked info)\<rparr>) mq;
         (r, s) = st_del S (message_key queue ack) (mq_store mq)
     in (r, mq2\<lparr>mq_store := s\<rparr>))"
  using assms(2,3) mq_wfD(1,2) [OF assms(1)]
  by (simp add: hustmq_ack_def find_queue_existing [OF assms(1)] mq_touch_nil Let_def)

lemma mq_wf_upd_info:
  assumes "mq_wf contents queue mq" "qi_offset info = qi_offset (mq_info queue mq)"
  shows "mq_wf contents queue (mq_upd_info queue info mq)"
    "mq_ready contents queue (mq_upd_info queue info mq) = mq_ready contents queue mq"
    "mq_stat queue (mq_upd_info queue info mq) = mq_stat queue mq"
  using assms by (intro mq_wf_store [OF assms(1)]; simp)+

lemma mq_upd_info_idem:
  assumes "mq_map mq queue = Some info"
  shows "mq_upd_info queue info (mq_upd_info queue info' mq) = mq"
  using assms by (simp add: mq_upd_info_def fun_upd_idem)

text \<open>
  C13. Acknowledging by hand is the same as automatic acknowledgement: a worker that takes the
  next message with \<open>ack=false\<close> and acknowledges its token at once is given the same message
  and leaves the server in exactly the same state as one that takes it with \<open>ack=true\<close>,
  whatever other deliveries are outstanding.
\<close>

theorem manual_ack_equals_auto_ack:
  assumes "storage_ok S contents" and "mq_wf contents queue mq" and "worker_ok worker"
    and "qi_redelivery (mq_info queue mq) = []
      \<or> int (mq_now mq) - int (fst (hd (qi_redelivery (mq_info queue mq)))) < int (q_timeout (mq_stat queue mq) * 60)"
    and "sorted (map fst (qi_redelivery (mq_info queue mq)))"
    and "pq_next (mq_ready contents queue mq) = Some p"
    and "token = message_token p ((q_word (mq_stat queue mq) (p * 2) + 1) mod CYCLE_QUEUE_ITEM_NUM)"
    and "token \<notin> fst ` set (qi_unacked (mq_info queue mq))" and "token \<notin> snd ` set (qi_redelivery (mq_info queue mq))"
  shows "let (rp, mq1) = hustmq_get_handler S queue worker False mq;
             (r, mq2) = hustmq_ack S queue (rp_unacked rp) mq1;
             (rp', mq3) = hustmq_get_handler S queue worker True mq
         in rp_code rp = 0 \<and> rp_code rp' = 0 \<and> rp_item rp = rp_item rp' \<and> mq2 = mq3"
proof -
  define mq2 where "mq2 = mq_set_word (qi_offset (mq_info queue mq)) (p * 2)
    ((q_word (mq_stat queue mq) (p * 2) + 1) mod CYCLE_QUEUE_ITEM_NUM) (mq_touch queue worker mq)"
  let ?m = "hd (mq_ready contents queue mq p)" and ?info = "mq_info queue mq2" and ?now = "trunc 32 (mq_now mq)"
  define info' where "info' = ?info\<lparr>qi_unacked := map_insert token ?now (qi_unacked ?info),
    qi_redelivery := multimap_insert ?now token (qi_redelivery ?info)\<rparr>"
  obtain wf2: "mq_wf contents queue mq2" and i2: "?info = mq_info queue (mq_touch queue worker mq)" and p2: "p \<le> 2"
    and g: "hustmq_get S queue worker False mq = (\<lparr>rp_code = 0, rp_ack = message_key queue token, rp_unacked = token,
      rp_item = ?m\<rparr>, mq_upd_info queue info' mq2)"
    by (rule hustmq_get_ready [OF assms(1-4,6), of False]) (auto simp: Let_def mq2_def info'_def assms(7))
  have gt: "hustmq_get S queue worker True mq = (\<lparr>rp_code = 0, rp_ack = message_key queue token, rp_unacked = [],
      rp_item = ?m\<rparr>, mq2)"
    by (rule hustmq_get_ready [OF assms(1-4,6), of True]) (auto simp: Let_def mq2_def assms(7))
  have tk: "tb_name_check token"
    unfolding assms(7) by (rule message_token_valid [OF p2]) (simp add: CYCLE_QUEUE_ITEM_NUM_def)
  have wf1: "mq_wf contents queue (mq_upd_info queue info' mq2)"
    by (rule mq_wf_upd_info [OF wf2]) (simp add: info'_def)
  have un: "map_of (qi_unacked (mq_info queue (mq_upd_info queue info' mq2))) token = Some ?now"
    using map_of_map_insert assms(8) by (simp add: info'_def i2)
  have er: "redelivery_erase ?now token (qi_redelivery info') = qi_redelivery ?info"
    "AList.delete token (qi_unacked info') = qi_unacked ?info"
    using redelivery_erase_insert [OF assms(5)] delete_map_insert assms(8,9) by (force simp: info'_def i2)+
  have "info'\<lparr>qi_redelivery := qi_redelivery ?info, qi_unacked := qi_unacked ?info\<rparr> = ?info"
    by (simp add: info'_def)
  then have "hustmq_ack S queue token (mq_upd_info queue info' mq2) =
    (let (r, s) = st_del S (message_key queue token) (mq_store mq2) in (r, mq2\<lparr>mq_store := s\<rparr>))"
    using hustmq_ack_existing [OF wf1 tk un, of S] mq_upd_info_idem [OF mq_wfD(2) [OF wf2]] by (simp add: er)
  then show ?thesis
    by (simp add: hustmq_get_handler_def g gt hustmq_ack_inner_def split: prod.split)
qed

theorem manual_ack_equals_auto_ack_witness:
  "let (rp, mq1) = hustmq_get_handler alist_storage ex_queue ex_worker False ex_mq2;
       (r, mq2) = hustmq_ack alist_storage ex_queue (rp_unacked rp) mq1;
       (rp', mq3) = hustmq_get_handler alist_storage ex_queue ex_worker True ex_mq2
   in rp_code rp = 0 \<and> rp_code rp' = 0 \<and> rp_item rp = rp_item rp' \<and> mq2 = mq3"
proof -
  have inv: "storage_ok alist_storage map_of" "mq_wf map_of ex_queue ex_mq2" "worker_ok ex_worker"
    "qi_redelivery (mq_info ex_queue ex_mq2) = []"
    using ex_mq2_inv by (simp_all add: mq_inv_def)
  have "qi_unacked (mq_info ex_queue ex_mq2) = []" "pq_next (mq_ready map_of ex_queue ex_mq2) = Some 0"
    by code_simp+
  then show ?thesis
    using manual_ack_equals_auto_ack [OF inv(1-3) disjI1 [OF inv(4)] _ _ refl, of 0] inv(4) by simp
qed

section \<open>Redelivery\<close>

lemma mq_wf_now [simp]:
  "mq_wf contents queue (mq\<lparr>mq_now := t\<rparr>) = mq_wf contents queue mq"
  "mq_ready contents queue (mq\<lparr>mq_now := t\<rparr>) = mq_ready contents queue mq"
  "mq_stat queue (mq\<lparr>mq_now := t\<rparr>) = mq_stat queue mq" "mq_info queue (mq\<lparr>mq_now := t\<rparr>) = mq_info queue mq"
  by (simp_all add: mq_wf_def mq_ready_def mq_stat_def mq_info_def fun_eq_iff)

text \<open>What \<open>hustmq_get\<close> does when the first delivery of the multimap is overdue.\<close>

lemma hustmq_get_overdue:
  assumes wf: "mq_wf contents queue mq" and w: "worker_ok worker"
    and re: "qi_redelivery (mq_info queue mq) = (t, token) # rest"
    and od: "int (q_timeout (mq_stat queue mq) * 60) \<le> int (mq_now mq) - int t"
  defines "mq2 \<equiv> mq_upd_info queue ((mq_info queue (mq_touch queue worker mq))\<lparr>qi_redelivery := rest\<rparr>) (mq_touch queue worker mq)"
  shows "hustmq_get S queue worker False mq =
    (case st_get S (message_key queue token) (mq_store mq) of (r, item, _) \<Rightarrow>
       if r \<noteq> 0 then (\<lparr>rp_code = r, rp_ack = message_key queue token, rp_unacked = [], rp_item = []\<rparr>, mq2)
       else (\<lparr>rp_code = 0, rp_ack = message_key queue token, rp_unacked = token, rp_item = item\<rparr>,
             mq_upd_info queue ((mq_info queue mq2)
               \<lparr>qi_unacked := map_insert token (trunc 32 (mq_now mq)) (qi_unacked (mq_info queue mq)),
                qi_redelivery := multimap_insert (trunc 32 (mq_now mq)) token rest\<rparr>) mq2))"
proof -
  have pick: "mq_pick queue (qi_offset (mq_info queue mq)) (mq_touch queue worker mq) = Some (token, mq2)"
    using re od by (simp add: mq_pick_def mq2_def mq_stat_def Let_def)
  have "drop (length queue + 1) (message_key queue token) = token" by (simp add: message_key_def)
  then show ?thesis
    using mq_wfD(1) [OF wf] w
    by (simp add: hustmq_get_def find_queue_existing [OF wf] pick worker_ok_def Let_def mq2_def split: prod.split)
qed

text \<open>The state after the first delivery, of a queue with no outstanding delivery.\<close>

definition mq_quiet :: "bytes \<Rightarrow> 's hustmq \<Rightarrow> bool" where
  "mq_quiet queue mq \<longleftrightarrow> qi_redelivery (mq_info queue mq) = [] \<and> qi_unacked (mq_info queue mq) = [] \<and> mq_now mq < 2 ^ 32"

lemma first_delivery:
  fixes mq :: "'s hustmq"
  assumes S: "storage_ok S contents" and wf: "mq_wf contents queue mq" and w: "worker_ok worker" and q: "mq_quiet queue mq"
    and p: "pq_next (mq_ready contents queue mq) = Some p" and g: "hustmq_get S queue worker False mq = (rp, mq1)"
  obtains t where "rp_code rp = 0" "rp_ack rp = message_key queue (rp_unacked rp)" "rp_item rp = hd (mq_ready contents queue mq p)" "mq_wf contents queue mq1"
    "mq_ready contents queue mq1 = (mq_ready contents queue mq)(p := tl (mq_ready contents queue mq p))"
    "qi_redelivery (mq_info queue mq1) = [(mq_now mq, rp_unacked rp)]"
    "qi_unacked (mq_info queue mq1) = [(rp_unacked rp, mq_now mq)]"
    "contents (mq_store mq1) (message_key queue (rp_unacked rp)) = Some (rp_item rp, t)"
    "q_timeout (mq_stat queue mq1) = q_timeout (mq_stat queue mq)"
    "\<forall>p'\<le>2. \<forall>i<q_len (mq_stat queue mq1) p'. q_key queue (mq_stat queue mq1) p' i \<noteq> message_key queue (rp_unacked rp)"
proof -
  have re: "qi_redelivery (mq_info queue mq) = []" "qi_unacked (mq_info queue mq) = []" "trunc 32 (mq_now mq) = mq_now mq"
    using q by (simp_all add: mq_quiet_def trunc_def)
  show thesis
  proof (rule hustmq_get_ready [OF S wf w disjI1 [OF re(1)] p, of False])
    fix mq2 :: "'s hustmq" and tag t
    let ?tk = "message_token p tag"
    let ?info = "mq_info queue mq2"
    let ?mq1 = "mq_upd_info queue (?info\<lparr>qi_unacked := map_insert ?tk (trunc 32 (mq_now mq)) (qi_unacked ?info),
      qi_redelivery := multimap_insert (trunc 32 (mq_now mq)) ?tk (qi_redelivery ?info)\<rparr>) mq2"
    assume f: "mq_wf contents queue mq2"
      "mq_ready contents queue mq2 = (mq_ready contents queue mq)(p := tl (mq_ready contents queue mq p))"
      "contents (mq_store mq2) (message_key queue ?tk) = Some (hd (mq_ready contents queue mq p), t)"
      "\<forall>p'\<le>2. \<forall>i<q_len (mq_stat queue mq2) p'. q_key queue (mq_stat queue mq2) p' i \<noteq> message_key queue ?tk"
      "?info = mq_info queue (mq_touch queue worker mq)"
      "q_timeout (mq_stat queue mq2) = q_timeout (mq_stat queue mq)"
    assume "hustmq_get S queue worker False mq =
       (if False then (\<lparr>rp_code = 0, rp_ack = message_key queue (message_token p tag), rp_unacked = [],
                        rp_item = hd (mq_ready contents queue mq p)\<rparr>, mq2)
        else let info = mq_info queue mq2; now = trunc 32 (mq_now mq) in
             (\<lparr>rp_code = 0, rp_ack = message_key queue (message_token p tag), rp_unacked = message_token p tag,
               rp_item = hd (mq_ready contents queue mq p)\<rparr>,
              mq_upd_info queue (info\<lparr>qi_unacked := map_insert (message_token p tag) now (qi_unacked info),
                qi_redelivery := multimap_insert now (message_token p tag) (qi_redelivery info)\<rparr>) mq2))"
    then have e: "rp = \<lparr>rp_code = 0, rp_ack = message_key queue ?tk, rp_unacked = ?tk,
        rp_item = hd (mq_ready contents queue mq p)\<rparr>" "mq1 = ?mq1"
      using g by (simp_all add: Let_def)
    have u: "map_insert ?tk (mq_now mq) [] = [(?tk, mq_now mq)]" "multimap_insert (mq_now mq) ?tk [] = [(mq_now mq, ?tk)]"
      by (simp_all add: map_insert_def multimap_insert_def)
    have o: "qi_offset (?info\<lparr>qi_unacked := x, qi_redelivery := y\<rparr>) = qi_offset ?info" for x y by simp
    note wf1 = mq_wf_upd_info [OF f(1) o]
    show thesis
      by (rule that [of t]) (use f re wf1 in \<open>simp_all add: e u f(5)\<close>)
  qed
qed

lemma second_delivery:
  assumes S: "storage_ok S contents" and wf: "mq_wf contents queue mq" and w: "worker_ok worker"
    and re: "qi_redelivery (mq_info queue mq) = [(t, token)]" and un: "qi_unacked (mq_info queue mq) = [(token, t)]"
    and c: "contents (mq_store mq) (message_key queue token) = Some (m, ttl)"
    and now: "t + q_timeout (mq_stat queue mq) * 60 \<le> mq_now mq" "mq_now mq < 2 ^ 32"
  obtains mq2 where "hustmq_get S queue worker False mq =
      (\<lparr>rp_code = 0, rp_ack = message_key queue token, rp_unacked = token, rp_item = m\<rparr>, mq2)"
    "mq_wf contents queue mq2" "mq_ready contents queue mq2 = mq_ready contents queue mq"
    "mq_stat queue mq2 = mq_stat queue mq" "mq_store mq2 = mq_store mq"
    "qi_redelivery (mq_info queue mq2) = [(mq_now mq, token)]" "qi_unacked (mq_info queue mq2) = [(token, t)]"
proof -
  have od: "int (q_timeout (mq_stat queue mq) * 60) \<le> int (mq_now mq) - int t" using now by linarith
  have st: "st_get S (message_key queue token) (mq_store mq) = (0, m, ttl)" by (rule storage_get(1) [OF S c])
  have tr: "trunc 32 (mq_now mq) = mq_now mq" using now by (simp add: trunc_def)
  have u: "map_insert token n [(token, t)] = [(token, t)]" "multimap_insert n token [] = [(n, token)]" for n
    by (simp_all add: map_insert_def multimap_insert_def)
  note t1 = mq_touch_wf [OF wf, of worker]
  note g = hustmq_get_overdue [OF wf w re od, of S, unfolded st tr un u]
  show thesis
    by (rule that, rule trans [OF g], simp)
      (use mq_wf_upd_info [OF mq_wf_upd_info(1) [OF t1(1)]] mq_wf_upd_info [OF t1(1)] t1 in simp_all)
qed

text \<open>
  Gets of a queue without automatic acknowledgement, each by some worker at some time, and
  their replies.
\<close>

primrec mq_gets :: "'s storage \<Rightarrow> bytes \<Rightarrow> (bytes \<times> nat) list \<Rightarrow> 's hustmq \<Rightarrow> mq_reply list" where
  "mq_gets S queue [] mq = []"
| "mq_gets S queue (g # gs) mq =
     (let (rp, mq') = hustmq_get S queue (fst g) False (mq\<lparr>mq_now := snd g\<rparr>) in rp # mq_gets S queue gs mq')"

lemma multimap_insert_behind:
  "\<forall>e\<in>set xs. fst e \<le> k \<Longrightarrow> multimap_insert k v (xs @ ys) = xs @ multimap_insert k v ys"
  by (simp add: multimap_insert_def)

lemma overdue_moves_back:
  assumes wf: "mq_wf contents queue mq" and w: "worker_ok worker"
    and re: "qi_redelivery (mq_info queue mq) = (t, token) # rest"
    and od: "int (q_timeout (mq_stat queue mq) * 60) \<le> int (mq_now mq) - int t"
    and g: "hustmq_get S queue worker False mq = (rp, mq')"
  shows "mq_wf contents queue mq'" "mq_store mq' = mq_store mq" "mq_stat queue mq' = mq_stat queue mq"
    "qi_redelivery (mq_info queue mq') = rest
     \<or> qi_redelivery (mq_info queue mq') = multimap_insert (trunc 32 (mq_now mq)) token rest"
proof -
  obtain r m x where st: "st_get S (message_key queue token) (mq_store mq) = (r, m, x)" using prod_cases3 by blast
  note t1 = mq_touch_wf [OF wf, of worker]
  note w1 = mq_wf_upd_info [OF t1(1)]
  note w2 = mq_wf_upd_info [OF w1(1)]
  note h = hustmq_get_overdue [OF wf w re od, of S, unfolded g st prod.case]
  have "mq_wf contents queue mq' \<and> mq_store mq' = mq_store mq \<and> mq_stat queue mq' = mq_stat queue mq \<and>
    (qi_redelivery (mq_info queue mq') = rest
     \<or> qi_redelivery (mq_info queue mq') = multimap_insert (trunc 32 (mq_now mq)) token rest)"
    using h w1 w2 by (cases "r = 0") simp_all
  then show "mq_wf contents queue mq'" "mq_store mq' = mq_store mq" "mq_stat queue mq' = mq_stat queue mq"
    "qi_redelivery (mq_info queue mq') = rest
     \<or> qi_redelivery (mq_info queue mq') = multimap_insert (trunc 32 (mq_now mq)) token rest" by blast+
qed

text \<open>An overdue delivery is repeated after the ones ahead of it in the multimap.\<close>

lemma redelivered_in_turn:
  assumes S: "storage_ok S contents" and "mq_wf contents queue mq"
    and "qi_redelivery (mq_info queue mq) = older @ (t, token) # younger" and "\<forall>e\<in>set older. fst e \<le> t"
    and "contents (mq_store mq) (message_key queue token) = Some (m, ttl)" and "length older < length gets"
    and "\<forall>(w, n)\<in>set gets. worker_ok w \<and> t + q_timeout (mq_stat queue mq) * 60 \<le> n \<and> n < 2 ^ 32"
  shows "\<lparr>rp_code = 0, rp_ack = message_key queue token, rp_unacked = token, rp_item = m\<rparr> \<in> set (mq_gets S queue gets mq)"
  using assms(2-)
proof (induction gets arbitrary: mq older younger)
  case (Cons g gs)
  obtain w n where g: "g = (w, n)" by fastforce
  have w: "worker_ok w" and n: "t + q_timeout (mq_stat queue mq) * 60 \<le> n" "trunc 32 n = n"
    using Cons.prems(6) by (auto simp: g trunc_def)
  have wf: "mq_wf contents queue (mq\<lparr>mq_now := n\<rparr>)" using Cons.prems(1) by simp
  have get: "st_get S (message_key queue token) (mq_store mq) = (0, m, ttl)" by (rule storage_get(1) [OF S Cons.prems(4)])
  show ?case
  proof (cases older)
    case Nil
    have od: "int (q_timeout (mq_stat queue (mq\<lparr>mq_now := n\<rparr>)) * 60) \<le> int (mq_now (mq\<lparr>mq_now := n\<rparr>)) - int t"
      using n(1) by simp
    from hustmq_get_overdue [OF wf w _ od, of token younger S] show ?thesis
      using Cons.prems(2) get by (simp add: Nil g)
  next
    case old: (Cons e older')
    obtain t0 k0 where e: "e = (t0, k0)" by fastforce
    have od: "int (q_timeout (mq_stat queue (mq\<lparr>mq_now := n\<rparr>)) * 60) \<le> int (mq_now (mq\<lparr>mq_now := n\<rparr>)) - int t0"
      using n(1) Cons.prems(3) by (simp add: old e)
    have re: "qi_redelivery (mq_info queue (mq\<lparr>mq_now := n\<rparr>)) = (t0, k0) # older' @ (t, token) # younger"
      using Cons.prems(2) by (simp add: old e)
    obtain rp mq' where h: "hustmq_get S queue w False (mq\<lparr>mq_now := n\<rparr>) = (rp, mq')" by fastforce
    note o = overdue_moves_back [OF wf w re od h]
    have "\<forall>e\<in>set (older' @ [(t, token)]). fst e \<le> n" using Cons.prems(3) n(1) by (auto simp: old)
    from multimap_insert_behind [OF this, of k0 younger]
    have "\<exists>younger'. qi_redelivery (mq_info queue mq') = older' @ (t, token) # younger'"
      using o(4) n(2) by auto
    then obtain younger' where y: "qi_redelivery (mq_info queue mq') = older' @ (t, token) # younger'" by blast
    have "\<lparr>rp_code = 0, rp_ack = message_key queue token, rp_unacked = token, rp_item = m\<rparr> \<in> set (mq_gets S queue gs mq')"
      by (rule Cons.IH [OF o(1) y]) (use Cons.prems(3-6) o(2,3) in \<open>auto simp: old\<close>)
    then show ?thesis by (simp add: g h)
  qed
qed simp


text \<open>What a successful get leaves behind, whether it delivers for the first time or again.\<close>

lemma delivery_recorded:
  fixes mq :: "'s hustmq"
  assumes S: "storage_ok S contents" and wf: "mq_wf contents queue mq" and w: "worker_ok worker" and now: "mq_now mq < 2 ^ 32"
    and g: "hustmq_get S queue worker False mq = (rp, mq1)" and ok: "rp_code rp = 0"
  obtains token m ttl rest where "rp = \<lparr>rp_code = 0, rp_ack = message_key queue token, rp_unacked = token, rp_item = m\<rparr>"
    "qi_redelivery (mq_info queue mq1) = multimap_insert (mq_now mq) token rest"
    "contents (mq_store mq1) (message_key queue token) = Some (m, ttl)" "mq_wf contents queue mq1"
    "q_timeout (mq_stat queue mq1) = q_timeout (mq_stat queue mq)"
proof -
  have tr: "trunc 32 (mq_now mq) = mq_now mq" using now by (simp add: trunc_def)
  let ?re = "qi_redelivery (mq_info queue mq)"
  show thesis
  proof (cases "?re = [] \<or> int (mq_now mq) - int (fst (hd ?re)) < int (q_timeout (mq_stat queue mq) * 60)")
    case True
    then obtain p where p: "pq_next (mq_ready contents queue mq) = Some p"
      using hustmq_get_empty [OF wf w True, of S False] g ok by (cases "pq_next (mq_ready contents queue mq)") (auto simp: mq_error_def)
    show thesis
    proof (rule hustmq_get_ready [OF S wf w True p, of False])
      fix mq2 :: "'s hustmq" and tag t
      let ?tk = "message_token p tag" and ?info = "mq_info queue mq2"
      assume f: "mq_wf contents queue mq2" "q_timeout (mq_stat queue mq2) = q_timeout (mq_stat queue mq)"
        "contents (mq_store mq2) (message_key queue ?tk) = Some (hd (mq_ready contents queue mq p), t)"
      assume "hustmq_get S queue worker False mq =
         (if False then (\<lparr>rp_code = 0, rp_ack = message_key queue ?tk, rp_unacked = [],
                          rp_item = hd (mq_ready contents queue mq p)\<rparr>, mq2)
          else let info = mq_info queue mq2; now = trunc 32 (mq_now mq) in
               (\<lparr>rp_code = 0, rp_ack = message_key queue ?tk, rp_unacked = ?tk,
                 rp_item = hd (mq_ready contents queue mq p)\<rparr>,
                mq_upd_info queue (info\<lparr>qi_unacked := map_insert ?tk now (qi_unacked info),
                  qi_redelivery := multimap_insert now ?tk (qi_redelivery info)\<rparr>) mq2))"
      then show thesis
        using g f tr mq_wf_upd_info [OF f(1), of "?info\<lparr>qi_unacked := x, qi_redelivery := y\<rparr>" for x y]
        by (intro that [of ?tk "hd (mq_ready contents queue mq p)" "qi_redelivery ?info" t]) (auto simp: Let_def)
    qed
  next
    case False
    then obtain t token rest where re: "?re = (t, token) # rest" by (cases ?re) auto
    have od: "int (q_timeout (mq_stat queue mq) * 60) \<le> int (mq_now mq) - int t" using False re by simp
    obtain r m x where st: "st_get S (message_key queue token) (mq_store mq) = (r, m, x)" using prod_cases3 by blast
    note h = hustmq_get_overdue [OF wf w re od, of S, unfolded g st prod.case]
    have r: "r = 0" using h ok by (auto split: if_splits)
    then have c: "contents (mq_store mq) (message_key queue token) = Some (m, x)"
      using storage_get(1) [OF S, of "mq_store mq"] storage_get(2) [OF S, of "mq_store mq" "message_key queue token"] st
      by (cases "contents (mq_store mq) (message_key queue token)") auto
    note o = overdue_moves_back [OF wf w re od g]
    show thesis
      using h r c o(1-3) tr by (intro that [of token m rest x]) simp_all
  qed
qed

text \<open>
  C23. A delivered message that is not acknowledged is delivered again: once the timeout of the
  queue (in minutes) has passed, it is among the next deliveries, as the same message under
  the same token, whatever messages are waiting. Other deliveries may be outstanding; those
  that are due earlier come first, so that as many gets suffice as there are outstanding
  deliveries. The gets, by any workers, are without automatic acknowledgement, with no acknowledgement and no
  purge in between. The lock of the queue plays no role, since \<open>hustmq_get\<close> does not read it.
\<close>

theorem unacked_message_redelivered:
  assumes "storage_ok S contents" and "mq_wf contents queue mq" and "worker_ok worker" and "mq_now mq < 2 ^ 32"
    and "hustmq_get S queue worker False mq = (rp, mq1)" and "rp_code rp = 0"
    and "length (qi_redelivery (mq_info queue mq1)) \<le> length gets"
    and "\<forall>(w, t)\<in>set gets. worker_ok w \<and> mq_now mq + q_timeout (mq_stat queue mq) * 60 \<le> t \<and> t < 2 ^ 32"
  shows "rp \<in> set (mq_gets S queue gets mq1)"
proof (rule delivery_recorded [OF assms(1-6)])
  fix token m :: bytes and ttl :: nat and rest :: "(nat \<times> bytes) list"
  let ?older = "takeWhile (\<lambda>e. fst e \<le> mq_now mq) rest" and ?younger = "dropWhile (\<lambda>e. fst e \<le> mq_now mq) rest"
  assume d: "rp = \<lparr>rp_code = 0, rp_ack = message_key queue token, rp_unacked = token, rp_item = m\<rparr>"
    "qi_redelivery (mq_info queue mq1) = multimap_insert (mq_now mq) token rest"
    "contents (mq_store mq1) (message_key queue token) = Some (m, ttl)" "mq_wf contents queue mq1"
    "q_timeout (mq_stat queue mq1) = q_timeout (mq_stat queue mq)"
  have re: "qi_redelivery (mq_info queue mq1) = ?older @ (mq_now mq, token) # ?younger"
    using d(2) by (simp add: multimap_insert_def)
  then have "length ?older < length gets" using assms(7) by simp
  moreover have "\<forall>e\<in>set ?older. fst e \<le> mq_now mq" by (auto dest: set_takeWhileD)
  ultimately show ?thesis
    unfolding d(1) by (intro redelivered_in_turn [OF assms(1) d(4) re _ d(3)]) (use assms(8) d(5) in auto)
qed

text \<open>The state after acknowledging a message whose last delivery was not its first.\<close>

lemma acked_late:
  assumes S: "storage_ok S contents" and wf: "mq_wf contents queue mq" and "qi_redelivery (mq_info queue mq) = [(t', token)]"
    and un: "qi_unacked (mq_info queue mq) = [(token, t)]" and "t \<noteq> t'"
    and nr: "\<forall>p'\<le>2. \<forall>i<q_len (mq_stat queue mq) p'. q_key queue (mq_stat queue mq) p' i \<noteq> message_key queue token"
    and a: "hustmq_ack S queue token mq = (0, mq')"
  shows "mq_wf contents queue mq'" "mq_ready contents queue mq' = mq_ready contents queue mq"
    "mq_stat queue mq' = mq_stat queue mq" "qi_redelivery (mq_info queue mq') = [(t', token)]"
    "contents (mq_store mq') (message_key queue token) = None"
proof -
  have "tb_name_check token" by (rule ccontr) (use a in \<open>simp add: hustmq_ack_def\<close>)
  moreover have "redelivery_erase t token [(t', token)] = [(t', token)]" using assms(5) by (simp add: redelivery_erase_def)
  ultimately obtain s where d: "st_del S (message_key queue token) (mq_store mq) = (0, s)"
    and m: "mq' = (mq_upd_info queue ((mq_info queue mq)\<lparr>qi_redelivery := [(t', token)], qi_unacked := []\<rparr>) mq)\<lparr>mq_store := s\<rparr>"
    using hustmq_ack_existing [OF wf, of token t S] a assms(3,4) by (auto simp: Let_def split: prod.splits)
  have "\<forall>p'\<le>2. \<forall>i<q_len (mq_stat queue mq) p'.
      contents (mq_store mq') (q_key queue (mq_stat queue mq) p' i)
        = contents (mq_store mq) (q_key queue (mq_stat queue mq) p' i)"
    using nr storage_del(1) [OF S d] by (simp add: m)
  moreover have i: "mq_info queue mq' = (mq_info queue mq)\<lparr>qi_redelivery := [(t', token)], qi_unacked := []\<rparr>"
    "mq_map mq' queue \<noteq> None" "mq_index mq' = mq_index mq"
    by (simp_all add: m mq_info_def mq_upd_info_def)
  ultimately show "mq_wf contents queue mq'" "mq_ready contents queue mq' = mq_ready contents queue mq"
      "mq_stat queue mq' = mq_stat queue mq"
    using mq_wf_store [OF wf] by simp_all
  show "qi_redelivery (mq_info queue mq') = [(t', token)]" by (simp add: i)
  show "contents (mq_store mq') (message_key queue token) = None" using storage_del(2) [OF S d] by (simp add: m)
qed

text \<open>
  C38. A message that was redelivered leaves a stale entry behind when it is acknowledged:
  the acknowledgement looks for the time of the first delivery, which \<open>std::map::insert\<close> did
  not replace. When the timeout has passed once more, \<open>hustmq_get\<close> picks that entry, finds no
  message in storage and answers \<open>ENOENT\<close>, although other messages may be waiting. No other delivery of the queue is
  outstanding, and its timeout is not 0.
\<close>

theorem ack_after_redelivery_leaves_stale_entry:
  assumes "storage_ok S contents" and "mq_wf contents queue mq" and "worker_ok worker"
    and "mq_quiet queue mq" and "pq_next (mq_ready contents queue mq) = Some p"
    and "0 < q_timeout (mq_stat queue mq)"
    and "hustmq_get S queue worker False mq = (rp, mq1)"
    and "mq_now mq + q_timeout (mq_stat queue mq) * 60 \<le> t1" and "t1 < 2 ^ 32"
    and "hustmq_get S queue worker False (mq1\<lparr>mq_now := t1\<rparr>) = (rp', mq2)"
    and "hustmq_ack S queue (rp_unacked rp') mq2 = (0, mq3)"
    and "t1 + q_timeout (mq_stat queue mq) * 60 \<le> t2"
  shows "rp_code (fst (hustmq_get S queue worker False (mq3\<lparr>mq_now := t2\<rparr>))) = ENOENT
    \<and> mq_ready contents queue mq3 = (mq_ready contents queue mq)(p := tl (mq_ready contents queue mq p))"
proof (rule first_delivery [OF assms(1-5,7)])
  fix t
  assume f: "mq_wf contents queue mq1" "qi_redelivery (mq_info queue mq1) = [(mq_now mq, rp_unacked rp)]"
    "mq_ready contents queue mq1 = (mq_ready contents queue mq)(p := tl (mq_ready contents queue mq p))"
    "qi_unacked (mq_info queue mq1) = [(rp_unacked rp, mq_now mq)]"
    "contents (mq_store mq1) (message_key queue (rp_unacked rp)) = Some (rp_item rp, t)"
    "q_timeout (mq_stat queue mq1) = q_timeout (mq_stat queue mq)"
    "\<forall>p'\<le>2. \<forall>i<q_len (mq_stat queue mq1) p'. q_key queue (mq_stat queue mq1) p' i \<noteq> message_key queue (rp_unacked rp)"
  show ?thesis
  proof (rule second_delivery [where queue = queue and mq = "mq1\<lparr>mq_now := t1\<rparr>", OF assms(1) _ assms(3)])
    fix mq2'
    assume "hustmq_get S queue worker False (mq1\<lparr>mq_now := t1\<rparr>) =
        (\<lparr>rp_code = 0, rp_ack = message_key queue (rp_unacked rp), rp_unacked = rp_unacked rp, rp_item = rp_item rp\<rparr>, mq2')"
    then have e: "mq2' = mq2" "rp_unacked rp' = rp_unacked rp" using assms(10) by auto
    assume "mq_wf contents queue mq2'" "mq_ready contents queue mq2' = mq_ready contents queue (mq1\<lparr>mq_now := t1\<rparr>)"
      "mq_stat queue mq2' = mq_stat queue (mq1\<lparr>mq_now := t1\<rparr>)" "mq_store mq2' = mq_store (mq1\<lparr>mq_now := t1\<rparr>)"
      "qi_redelivery (mq_info queue mq2') = [(mq_now (mq1\<lparr>mq_now := t1\<rparr>), rp_unacked rp)]"
      "qi_unacked (mq_info queue mq2') = [(rp_unacked rp, mq_now mq)]"
    then have g: "mq_wf contents queue mq2" "mq_ready contents queue mq2 = mq_ready contents queue mq1"
      "mq_stat queue mq2 = mq_stat queue mq1" "mq_store mq2 = mq_store mq1"
      "qi_redelivery (mq_info queue mq2) = [(t1, rp_unacked rp)]" "qi_unacked (mq_info queue mq2) = [(rp_unacked rp, mq_now mq)]"
      by (simp_all add: e)
    have "hustmq_ack S queue (rp_unacked rp) mq2 = (0, mq3)" "mq_now mq \<noteq> t1" using assms(6,8,11) by (auto simp: e)
    note m3 = acked_late [OF assms(1) g(1,5,6) this(2) _ this(1), unfolded g(3), OF f(7)]
    from storage_get(2) [OF assms(1) m3(5)]
    have gn: "fst (st_get S (message_key queue (rp_unacked rp)) (mq_store mq3)) = ENOENT" .
    have "rp_code (fst (hustmq_get S queue worker False (mq3\<lparr>mq_now := t2\<rparr>))) = ENOENT"
      using hustmq_get_overdue [of contents queue "mq3\<lparr>mq_now := t2\<rparr>" worker t1 "rp_unacked rp" "[]" S]
        m3 assms(3,12) gn f(6) by (simp split: prod.splits)
    then show ?thesis using m3(2) g(2) f(3) by simp
  qed (use f assms(8,9) in simp_all)
qed

theorem unacked_message_redelivered_witness:
  "let mq = snd (hustmq_get alist_storage ex_queue ex_worker False ex_mq2);
       (rp, mq1) = hustmq_get alist_storage ex_queue ex_worker False mq
   in rp_code rp = 0 \<and> rp_item rp = [2] \<and> length (qi_redelivery (mq_info ex_queue mq1)) = 2
      \<and> rp \<in> set (mq_gets alist_storage ex_queue [(ex_worker, 1300), (ex_worker, 1301)] mq1)"
proof -
  let ?mq = "snd (hustmq_get alist_storage ex_queue ex_worker False ex_mq2)"
  let ?g = "hustmq_get alist_storage ex_queue ex_worker False ?mq"
  let ?gets = "[(ex_worker, 1300), (ex_worker, 1301)]"
  have inv: "storage_ok alist_storage map_of" "mq_wf map_of ex_queue ex_mq2" "worker_ok ex_worker"
    using ex_mq2_inv by (simp_all add: mq_inv_def)
  have e: "mq_now ex_mq2 < 2 ^ 32" "rp_code (fst (hustmq_get alist_storage ex_queue ex_worker False ex_mq2)) = 0"
    "mq_now ?mq < 2 ^ 32" "rp_code (fst ?g) = 0" "length (qi_redelivery (mq_info ex_queue (snd ?g))) = 2"
    "rp_item (fst ?g) = [2]" "mq_now ?mq + q_timeout (mq_stat ex_queue ?mq) * 60 \<le> 1300" by code_simp+
  have wf: "mq_wf map_of ex_queue ?mq"
    by (rule delivery_recorded [OF inv e(1) surjective_pairing e(2)])
  have l: "length (qi_redelivery (mq_info ex_queue (snd ?g))) \<le> length ?gets" using e(5) by simp
  have t: "\<forall>(w, t)\<in>set ?gets. worker_ok w \<and> mq_now ?mq + q_timeout (mq_stat ex_queue ?mq) * 60 \<le> t \<and> t < 2 ^ 32"
    using inv(3) e(7) by simp
  show ?thesis
    using unacked_message_redelivered [OF inv(1) wf inv(3) e(3) surjective_pairing e(4) l t] e(4-6)
    by (simp add: Let_def split: prod.split) (metis fst_conv snd_conv)
qed

theorem ack_after_redelivery_leaves_stale_entry_witness:
  "\<exists>mq3 :: (bytes \<times> bytes \<times> nat) list hustmq.
     rp_code (fst (hustmq_get alist_storage ex_queue ex_worker False (mq3\<lparr>mq_now := 1600\<rparr>))) = ENOENT
     \<and> mq_ready map_of ex_queue mq3 0 = [[2]]"
proof -
  define g1 where "g1 = hustmq_get alist_storage ex_queue ex_worker False ex_mq2"
  define g2 where "g2 = hustmq_get alist_storage ex_queue ex_worker False ((snd g1)\<lparr>mq_now := 1300\<rparr>)"
  define g3 where "g3 = hustmq_ack alist_storage ex_queue (rp_unacked (fst g2)) (snd g2)"
  have inv: "storage_ok alist_storage map_of" "mq_wf map_of ex_queue ex_mq2" "worker_ok ex_worker"
    using ex_mq2_inv by (simp_all add: mq_inv_def)
  have e: "mq_quiet ex_queue ex_mq2" "pq_next (mq_ready map_of ex_queue ex_mq2) = Some 0"
    "0 < q_timeout (mq_stat ex_queue ex_mq2)" "mq_now ex_mq2 + q_timeout (mq_stat ex_queue ex_mq2) * 60 \<le> 1300"
    "(1300::nat) < 2 ^ 32" "1300 + q_timeout (mq_stat ex_queue ex_mq2) * 60 \<le> 1600"
    "mq_ready map_of ex_queue ex_mq2 0 = [[1], [2]]" by code_simp+
  have "fst g3 = 0" unfolding g3_def g2_def g1_def by code_simp
  then have "hustmq_ack alist_storage ex_queue (rp_unacked (fst g2)) (snd g2) = (0, snd g3)"
    by (metis g3_def surjective_pairing)
  from ack_after_redelivery_leaves_stale_entry [OF inv e(1-3) surjective_pairing e(4,5)
      surjective_pairing this [unfolded g1_def g2_def] e(6)] e(7)
  show ?thesis by (intro exI [of _ "snd g3"]) simp
qed

section \<open>Restart and purge\<close>

text \<open>
  C40. Outstanding deliveries do not survive a restart. After a restart the message that was
  delivered and never acknowledged is neither waiting nor recorded for redelivery, while
  its body is still in storage: the timeout never brings it back. No earlier delivery of the
  queue is outstanding.
\<close>

theorem restart_forgets_deliveries:
  assumes "storage_ok S contents" and "mq_registry mq" and "mq_wf contents queue mq" and "worker_ok worker"
    and "mq_quiet queue mq" and "pq_next (mq_ready contents queue mq) = Some p"
    and "hustmq_get S queue worker False mq = (rp, mq1)"
  shows "let mq2 = mq_restart mq1 in
    mq_wf contents queue mq2
    \<and> mq_ready contents queue mq2 = (mq_ready contents queue mq)(p := tl (mq_ready contents queue mq p))
    \<and> qi_redelivery (mq_info queue mq2) = [] \<and> qi_unacked (mq_info queue mq2) = []
    \<and> (\<exists>t. contents (mq_store mq2) (message_key queue (rp_unacked rp)) = Some (hd (mq_ready contents queue mq p), t))"
proof (rule first_delivery [OF assms(1,3-7)])
  fix t
  assume f: "mq_wf contents queue mq1" "rp_item rp = hd (mq_ready contents queue mq p)"
    "mq_ready contents queue mq1 = (mq_ready contents queue mq)(p := tl (mq_ready contents queue mq p))"
    "contents (mq_store mq1) (message_key queue (rp_unacked rp)) = Some (rp_item rp, t)"
  have reg: "mq_registry mq1" using get_registry [OF assms(2), of S queue worker False] assms(7) by simp
  have m1: "mq_map mq1 queue = Some (mq_info queue mq1)" by (rule mq_wfD(2) [OF f(1)])
  have o: "map_option qi_offset (mq_map (mq_restart mq1) queue) = Some (qi_offset (mq_info queue mq1))"
    by (simp add: restart_offset [OF reg] m1)
  then obtain i where i: "mq_map (mq_restart mq1) queue = Some (new_queue_info i)"
    by (auto simp: mq_restart_def init_queue_index_find)
  then have info: "mq_info queue (mq_restart mq1) = new_queue_info (qi_offset (mq_info queue mq1))"
    using o by (simp add: mq_info_def new_queue_info_def)
  have "mq_index (mq_restart mq1) = mq_index mq1" "mq_store (mq_restart mq1) = mq_store mq1"
    by (simp_all add: mq_restart_def)
  then have "mq_wf contents queue (mq_restart mq1)" "mq_ready contents queue (mq_restart mq1) = mq_ready contents queue mq1"
    using i info by (intro mq_wf_store [OF f(1)]; simp add: new_queue_info_def)+
  then show ?thesis
    using f info by (simp add: Let_def mq_restart_def new_queue_info_def)
qed

theorem restart_forgets_deliveries_witness:
  "qi_redelivery (mq_info ex_queue (mq_restart (snd (hustmq_get alist_storage ex_queue ex_worker False ex_mq2)))) = []
   \<and> mq_ready map_of ex_queue (mq_restart (snd (hustmq_get alist_storage ex_queue ex_worker False ex_mq2))) 0 = [[2]]"
proof -
  have inv: "mq_wf map_of ex_queue ex_mq2" "worker_ok ex_worker" using ex_mq2_inv by (simp_all add: mq_inv_def)
  have e: "mq_quiet ex_queue ex_mq2" "pq_next (mq_ready map_of ex_queue ex_mq2) = Some 0"
    "mq_ready map_of ex_queue ex_mq2 0 = [[1], [2]]" by code_simp+
  show ?thesis
    using restart_forgets_deliveries [OF alist_storage_ok ex_mq2_registry inv e(1,2) surjective_pairing] e(3)
    by (simp add: Let_def)
qed

text \<open>Purging one priority of a queue that has messages of another one.\<close>

lemma hustmq_purge_partial:
  assumes wf: "mq_wf contents queue mq" and p: "p \<le> 2"
    and other: "q_len (mq_stat queue mq) p < q_real (mq_stat queue mq)"
    and pu: "hustmq_purge S queue p mq = (r, mq')"
  obtains s where "r = 0"
    "mq' = mq_set_word (qi_offset (mq_info queue mq)) (p * 2 + 1) 0
             (mq_set_word (qi_offset (mq_info queue mq)) (p * 2) 0 (mq\<lparr>mq_store := s\<rparr>))"
proof -
  let ?st = "mq_stat queue mq"
  let ?stag = "q_word ?st (p * 2)" and ?etag0 = "q_word ?st (p * 2 + 1)"
  define etag where "etag = (if ?stag > ?etag0 \<and> ?stag > MAX_QUEUE_ITEM_NUM then trunc 32 (?etag0 + CYCLE_QUEUE_ITEM_NUM) else ?etag0)"
  note inv = mq_wfD [OF wf]
  have b: "?stag < 11000000" "?etag0 < 11000000" using q_wfD(1,2) [OF inv(5) p] by (simp_all add: CYCLE_QUEUE_ITEM_NUM_def)
  have "(4305967296 + ?etag0 - ?stag) mod 4294967296 = (?etag0 + 11000000 - ?stag + 4294967296) mod 4294967296"
    using b by simp
  then have "(4305967296 + ?etag0 - ?stag) mod 4294967296 = ?etag0 + 11000000 - ?stag" if "?etag0 < ?stag"
    using b that unfolding mod_add_self2 by simp
  then have "clac_real_item ?stag etag = q_len ?st p"
    using b by (auto simp: etag_def q_len_def clac_real_item_def trunc_def width_simps)
  moreover have "q_real ?st \<le> 15000000"
    using q_real_sum [OF inv(5)] q_wfD(3) [OF inv(5), of 0] q_wfD(3) [OF inv(5), of 1] q_wfD(3) [OF inv(5), of 2]
    by (simp add: width_simps)
  moreover have "(x + UINT32_MOD - y) mod UINT32_MOD = x - y" if "y < x" "x \<le> 15000000" for x y
  proof -
    have "x + UINT32_MOD - y = (x - y) + UINT32_MOD" using that by simp
    then have "(x + UINT32_MOD - y) mod UINT32_MOD = (x - y) mod UINT32_MOD" by (simp only: mod_add_self2)
    then show ?thesis using that by (simp add: width_simps)
  qed
  ultimately have real: "(q_real ?st + UINT32_MOD - clac_real_item ?stag etag) mod UINT32_MOD \<noteq> 0"
    using other by simp
  have st: "mq_index mq ! qi_offset (mq_info queue mq) = ?st" by (simp add: mq_stat_def)
  have "hustmq_purge S queue p mq = (0, mq_set_word (qi_offset (mq_info queue mq)) (p * 2 + 1) 0
      (mq_set_word (qi_offset (mq_info queue mq)) (p * 2) 0
        (mq\<lparr>mq_store := purge_loop S queue p [trunc 32 (?stag + 1)..<etag + 1] (mq_store mq)\<rparr>)))"
    unfolding hustmq_purge_def find_queue_existing [OF wf] mq_touch_nil [OF inv(2)] Let_def option.case prod.case st
      etag_def [symmetric]
    using real inv(1) p by simp
  then show thesis using that pu by simp
qed

lemma put_at_next:
  assumes "mq_map mq queue = Some (mq_info queue mq)" "q_type (mq_stat queue mq) = QUEUE_TB"
    and "hustmq_put S queue m p mq = (0, mq')"
  defines "tag \<equiv> (q_word (mq_stat queue mq) (p * 2 + 1) + 1) mod CYCLE_QUEUE_ITEM_NUM"
  obtains s where "st_put S (message_key queue (message_token p tag)) m 0 (mq_store mq) = (0, s)"
    "mq' = mq_set_word (qi_offset (mq_info queue mq)) (p * 2 + 1) tag (mq\<lparr>mq_store := s\<rparr>)"
proof -
  have f: "find_queue_offset queue True QUEUE_TB [] mq = (Some (qi_offset (mq_info queue mq)), mq)"
    using assms(1,2) mq_touch_nil [OF assms(1)]
    by (simp add: find_queue_offset_def mq_touch_def mq_upd_info_def mq_stat_def Let_def)
  obtain r s where st: "st_put S (message_key queue (message_token p tag)) m 0 (mq_store mq) = (r, s)" by force
  show thesis
    using assms(3) that st unfolding hustmq_put_def f tag_def mq_stat_def
    by (auto simp: Let_def split: if_splits)
qed

text \<open>
  C39. Purging one priority of a queue restarts its positions but keeps the record of
  deliveries. If the first message of that priority was delivered before and not
  acknowledged, the first message put after the purge has the same token, and the old
  worker's acknowledgement deletes it: the queue then counts one waiting message whose
  body is gone from storage.
\<close>

theorem stale_ack_after_purge_deletes_new_message:
  assumes "storage_ok S contents" and "mq_wf contents queue mq" and "p \<le> 2"
    and "q_len (mq_stat queue mq) p < q_real (mq_stat queue mq)"
    and "map_of (qi_unacked (mq_info queue mq)) (message_token p 1) = Some t"
    and "hustmq_purge S queue p mq = (0, mq1)" and "hustmq_put S queue m p mq1 = (0, mq2)"
    and "hustmq_ack S queue (message_token p 1) mq2 = (0, mq3)"
  shows "q_len (mq_stat queue mq3) p = 1
    \<and> contents (mq_store mq3) (q_key queue (mq_stat queue mq3) p 0) = None"
proof -
  let ?i = "qi_offset (mq_info queue mq)" and ?tk = "message_token p 1"
  note inv = mq_wfD [OF assms(2)]
  have tb: "tb_name_check ?tk" by (rule message_token_valid [OF assms(3)]) (simp add: CYCLE_QUEUE_ITEM_NUM_def)
  obtain s1 where m1: "mq1 = mq_set_word ?i (p * 2 + 1) 0 (mq_set_word ?i (p * 2) 0 (mq\<lparr>mq_store := s1\<rparr>))"
    by (rule hustmq_purge_partial [OF assms(2,3,4,6)])
  have map1: "mq_map mq1 queue = Some (mq_info queue mq)" "mq_info queue mq1 = mq_info queue mq"
    using inv(2) by (simp_all add: m1 mq_info_def)
  have st1: "mq_stat queue mq1 = q_set_word (p * 2 + 1) 0 (q_set_word (p * 2) 0 (mq_stat queue mq))"
    using inv(3) map1(2) by (simp add: m1 mq_stat_def mq_set_word_def)
  have w1: "q_word (mq_stat queue mq1) (p * 2 + 1) = 0" "q_word (mq_stat queue mq1) (p * 2) = 0"
    "q_type (mq_stat queue mq1) = QUEUE_TB"
    using assms(3) inv(4) by (simp_all add: st1 q_word_set_word)
  have tag: "(q_word (mq_stat queue mq1) (p * 2 + 1) + 1) mod CYCLE_QUEUE_ITEM_NUM = 1"
    by (simp add: w1(1) [simplified] CYCLE_QUEUE_ITEM_NUM_def)
  obtain s2 where m2: "mq2 = mq_set_word ?i (p * 2 + 1) 1 (mq1\<lparr>mq_store := s2\<rparr>)"
    by (rule put_at_next [OF _ w1(3) assms(7), unfolded tag map1(2)]) (simp_all add: map1)
  have i2: "mq_info queue mq2 = mq_info queue mq" "mq_map mq2 queue = Some (mq_info queue mq)"
    using map1 by (simp_all add: m2)
  have st2: "mq_stat queue mq2 = q_set_word (p * 2 + 1) 1 (mq_stat queue mq1)"
    using inv(3) i2(1) map1(2) by (simp add: m2 m1 mq_stat_def mq_set_word_def)
  have f2: "find_queue_offset queue False QUEUE_TB [] mq2 = (Some ?i, mq2)"
    using i2 st2 w1(3) mq_touch_nil [of mq2 queue]
    by (simp add: find_queue_offset_def mq_touch_def mq_upd_info_def mq_stat_def Let_def)
  obtain s3 where d3: "st_del S (message_key queue ?tk) (mq_store mq2) = (0, s3)"
    and m3: "mq_store mq3 = s3" "mq_index mq3 = mq_index mq2" "qi_offset (mq_info queue mq3) = ?i"
    using assms(5,8) inv(1) tb unfolding hustmq_ack_def f2
    by (auto simp: i2 Let_def mq_info_def mq_upd_info_def split: prod.splits)
  have st3: "mq_stat queue mq3 = mq_stat queue mq2" using m3 i2(1) by (simp add: mq_stat_def)
  have "q_word (mq_stat queue mq3) (p * 2) = 0" "q_word (mq_stat queue mq3) (p * 2 + 1) = 1"
    using assms(3) w1(2) by (simp_all add: st3 st2 q_word_set_word)
  then show ?thesis
    using storage_del(2) [OF assms(1) d3] m3(1)
    by (simp add: q_len_def clac_real_item_def q_key_def CYCLE_QUEUE_ITEM_NUM_def)
qed

theorem stale_ack_after_purge_deletes_new_message_witness:
  "\<exists>mq3 :: (bytes \<times> bytes \<times> nat) list hustmq. q_len (mq_stat ex_queue mq3) 1 = 1
     \<and> map_of (mq_store mq3) (q_key ex_queue (mq_stat ex_queue mq3) 1 0) = None"
proof -
  define a where "a = snd (hustmq_put alist_storage ex_queue [9] 1 ex_mq2)"
  define b where "b = snd (hustmq_get alist_storage ex_queue ex_worker False a)"
  define c where "c = hustmq_purge alist_storage ex_queue 1 b"
  define d where "d = hustmq_put alist_storage ex_queue [5] 1 (snd c)"
  define e where "e = hustmq_ack alist_storage ex_queue (message_token 1 1) (snd d)"
  note defs = e_def d_def c_def b_def a_def
  have "mq_inv alist_storage map_of ex_queue ex_worker a"
    unfolding a_def by (rule hmq.put_inv [OF ex_mq2_inv]) (simp_all add: prod_eq_iff)
  then have wf: "mq_wf map_of ex_queue a" "worker_ok ex_worker" by (simp_all add: mq_inv_def)
  have "mq_quiet ex_queue a" "pq_next (mq_ready map_of ex_queue a) = Some 1" unfolding defs by code_simp+
  then have wfb: "mq_wf map_of ex_queue b"
    using first_delivery [OF alist_storage_ok wf _ _ surjective_pairing] unfolding b_def by blast
  have x: "q_len (mq_stat ex_queue b) 1 < q_real (mq_stat ex_queue b)"
    "map_of (qi_unacked (mq_info ex_queue b)) (message_token 1 1) = Some 1000"
    "fst c = 0" "fst d = 0" "fst e = 0" unfolding defs by code_simp+
  have y: "hustmq_purge alist_storage ex_queue 1 b = (0, snd c)" "hustmq_put alist_storage ex_queue [5] 1 (snd c) = (0, snd d)"
    "hustmq_ack alist_storage ex_queue (message_token 1 1) (snd d) = (0, snd e)"
    using x(3-5) by (metis c_def d_def e_def prod.collapse)+
  show ?thesis
    using stale_ack_after_purge_deletes_new_message [OF alist_storage_ok wfb _ x(1,2) y] by auto
qed

end
