(* ===== verification/Hustmq_Pubsub.thy ===== *)
theory Hustmq_Pubsub
  imports Hustmq_Delivery
begin

text \<open>
  Publish and subscribe: a published message can be read by subscribers at its position
  until it expires, expired messages are removed by the next publication, and what happens
  when the positions wrap around.
\<close>

definition pub_wf :: "bytes \<Rightarrow> 's hustmq \<Rightarrow> bool" where
  "pub_wf queue mq \<longleftrightarrow>
     tb_name_check queue \<and> mq_map mq queue \<noteq> None
     \<and> qi_offset (mq_info queue mq) < length (mq_index mq) \<and> q_type (mq_stat queue mq) = PUSHQ_TB
     \<and> q_sp (mq_stat queue mq) < CYCLE_QUEUE_ITEM_NUM \<and> q_ep (mq_stat queue mq) < CYCLE_QUEUE_ITEM_NUM
     \<and> (q_ep (mq_stat queue mq) + CYCLE_QUEUE_ITEM_NUM - q_sp (mq_stat queue mq)) mod CYCLE_QUEUE_ITEM_NUM
         \<le> MAX_QUEUE_ITEM_NUM"

lemma pub_wfD:
  assumes "pub_wf queue mq"
  shows "tb_name_check queue" "mq_map mq queue = Some (mq_info queue mq)" "qi_offset (mq_info queue mq) < length (mq_index mq)"
    "q_type (mq_stat queue mq) = PUSHQ_TB" "q_sp (mq_stat queue mq) < CYCLE_QUEUE_ITEM_NUM"
    "q_ep (mq_stat queue mq) < CYCLE_QUEUE_ITEM_NUM"
    "clac_real_item (q_sp (mq_stat queue mq)) (q_ep (mq_stat queue mq)) \<le> MAX_QUEUE_ITEM_NUM"
    "(q_sp (mq_stat queue mq) + clac_real_item (q_sp (mq_stat queue mq)) (q_ep (mq_stat queue mq))) mod CYCLE_QUEUE_ITEM_NUM
       = q_ep (mq_stat queue mq)"
  using assms clac_real_item_eq [of "q_sp (mq_stat queue mq)" "q_ep (mq_stat queue mq)"]
    mod_back [of "q_sp (mq_stat queue mq)" CYCLE_QUEUE_ITEM_NUM "q_ep (mq_stat queue mq)"]
  by (auto simp: pub_wf_def mq_info_def)

lemma find_queue_typed:
  assumes "mq_map mq queue = Some (mq_info queue mq)" "q_type (mq_stat queue mq) = ty"
  shows "find_queue_offset queue create ty [] mq = (Some (qi_offset (mq_info queue mq)), mq)"
  using assms mq_touch_nil [OF assms(1)]
  by (simp add: find_queue_offset_def mq_touch_def mq_upd_info_def mq_stat_def Let_def)

section \<open>The walk over old messages\<close>

text \<open>It ends at a position it passed, or one before position 0 as an unsigned number.\<close>

lemma pub_loop_position:
  assumes "stag < CYCLE_QUEUE_ITEM_NUM"
  shows "(\<exists>k\<le>n. fst (pub_loop S queue idx now n stag s) = (stag + k) mod CYCLE_QUEUE_ITEM_NUM)
    \<or> fst (pub_loop S queue idx now n stag s) = UINT32_MOD - 1"
  using assms
proof (induction n arbitrary: stag s)
  case 0
  then show ?case by simp
next
  case (Suc n)
  define stag1 where "stag1 = trunc 32 (stag + 1) mod CYCLE_QUEUE_ITEM_NUM"
  have s1: "stag1 = (stag + 1) mod CYCLE_QUEUE_ITEM_NUM" "stag1 < CYCLE_QUEUE_ITEM_NUM"
    using Suc.prems by (simp_all add: stag1_def trunc_def width_simps)
  have rec: "(\<exists>k\<le>Suc n. fst (pub_loop S queue idx now n stag1 s') = (stag + k) mod CYCLE_QUEUE_ITEM_NUM)
      \<or> fst (pub_loop S queue idx now n stag1 s') = UINT32_MOD - 1" for s'
  proof -
    have "(stag1 + k) mod CYCLE_QUEUE_ITEM_NUM = (stag + Suc k) mod CYCLE_QUEUE_ITEM_NUM" for k
      by (simp add: s1(1) mod_simps)
    then show ?thesis using Suc.IH [OF s1(2), of s'] by (metis Suc_le_mono)
  qed
  have stop: "(stag1 + UINT32_MOD - 1) mod UINT32_MOD = stag \<or> (stag1 + UINT32_MOD - 1) mod UINT32_MOD = UINT32_MOD - 1"
  proof (cases "stag1 = 0")
    case False
    then have "stag1 = stag + 1" using s1(1) Suc.prems by (simp add: mod_Suc split: if_splits)
    then show ?thesis using Suc.prems by (simp add: width_simps)
  qed (simp add: width_simps)
  have "\<exists>k\<le>Suc n. stag = (stag + k) mod CYCLE_QUEUE_ITEM_NUM" using Suc.prems by (intro exI [of _ 0]) simp
  then show ?case
    using rec stop by (auto simp: Let_def stag1_def [symmetric] simp del: One_nat_def split: prod.split)
qed

text \<open>It deletes what a subscriber is past or has expired, nothing else.\<close>

lemma pub_loop_live:
  assumes S: "storage_ok S contents" and idx: "CYCLE_QUEUE_ITEM_NUM \<le> idx"
    and live: "contents s k = Some (v, t)" "now < t"
  shows "contents (snd (pub_loop S queue idx now n stag s)) k = Some (v, t)"
  using live(1)
proof (induction n arbitrary: stag s)
  case (Suc n)
  define stag1 where "stag1 = trunc 32 (stag + 1) mod CYCLE_QUEUE_ITEM_NUM"
  define qkey where "qkey = message_key queue (message_token 0 stag1)"
  obtain r item rttl where g: "st_get S qkey s = (r, item, rttl)" using prod_cases3 by blast
  have "contents (snd (st_del S qkey s)) k = Some (v, t)" if "r = 0" "rttl \<le> now"
  proof (cases "k = qkey")
    case True
    then show ?thesis using storage_get(1) [OF S] Suc.prems g that live(2) by auto
  next
    case False
    then show ?thesis using storage_del(1) [OF S surjective_pairing False] Suc.prems by simp
  qed
  then show ?case
    using Suc idx unfolding pub_loop.simps Let_def stag1_def [symmetric] qkey_def [symmetric] g by auto
qed simp

section \<open>A successful publication\<close>

lemma clac_between:
  assumes "sp < CYCLE_QUEUE_ITEM_NUM" "k \<le> n" "n < MAX_QUEUE_ITEM_NUM" "e = ((sp + n) mod CYCLE_QUEUE_ITEM_NUM + 1) mod CYCLE_QUEUE_ITEM_NUM"
  shows "0 < clac_real_item ((sp + k) mod CYCLE_QUEUE_ITEM_NUM) e"
proof -
  have "e = (sp + k + (n + 1 - k)) mod CYCLE_QUEUE_ITEM_NUM" using assms(2) unfolding assms(4) by (simp add: mod_simps)
  then have "e = ((sp + k) mod CYCLE_QUEUE_ITEM_NUM + (n + 1 - k)) mod CYCLE_QUEUE_ITEM_NUM" by (simp add: mod_simps)
  from clac_step(1) [OF _ _ this] show ?thesis using assms(2,3) by (simp add: CYCLE_QUEUE_ITEM_NUM_def)
qed

lemma hustmq_pub_success:
  assumes S: "storage_ok S contents" and wf: "pub_wf queue mq" and pub: "hustmq_pub S queue item idx wttl mq = (0, mq')"
  obtains stag etag where "q_sp (mq_stat queue mq') = stag" "q_ep (mq_stat queue mq') = etag"
    "etag < CYCLE_QUEUE_ITEM_NUM" "0 < clac_real_item stag etag" "item \<noteq> []" "0 < wttl"
    "contents (mq_store mq') (message_key queue (message_token 0 etag)) = Some (item, trunc 32 (mq_now mq + wttl))"
    "\<forall>k. k \<noteq> message_key queue (message_token 0 etag) \<longrightarrow>
       contents (mq_store mq') k = contents (snd (pub_loop S queue idx (mq_now mq)
         (clac_real_item (q_sp (mq_stat queue mq)) (q_ep (mq_stat queue mq))) (q_sp (mq_stat queue mq)) (mq_store mq))) k"
    "mq_map mq' = mq_map mq" "mq_now mq' = mq_now mq" "q_type (mq_stat queue mq') = PUSHQ_TB"
    "CYCLE_QUEUE_ITEM_NUM \<le> idx \<longrightarrow> stag = fst (pub_loop S queue idx (mq_now mq)
         (clac_real_item (q_sp (mq_stat queue mq)) (q_ep (mq_stat queue mq))) (q_sp (mq_stat queue mq)) (mq_store mq))"
proof -
  let ?st = "mq_stat queue mq" and ?i = "qi_offset (mq_info queue mq)"
  let ?real = "clac_real_item (q_sp ?st) (q_ep ?st)"
  note inv = pub_wfD [OF wf]
  have f: "find_queue_offset queue True PUSHQ_TB [] mq = (Some ?i, mq)" by (rule find_queue_typed [OF inv(2,4)])
  have st: "mq_index mq ! ?i = ?st" by (simp add: mq_stat_def)
  define stag0 where "stag0 = fst (pub_loop S queue idx (mq_now mq) ?real (q_sp ?st) (mq_store mq))"
  define s0 where "s0 = snd (pub_loop S queue idx (mq_now mq) ?real (q_sp ?st) (mq_store mq))"
  define jump where "jump \<longleftrightarrow> idx < CYCLE_QUEUE_ITEM_NUM \<and> clac_real_item (q_ep ?st) idx > 0"
  define stag where "stag = (if jump then (idx + CYCLE_QUEUE_ITEM_NUM - 1) mod CYCLE_QUEUE_ITEM_NUM else stag0)"
  define etag where "etag = (if jump then idx else (q_ep ?st + 1) mod CYCLE_QUEUE_ITEM_NUM)"
  obtain r s' where p: "st_put S (message_key queue (message_token 0 etag)) item (trunc 32 (mq_now mq + wttl)) s0 = (r, s')"
    by force
  have loop: "pub_loop S queue idx (mq_now mq) ?real (q_sp ?st) (mq_store mq) = (stag0, s0)" by (simp add: stag0_def s0_def)
  have jp: "(if jump then ((idx + CYCLE_QUEUE_ITEM_NUM - 1) mod CYCLE_QUEUE_ITEM_NUM, idx)
      else (stag0, (q_ep ?st + 1) mod CYCLE_QUEUE_ITEM_NUM)) = (stag, etag)" by (simp add: stag_def etag_def)
  have g: "item \<noteq> []" "0 < wttl" "\<not> q_refuses ?st ?real" "r = 0" and
    m: "mq' = mq\<lparr>mq_store := s', mq_index := (mq_index mq)[?i := ?st\<lparr>q_ctime := trunc 32 (mq_now mq), q_sp := stag, q_ep := etag\<rparr>]\<rparr>"
    using pub unfolding hustmq_pub_def f Let_def prod.case option.case st loop jump_def [symmetric] jp p
    by (auto simp: st split: if_splits)
  have "mq_info queue mq' = mq_info queue mq" by (simp add: m mq_info_def)
  then have stat: "mq_stat queue mq' = ?st\<lparr>q_ctime := trunc 32 (mq_now mq), q_sp := stag, q_ep := etag\<rparr>"
    using inv(3) by (simp add: mq_stat_def m)
  have e: "etag < CYCLE_QUEUE_ITEM_NUM" by (simp add: etag_def jump_def CYCLE_QUEUE_ITEM_NUM_def)
  have pos: "0 < clac_real_item stag etag"
  proof (cases jump)
    case True
    then show ?thesis using e by (auto simp: stag_def etag_def clac_real_item_def width_simps mod_if split: if_splits)
  next
    case False
    have "?real < MAX_QUEUE_ITEM_NUM" using g(3) by (simp add: q_refuses_def)
    then have "0 < clac_real_item ((q_sp ?st + k) mod CYCLE_QUEUE_ITEM_NUM) etag" if "k \<le> ?real" for k
      using clac_between [OF inv(5) that] inv(8) False by (simp add: etag_def)
    moreover have "0 < clac_real_item (UINT32_MOD - 1) etag"
      using e by (simp add: clac_real_item_def width_simps)
    ultimately show ?thesis
      using pub_loop_position [OF inv(5), of ?real S queue idx "mq_now mq" "mq_store mq"] False
      unfolding stag0_def [symmetric] by (auto simp: stag_def)
  qed
  show thesis
    by (rule that [of stag etag])
      (use stat e pos g storage_put [OF S p] inv(4) in \<open>simp_all add: m s0_def stag_def stag0_def jump_def\<close>)
qed

text \<open>
  C18. A published message is there for subscribers: after \<open>hustmq_pub\<close> has returned 0,
  \<open>hustmq_sub\<close> at the queue's new end position returns exactly that message and changes
  nothing, also when the positions wrap around or when the publisher moved the queue to
  a position of its own (\<open>idx\<close>).
\<close>

theorem pub_then_sub:
  assumes "storage_ok S contents" and "pub_wf queue mq" and "hustmq_pub S queue item idx wttl mq = (0, mq')"
    and "mq_now mq + wttl < 2 ^ 32"
  shows "hustmq_sub S queue (q_ep (mq_stat queue mq')) mq' = (0, 0, 0, item, mq')"
proof (rule hustmq_pub_success [OF assms(1-3)])
  fix stag etag
  assume a: "q_sp (mq_stat queue mq') = stag" "q_ep (mq_stat queue mq') = etag" "etag < CYCLE_QUEUE_ITEM_NUM"
    "0 < clac_real_item stag etag" "0 < wttl" "mq_map mq' = mq_map mq" "mq_now mq' = mq_now mq"
    "q_type (mq_stat queue mq') = PUSHQ_TB"
    "contents (mq_store mq') (message_key queue (message_token 0 etag)) = Some (item, trunc 32 (mq_now mq + wttl))"
  note inv = pub_wfD [OF assms(2)]
  have m: "mq_map mq' queue = Some (mq_info queue mq')" using inv(2) a(6) by (simp add: mq_info_def)
  have st: "mq_index mq' ! qi_offset (mq_info queue mq') = mq_stat queue mq'" by (simp add: mq_stat_def)
  have one: "clac_real_item ((etag + CYCLE_QUEUE_ITEM_NUM - 1) mod CYCLE_QUEUE_ITEM_NUM) etag \<noteq> 0"
    using a(3) by (cases "etag = 0") (auto simp: clac_real_item_def width_simps mod_if)
  have get: "st_get S (message_key queue (message_token 0 etag)) (mq_store mq') = (0, item, mq_now mq + wttl)"
    using storage_get(1) [OF assms(1) a(9)] assms(4) by (simp add: trunc_def)
  show ?thesis
    unfolding hustmq_sub_def find_queue_typed [OF m a(8)] prod.case option.case Let_def st a(1,2) get
    using inv(1) a(3,4,5,7) one by simp
qed

text \<open>
  C24. A publication does not remove messages that have not expired: when the publisher gives
  no position, every message whose expiry time is still to come is in storage afterwards
  as it was before, except at the one position where the new message is stored.
\<close>

theorem pub_keeps_live_messages:
  assumes "storage_ok S contents" and "pub_wf queue mq" and "hustmq_pub S queue item idx wttl mq = (0, mq')"
    and "CYCLE_QUEUE_ITEM_NUM \<le> idx"
    and "contents (mq_store mq) k = Some (v, t)" and "mq_now mq < t"
    and "k \<noteq> message_key queue (message_token 0 (q_ep (mq_stat queue mq')))"
  shows "contents (mq_store mq') k = Some (v, t)"
proof (rule hustmq_pub_success [OF assms(1-3)])
  fix stag etag
  assume "q_ep (mq_stat queue mq') = etag"
    "\<forall>k. k \<noteq> message_key queue (message_token 0 etag) \<longrightarrow>
       contents (mq_store mq') k = contents (snd (pub_loop S queue idx (mq_now mq)
         (clac_real_item (q_sp (mq_stat queue mq)) (q_ep (mq_stat queue mq))) (q_sp (mq_stat queue mq)) (mq_store mq))) k"
  then show ?thesis
    using pub_loop_live [OF assms(1,4,5,6)] assms(7) by simp
qed

text \<open>
  C37. A publication that meets a live message at position 0 stops the queue: when the queue
  starts at the last position of the cycle, \<open>stag --\<close> wraps to 4294967295, which is stored as
  the start position, and the queue then counts more than eleven million messages, so that
  the next publication is refused with \<open>EINVAL\<close>, whatever it is and however much later it
  comes, and leaves the queue as it is.
\<close>

theorem pub_at_wrap_stops_queue:
  assumes "storage_ok S contents" and "pub_wf queue mq"
    and "q_sp (mq_stat queue mq) = CYCLE_QUEUE_ITEM_NUM - 1" and "0 < clac_real_item (q_sp (mq_stat queue mq)) (q_ep (mq_stat queue mq))"
    and "CYCLE_QUEUE_ITEM_NUM \<le> idx"
    and "contents (mq_store mq) (message_key queue (message_token 0 0)) = Some (v, t)" and "mq_now mq < t"
    and "hustmq_pub S queue item idx wttl mq = (0, mq')"
    and "item' \<noteq> []" and "0 < wttl'" and "wttl' \<le> mq_ttl_maximum mq'" and "\<not> mq_over_threshold mq'"
  shows "q_sp (mq_stat queue mq') = 4294967295
    \<and> hustmq_pub S queue item' idx' wttl' (mq'\<lparr>mq_now := now'\<rparr>) = (EINVAL, mq'\<lparr>mq_now := now'\<rparr>)"
proof (rule hustmq_pub_success [OF assms(1,2,8)])
  fix stag etag
  assume a: "q_sp (mq_stat queue mq') = stag" "q_ep (mq_stat queue mq') = etag" "etag < CYCLE_QUEUE_ITEM_NUM"
    "mq_map mq' = mq_map mq" "q_type (mq_stat queue mq') = PUSHQ_TB"
    "CYCLE_QUEUE_ITEM_NUM \<le> idx \<longrightarrow> stag = fst (pub_loop S queue idx (mq_now mq)
         (clac_real_item (q_sp (mq_stat queue mq)) (q_ep (mq_stat queue mq))) (q_sp (mq_stat queue mq)) (mq_store mq))"
  note inv = pub_wfD [OF assms(2)]
  obtain n where n: "clac_real_item (CYCLE_QUEUE_ITEM_NUM - 1) (q_ep (mq_stat queue mq)) = Suc n"
    using assms(4) unfolding assms(3) using gr0_conv_Suc by blast
  have wrap: "trunc 32 (CYCLE_QUEUE_ITEM_NUM - 1 + 1) mod CYCLE_QUEUE_ITEM_NUM = 0" by (simp add: trunc_def width_simps)
  have sp: "stag = 4294967295"
    using a(6) assms(5,7) unfolding assms(3) n pub_loop.simps Let_def wrap storage_get(1) [OF assms(1,6)]
    by (simp add: width_simps)
  let ?mq = "mq'\<lparr>mq_now := now'\<rparr>"
  have m: "mq_map ?mq queue = Some (mq_info queue ?mq)" "q_type (mq_stat queue ?mq) = PUSHQ_TB"
    using inv(2) a(4,5) by (simp_all add: mq_info_def mq_stat_def)
  have st: "mq_index ?mq ! qi_offset (mq_info queue ?mq) = mq_stat queue mq'" by (simp add: mq_stat_def mq_info_def)
  have "MAX_QUEUE_ITEM_NUM \<le> clac_real_item stag etag"
    using a(3) by (simp add: sp clac_real_item_def width_simps)
  then have "q_refuses (mq_stat queue mq') (clac_real_item stag etag)" by (simp add: q_refuses_def)
  then have "hustmq_pub S queue item' idx' wttl' ?mq = (EINVAL, ?mq)"
    unfolding hustmq_pub_def find_queue_typed [OF m] prod.case option.case Let_def st a(1,2)
    using inv(1) assms(9-12) by simp
  then show ?thesis using sp a(1) by simp
qed

definition ex_pub :: "nat \<Rightarrow> nat \<Rightarrow> (bytes \<times> bytes \<times> nat) list \<Rightarrow> (bytes \<times> bytes \<times> nat) list hustmq" where
  "ex_pub sp ep s = ex_mq\<lparr>mq_index := [queue_stat_zero\<lparr>q_flag := 1, q_type := 1, q_sp := sp, q_ep := ep, q_name := ex_queue\<rparr>],
     mq_store := s\<rparr>"

lemma ex_pub_wf: "pub_wf ex_queue (ex_pub 4 4 s)" "pub_wf ex_queue (ex_pub 10999999 0 s)" "pub_wf ex_queue (ex_pub 4 6 s)"
  by (simp_all add: pub_wf_def ex_pub_def ex_mq_def ex_queue_def mq_info_def mq_stat_def new_queue_info_def
      queue_stat_zero_def tb_name_check_def tb_name_char_def width_simps)

theorem pub_then_sub_witness:
  "fst (hustmq_pub alist_storage ex_queue [7] 4294967295 60 (ex_pub 4 4 [])) = 0
   \<and> (let mq' = snd (hustmq_pub alist_storage ex_queue [7] 4294967295 60 (ex_pub 4 4 []))
      in hustmq_sub alist_storage ex_queue (q_ep (mq_stat ex_queue mq')) mq' = (0, 0, 0, [7], mq'))"
proof -
  have z: "fst (hustmq_pub alist_storage ex_queue [7] 4294967295 60 (ex_pub 4 4 [])) = 0"
    "mq_now (ex_pub 4 4 []) + 60 < 2 ^ 32" by code_simp+
  have "hustmq_pub alist_storage ex_queue [7] 4294967295 60 (ex_pub 4 4 [])
    = (0, snd (hustmq_pub alist_storage ex_queue [7] 4294967295 60 (ex_pub 4 4 [])))" using z(1) by (metis prod.collapse)
  from pub_then_sub [OF alist_storage_ok ex_pub_wf(1) this z(2)] z(1) show ?thesis by (simp add: Let_def)
qed

text \<open>A queue with an expired message at position 5, which the publication removes, and a live one behind it.\<close>

definition ex_pub_live :: "(bytes \<times> bytes \<times> nat) list hustmq" where
  "ex_pub_live = ex_pub 4 6 [(message_key ex_queue (message_token 0 5), [2], 500), (message_key ex_queue (message_token 0 6), [3], 2000)]"

theorem pub_keeps_live_messages_witness:
  "let mq' = snd (hustmq_pub alist_storage ex_queue [7] 4294967295 60 ex_pub_live)
   in map_of (mq_store mq') (message_key ex_queue (message_token 0 6)) = Some ([3], 2000)
      \<and> map_of (mq_store mq') (message_key ex_queue (message_token 0 5)) = None"
proof -
  let ?p = "hustmq_pub alist_storage ex_queue [7] 4294967295 60 ex_pub_live"
  have z: "fst ?p = 0"
    "map_of (mq_store ex_pub_live) (message_key ex_queue (message_token 0 6)) = Some ([3], 2000)" "mq_now ex_pub_live < 2000"
    "message_key ex_queue (message_token 0 6) \<noteq> message_key ex_queue (message_token 0 (q_ep (mq_stat ex_queue (snd ?p))))"
    "map_of (mq_store (snd ?p)) (message_key ex_queue (message_token 0 5)) = None"
    by code_simp+
  have wf: "pub_wf ex_queue ex_pub_live" unfolding ex_pub_live_def by (rule ex_pub_wf(3))
  have "?p = (0, snd ?p)" using z(1) by (metis prod.collapse)
  from pub_keeps_live_messages [OF alist_storage_ok wf this _ z(2-4)] z(5) show ?thesis
    by (simp add: CYCLE_QUEUE_ITEM_NUM_def Let_def)
qed

theorem pub_at_wrap_stops_queue_witness:
  "let mq = ex_pub 10999999 0 [(message_key ex_queue (message_token 0 0), [3], 2000)];
       mq' = snd (hustmq_pub alist_storage ex_queue [7] 4294967295 60 mq)
   in fst (hustmq_pub alist_storage ex_queue [7] 4294967295 60 mq) = 0
      \<and> fst (hustmq_pub alist_storage ex_queue [8] 4294967295 60 (mq'\<lparr>mq_now := 5000\<rparr>)) = EINVAL"
proof -
  let ?mq = "ex_pub 10999999 0 [(message_key ex_queue (message_token 0 0), [3], 2000)]"
  let ?mq' = "snd (hustmq_pub alist_storage ex_queue [7] 4294967295 60 ?mq)"
  have z: "q_sp (mq_stat ex_queue ?mq) = CYCLE_QUEUE_ITEM_NUM - 1"
    "0 < clac_real_item (q_sp (mq_stat ex_queue ?mq)) (q_ep (mq_stat ex_queue ?mq))"
    "CYCLE_QUEUE_ITEM_NUM \<le> 4294967295"
    "map_of (mq_store ?mq) (message_key ex_queue (message_token 0 0)) = Some ([3], 2000)" "mq_now ?mq < 2000"
    "60 \<le> mq_ttl_maximum ?mq'" "\<not> mq_over_threshold ?mq'"
    "fst (hustmq_pub alist_storage ex_queue [7] 4294967295 60 ?mq) = 0" by code_simp+
  have p: "hustmq_pub alist_storage ex_queue [7] 4294967295 60 ?mq = (0, ?mq')" using z(8) by (metis prod.collapse)
  from pub_at_wrap_stops_queue [OF alist_storage_ok ex_pub_wf(2) z(1-5) p _ _ z(6,7), of "[8]" 4294967295 5000] z(8)
  show ?thesis by (simp add: Let_def)
qed

end
