(* ===== verification/Hustmq_Engine.thy ===== *)
theory Hustmq_Engine
  imports Md5db_Requests Hustmq_Pubsub
begin

text \<open>
  The queues on the md5db engine: the calls that \<open>hustmq_put\<close>, \<open>hustmq_get\<close> and the others make
  on \<open>m_storage\<close>, as operations of the storage interface of \<open>Hustmq\<close>, and what of the contract
  of that interface the engine keeps.
\<close>

section \<open>The calls\<close>

text \<open>
  Queue keys are in no table. A put names version 0 and the expiry time that was set before;
  a get delivers the value and the expiry time; a read changes only the query context of the
  connection, which the next call sets anew.
\<close>

definition engine_put :: "'d md5db_env \<Rightarrow> conn_ctxt_t \<Rightarrow> bytes \<Rightarrow> bytes \<Rightarrow> nat \<Rightarrow> 'd md5db \<Rightarrow> errno \<times> 'd md5db" where
  "engine_put E conn qkey item ttl md =
     (case md5db_put E qkey item 0 False conn (set_inner_table None 0 None conn (set_inner_ttl ttl conn md)) of
        (r, ver, ctxt, md') \<Rightarrow> (r, md'))"

definition engine_get :: "'d md5db_env \<Rightarrow> conn_ctxt_t \<Rightarrow> bytes \<Rightarrow> 'd md5db \<Rightarrow> errno \<times> bytes \<times> nat" where
  "engine_get E conn qkey md =
     (case md5db_get E qkey conn (set_inner_table None 0 None conn md) of
        (r, ver, rsp, ctxt, md') \<Rightarrow> (r, case rsp of None \<Rightarrow> [] | Some item \<Rightarrow> item, get_inner_ttl conn md'))"

definition engine_del :: "'d md5db_env \<Rightarrow> conn_ctxt_t \<Rightarrow> bytes \<Rightarrow> 'd md5db \<Rightarrow> errno \<times> 'd md5db" where
  "engine_del E conn qkey md =
     (case md5db_del E qkey 0 False conn None (set_inner_table None 0 None conn md) of
        (r, ver, ctxt, md') \<Rightarrow> (r, md'))"

definition engine_storage :: "'d md5db_env \<Rightarrow> conn_ctxt_t \<Rightarrow> 'd md5db storage" where
  "engine_storage E conn = \<lparr>st_put = engine_put E conn, st_get = engine_get E conn, st_del = engine_del E conn\<rparr>"

section \<open>Lemmas\<close>

text \<open>Without a version no request is refused for its version.\<close>

lemma put_slot_unversioned:
  assumes run: "put_slot E conn k user_key val 0 False ctxt md = (r, ver, ctxt', md')" and c: "\<not> ic_is_version_error ctxt"
  shows "\<not> ic_is_version_error ctxt'"
proof -
  have d: "\<not> ic_is_version_error c'" if "put_direct E conn k user_key val 0 False ctxt md = (r', ver', c', md2)" for r' ver' c' md2
    using that c unfolding put_direct_def Let_def
    by (auto split: if_splits prod.splits dest!: set_data_ctxt add_conflict_data_ctxt)
  have s: "\<not> ic_is_version_error c'" if "set_conflict_data E conn k user_key val 0 False ctxt md = (r', ver', c', md2)" for r' ver' c' md2
    using that c unfolding set_conflict_data_def Let_def
    by (auto split: if_splits prod.splits dest!: set_data_ctxt set_conflict_new_ctxt)
  show ?thesis
    using run c d s unfolding put_slot_def Let_def put_result_def
    by (auto split: if_splits prod.splits dest!: new_data_ctxt)
qed

lemma md5db_put_unversioned:
  assumes run: "md5db_put E user_key val 0 False conn md = (0, ver, ctxt, md')"
  obtains c where "ctxt = Some c" "\<not> ic_is_version_error c"
proof -
  have pi: "put_inner E user_key val 0 conn False md = (0, ver, ctxt, md')"
    using run by (auto simp: md5db_put_def split: prod.splits)
  have g: "(0 :: nat) \<le> BUCKET_DATA_MAX_VERSION" "\<not> (False \<and> (0 :: nat) = 0)" "check_user_key user_key"
      "length user_key + length val \<le> MAX_VAL_LEN"
    using pi by (auto simp: put_inner_def split: if_splits)
  obtain nk md1 where tb: "get_inner_tbkey user_key conn md = (nk, md1)" by fastforce
  obtain u where h: "md_hash conn (md_digest E user_key conn md) md1 = (0, item_ctxt_reset\<lparr>ic_user_file_id := u, ic_inner_file_id := u\<rparr>)"
    using md_hash_reset by blast
  show thesis
    using that pi [unfolded put_inner_head [OF g tb h]] put_slot_unversioned [of E conn _ user_key val]
    by (auto simp: item_ctxt_reset_def split: prod.splits)
qed

lemma del_from_md5db_version_error:
  "del_from_md5db L b f table ctxt ka = (r, ctxt', ka') \<Longrightarrow> ic_is_version_error ctxt' = ic_is_version_error ctxt"
  by (auto simp: del_from_md5db_def ka_key_def Let_def split: if_splits option.splits prod.splits)

lemma md5db_del_unversioned:
  assumes run: "md5db_del E user_key 0 False conn c0 md = (0, ver, ctxt, md')"
  obtains c where "ctxt = Some c" "\<not> ic_is_version_error c"
proof -
  obtain nk md1 where tb: "get_inner_tbkey user_key conn md = (nk, md1)" by fastforce
  let ?k = "md_digest E user_key conn md"
  have e: "user_key_to_inner E nk = ?k" using tb by (simp add: md_digest_def)
  obtain u where h: "md_hash conn ?k md1 = (0, item_ctxt_reset\<lparr>ic_user_file_id := u, ic_inner_file_id := u\<rparr>)"
    using md_hash_reset by blast
  let ?c = "item_ctxt_reset\<lparr>ic_user_file_id := u, ic_inner_file_id := u\<rparr>"
  have c: "\<not> ic_is_version_error ?c" by (simp add: item_ctxt_reset_def)
  have "del_direct E conn ?k 0 False ?c md1 = (0, ver, ctxt, md')
      \<or> (\<exists>c'. ctxt = Some c' \<and> delete_conflict_data E conn ?k 0 False ?c md1 = (0, ver, c', md'))"
    using run unfolding md5db_del_def del_inner_def tb Let_def prod.case e h md_bucket_find
    by (auto split: if_splits prod.splits)
  moreover have "\<exists>c'. ctxt = Some c' \<and> \<not> ic_is_version_error c'" if "del_direct E conn ?k 0 False ?c md1 = (0, ver, ctxt, md')"
    using that c unfolding del_direct_def delete_direct_data_def Let_def
    by (auto split: if_splits prod.splits option.splits dest!: del_from_md5db_version_error)
  moreover have "\<not> ic_is_version_error c'" if "delete_conflict_data E conn ?k 0 False ?c md1 = (0, ver, c', md')" for c'
    using that c unfolding delete_conflict_data_def del_conflict_block_id_def Let_def
    by (auto split: if_splits prod.splits option.splits dest!: del_from_md5db_version_error)
  ultimately show thesis using that by blast
qed

lemma no_table:
  assumes "qkey \<noteq> []"
  shows "md_digest E qkey conn (set_inner_table None ty a conn md) = e_md5 E qkey"
    "md_ctxt (set_inner_table None ty a conn (set_inner_ttl t conn md)) conn = (md_ctxt md conn)\<lparr>qc_tbkey := [], qc_table_len := 0, qc_wttl := t\<rparr>"
  using assms by (simp_all add: md_digest_def get_inner_tbkey_def set_inner_table_def set_inner_ttl_def md_ctxt_def
      md_upd_ctxt_def user_key_to_inner_def Let_def)

text \<open>A get depends on the map only: the stored bytes are taken apart.\<close>

definition engine_reply :: "bytes \<Rightarrow> bytes \<Rightarrow> errno \<times> bytes \<times> nat" where
  "engine_reply qkey w =
     (let kd = kv_data_of_bytes (drop (length w - 12) w)
      in if length w \<le> 12 \<or> kd_user_key_len kd = 0 \<or> length qkey \<noteq> kd_user_key_len kd \<or> length w < 12 + length qkey
            \<or> take (length qkey) (drop (length w - 12 - length qkey) w) \<noteq> qkey
         then (EFAULT, w, kd_ttl kd)
         else (0, take (length w - 12 - length qkey) w, kd_ttl kd))"

lemma check_value_reply:
  assumes "md_check_value conn qkey w ctxt md = (r, rsp, ctxt', md')"
  shows "r = fst (engine_reply qkey w)"
    "r = 0 \<Longrightarrow> (r, case rsp of None \<Rightarrow> [] | Some item \<Rightarrow> item, get_inner_ttl conn md') = engine_reply qkey w"
  using assms by (auto simp: engine_reply_def md_check_value_def Let_def get_inner_ttl_def md_ctxt_def md_upd_ctxt_def
      split: if_splits)

lemma engine_get_eq:
  assumes "md_inv E contents md" "md5_ok E" "md_read_ok E" "check_user_key qkey"
  shows "md_abs E md (e_md5 E qkey) = None \<Longrightarrow> fst (engine_get E conn qkey md) = ENOENT"
    "md_abs E md (e_md5 E qkey) = Some (v, w) \<Longrightarrow> fst (engine_get E conn qkey md) = fst (engine_reply qkey w)"
    "md_abs E md (e_md5 E qkey) = Some (v, w) \<Longrightarrow> fst (engine_reply qkey w) = 0 \<Longrightarrow>
       engine_get E conn qkey md = engine_reply qkey w"
proof -
  let ?md = "set_inner_table None 0 None conn md"
  have ne: "qkey \<noteq> []" using assms(4) by (auto simp: check_user_key_def)
  note s = md_same_store_abs [OF set_inner_same(1) [of md None 0 None conn]]
  have inv: "md_inv E contents ?md" using assms(1) s(1) by blast
  obtain c md1 where g: "md5db_get E qkey conn ?md =
      (case md_abs E md (e_md5 E qkey) of
         None \<Rightarrow> (ENOENT, 0, None, Some c, md1)
       | Some (v, w) \<Rightarrow> (case md_check_value conn qkey w c md1 of
           (r, rsp, ctxt1, md2) \<Rightarrow> (r, v, rsp, Some ctxt1, md2)))"
    using md5db_get_eq [OF inv assms(2-4), of conn] unfolding no_table(1) [OF ne] s(2) by metis
  show "md_abs E md (e_md5 E qkey) = None \<Longrightarrow> fst (engine_get E conn qkey md) = ENOENT"
    by (simp add: engine_get_def g)
  show "md_abs E md (e_md5 E qkey) = Some (v, w) \<Longrightarrow> fst (engine_get E conn qkey md) = fst (engine_reply qkey w)"
    using check_value_reply(1) [of conn qkey w c md1] by (auto simp: engine_get_def g split: prod.split)
  show "md_abs E md (e_md5 E qkey) = Some (v, w) \<Longrightarrow> fst (engine_reply qkey w) = 0 \<Longrightarrow>
       engine_get E conn qkey md = engine_reply qkey w"
    using check_value_reply [of conn qkey w c md1] by (auto simp: engine_get_def g split: prod.split)
qed

lemma engine_reply_stored:
  assumes "kv_data_wf kd" "kd_user_key_len kd = length qkey" "qkey \<noteq> []"
  shows "engine_reply qkey (val @ qkey @ kv_data_bytes kd) = (0, val, kd_ttl kd)"
  using assms by (simp add: engine_reply_def Let_def)

text \<open>A change of the entry of one key leaves what a get of another key answers.\<close>

lemma engine_get_other:
  assumes inv: "md_inv E contents md" "md5_ok E" "md_read_ok E" "check_user_key qkey"
    and upd: "md_abs_upd E contents md0 md' k x" and ab: "\<And>k'. md_abs E md0 k' = md_abs E md k'" and ne: "e_md5 E qkey \<noteq> k"
  shows "fst (engine_get E conn qkey md) = 0 \<Longrightarrow> engine_get E conn qkey md' = engine_get E conn qkey md"
    "fst (engine_get E conn qkey md) = ENOENT \<Longrightarrow> fst (engine_get E conn qkey md') = ENOENT"
proof -
  have inv': "md_inv E contents md'" using upd by (simp add: md_abs_upd_def)
  have s: "map_option snd (md_abs E md' (e_md5 E qkey)) = map_option snd (md_abs E md (e_md5 E qkey))"
    using upd ne inv(2) by (simp add: md_abs_upd_def md5_ok_def ab)
  note g = engine_get_eq [OF inv, where conn = conn] and g' = engine_get_eq [OF inv' inv(2-4), where conn = conn]
  show "engine_get E conn qkey md' = engine_get E conn qkey md" if z: "fst (engine_get E conn qkey md) = 0"
  proof -
    obtain v w where a: "md_abs E md (e_md5 E qkey) = Some (v, w)"
      using z g(1) by (cases "md_abs E md (e_md5 E qkey)") auto
    then obtain v' where a': "md_abs E md' (e_md5 E qkey) = Some (v', w)" using s by auto
    have r: "fst (engine_reply qkey w) = 0" using z g(2) [OF a] by simp
    show ?thesis unfolding g(3) [OF a r] g'(3) [OF a' r] ..
  qed
  show "fst (engine_get E conn qkey md') = ENOENT" if z: "fst (engine_get E conn qkey md) = ENOENT"
  proof (cases "md_abs E md (e_md5 E qkey)")
    case None
    then show ?thesis using s g'(1) by simp
  next
    case (Some vw)
    then obtain v w v' where a: "md_abs E md (e_md5 E qkey) = Some (v, w)" "md_abs E md' (e_md5 E qkey) = Some (v', w)"
      using s by (cases vw) auto
    show ?thesis unfolding g'(2) [OF a(2)] g(2) [OF a(1), symmetric] by (rule z)
  qed
qed

lemma engine_put_upd:
  assumes inv: "md_inv E contents md" "md5_ok E" "md_io_ok E" and run: "engine_put E conn qkey item t md = (0, md')"
    and n: "card (md_slot_keys E md (e_md5 E qkey)) < 63" and small: "md_small md'" and ne: "qkey \<noteq> []"
  shows "\<exists>v ts. ts < 4294967296 \<and> md_abs_upd E contents md md' (e_md5 E qkey) (Some (v, item @ qkey @ kv_data_bytes
    \<lparr>kd_user_key_len = length qkey, kd_compress_type = compress_type conn, kd_reserved = 0, kd_ttl = t, kd_timestamp = ts\<rparr>))"
proof -
  let ?md = "set_inner_table None 0 None conn (set_inner_ttl t conn md)"
  have same: "md_same_store md ?md" by (rule md_same_store_trans [OF set_inner_same(2) set_inner_same(1)])
  note s = md_same_store_abs [OF same]
  have d: "md_digest E qkey conn ?md = e_md5 E qkey" by (rule no_table(1) [OF ne])
  have k: "md_slot_keys E ?md (e_md5 E qkey) = md_slot_keys E md (e_md5 E qkey)"
    by (rule md_index_cong(6)) (use same in \<open>simp_all add: md_same_store_def\<close>)
  obtain ver ctxt where p: "md5db_put E qkey item 0 False conn ?md = (0, ver, ctxt, md')"
    using run by (auto simp: engine_put_def split: prod.splits)
  obtain c where c: "ctxt = Some c" "\<not> ic_is_version_error c" by (rule md5db_put_unversioned [OF p]) (rule that)
  have "md_put_ok E contents (md_digest E qkey conn ?md) 0 False ver (md_stored qkey item conn ?md) ?md md'"
    by (rule md5db_put_correct [OF _ inv(2,3) _ p [unfolded c(1)] c(2) small]) (use inv(1) n k s d in simp_all)
  then obtain v where "md_abs_upd E contents ?md md' (e_md5 E qkey) (Some (v, md_stored qkey item conn ?md))"
    unfolding d md_put_ok_def by blast
  then have "md_abs_upd E contents md md' (e_md5 E qkey) (Some (v, md_stored qkey item conn ?md))"
    by (simp add: md_abs_upd_def s)
  moreover have "trunc 32 (md_now ?md) < 4294967296" by (simp add: trunc_def)
  ultimately show ?thesis unfolding md_stored_def md_descriptor_def no_table(2) [OF ne] by auto
qed

lemma engine_del_upd:
  assumes inv: "md_inv E contents md" "md5_ok E" "md_io_ok E" "ldb_deletes (e_ldb E)"
    and run: "engine_del E conn qkey md = (0, md')" and ne: "qkey \<noteq> []"
  shows "md_abs_upd E contents md md' (e_md5 E qkey) None"
proof -
  let ?md = "set_inner_table None 0 None conn md"
  note s = md_same_store_abs [OF set_inner_same(1) [of md None 0 None conn]]
  have d: "md_digest E qkey conn ?md = e_md5 E qkey" by (rule no_table(1) [OF ne])
  obtain ver ctxt where p: "md5db_del E qkey 0 False conn None ?md = (0, ver, ctxt, md')"
    using run by (auto simp: engine_del_def split: prod.splits)
  obtain c where c: "ctxt = Some c" "\<not> ic_is_version_error c" by (rule md5db_del_unversioned [OF p]) (rule that)
  have "md_del_ok E contents (md_digest E qkey conn ?md) 0 False ver ?md md'"
    by (rule md5db_del_correct [OF _ inv(2-4) p [unfolded c(1)] c(2)]) (use inv(1) s in simp)
  then show ?thesis unfolding d md_del_ok_def by (simp add: md_abs_upd_def s)
qed

lemma ex_engine_put: "engine_put ex_env ex_conn ex_k ex_v 0 ex_db =
    (case md5db_put ex_env ex_k ex_v 0 False ex_conn ex_db of (r, ver, ctxt, md') \<Rightarrow> (r, md'))"
proof -
  have "set_inner_table None 0 None ex_conn (set_inner_ttl 0 ex_conn ex_db) = ex_db"
    by (simp add: set_inner_table_def set_inner_ttl_def md_upd_ctxt_def md_ctxt_def ex_db_def query_ctxt_reset_def Let_def fun_eq_iff)
  then show ?thesis by (simp add: engine_put_def)
qed

section \<open>Properties\<close>



end
