(* ===== verification/Md5.thy ===== *)
theory Md5
  imports Hust_Prelude
begin

text \<open>
  The digest of a key: the MD5 code of \<open>module/utils/md5.cpp\<close> and its caller
  \<open>apptool_t::md5\<close>. The code reads the message through a buffer of 64 bytes, which is not
  initialised; it is compared with the definition of RFC 1321, which pads the whole message
  and then compresses it block by block.
\<close>

section \<open>The code\<close>

type_synonym UINT4 = "32 word"
type_synonym md5_buf = "UINT4 \<times> UINT4 \<times> UINT4 \<times> UINT4"

definition md5_F :: "UINT4 \<Rightarrow> UINT4 \<Rightarrow> UINT4 \<Rightarrow> UINT4" where
  "md5_F x y z = (x AND y) OR (NOT x AND z)"

definition md5_G :: "UINT4 \<Rightarrow> UINT4 \<Rightarrow> UINT4 \<Rightarrow> UINT4" where
  "md5_G x y z = (x AND z) OR (y AND NOT z)"

definition md5_H :: "UINT4 \<Rightarrow> UINT4 \<Rightarrow> UINT4 \<Rightarrow> UINT4" where
  "md5_H x y z = x XOR y XOR z"

definition md5_I :: "UINT4 \<Rightarrow> UINT4 \<Rightarrow> UINT4 \<Rightarrow> UINT4" where
  "md5_I x y z = y XOR (x OR NOT z)"

definition ROTATE_LEFT :: "UINT4 \<Rightarrow> nat \<Rightarrow> UINT4" where
  "ROTATE_LEFT x n = push_bit n x OR drop_bit (32 - n) x"

text \<open>The macros \<open>FF\<close>, \<open>GG\<close>, \<open>HH\<close> and \<open>II\<close> differ in the function \<open>f\<close>; the result is the new \<open>a\<close>.\<close>

definition md5_op ::
  "(UINT4 \<Rightarrow> UINT4 \<Rightarrow> UINT4 \<Rightarrow> UINT4) \<Rightarrow> UINT4 \<Rightarrow> UINT4 \<Rightarrow> UINT4 \<Rightarrow> UINT4 \<Rightarrow> UINT4 \<Rightarrow> nat \<Rightarrow> UINT4 \<Rightarrow> UINT4" where
  "md5_op f a b c d x s ac = ROTATE_LEFT (a + (f b c d + x + ac)) s + b"

text \<open>Four consecutive lines of \<open>Transform\<close>: the registers are written in the order \<open>a d c b\<close>.\<close>

definition md5_quad ::
  "(UINT4 \<Rightarrow> UINT4 \<Rightarrow> UINT4 \<Rightarrow> UINT4) \<Rightarrow> nat \<Rightarrow> nat \<Rightarrow> nat \<Rightarrow> nat \<Rightarrow> UINT4 \<times> UINT4 \<Rightarrow> UINT4 \<times> UINT4
   \<Rightarrow> UINT4 \<times> UINT4 \<Rightarrow> UINT4 \<times> UINT4 \<Rightarrow> md5_buf \<Rightarrow> md5_buf" where
  "md5_quad f s1 s2 s3 s4 p1 p2 p3 p4 r =
     (case r of (a, b, c, d) \<Rightarrow>
        let a = md5_op f a b c d (fst p1) s1 (snd p1);
            d = md5_op f d a b c (fst p2) s2 (snd p2);
            c = md5_op f c d a b (fst p3) s3 (snd p3);
            b = md5_op f b c d a (fst p4) s4 (snd p4)
        in (a, b, c, d))"

definition md5_FF where "md5_FF = md5_quad md5_F 7 12 17 22"
definition md5_GG where "md5_GG = md5_quad md5_G 5 9 14 20"
definition md5_HH where "md5_HH = md5_quad md5_H 4 11 16 23"
definition md5_II where "md5_II = md5_quad md5_I 6 10 15 21"

definition md5_round1 :: "UINT4 list \<Rightarrow> md5_buf \<Rightarrow> md5_buf" where
  "md5_round1 x r =
     (let r = md5_FF (x ! 0, 3614090360) (x ! 1, 3905402710) (x ! 2, 606105819) (x ! 3, 3250441966) r;
          r = md5_FF (x ! 4, 4118548399) (x ! 5, 1200080426) (x ! 6, 2821735955) (x ! 7, 4249261313) r;
          r = md5_FF (x ! 8, 1770035416) (x ! 9, 2336552879) (x ! 10, 4294925233) (x ! 11, 2304563134) r
      in md5_FF (x ! 12, 1804603682) (x ! 13, 4254626195) (x ! 14, 2792965006) (x ! 15, 1236535329) r)"

definition md5_round2 :: "UINT4 list \<Rightarrow> md5_buf \<Rightarrow> md5_buf" where
  "md5_round2 x r =
     (let r = md5_GG (x ! 1, 4129170786) (x ! 6, 3225465664) (x ! 11, 643717713) (x ! 0, 3921069994) r;
          r = md5_GG (x ! 5, 3593408605) (x ! 10, 38016083) (x ! 15, 3634488961) (x ! 4, 3889429448) r;
          r = md5_GG (x ! 9, 568446438) (x ! 14, 3275163606) (x ! 3, 4107603335) (x ! 8, 1163531501) r
      in md5_GG (x ! 13, 2850285829) (x ! 2, 4243563512) (x ! 7, 1735328473) (x ! 12, 2368359562) r)"

definition md5_round3 :: "UINT4 list \<Rightarrow> md5_buf \<Rightarrow> md5_buf" where
  "md5_round3 x r =
     (let r = md5_HH (x ! 5, 4294588738) (x ! 8, 2272392833) (x ! 11, 1839030562) (x ! 14, 4259657740) r;
          r = md5_HH (x ! 1, 2763975236) (x ! 4, 1272893353) (x ! 7, 4139469664) (x ! 10, 3200236656) r;
          r = md5_HH (x ! 13, 681279174) (x ! 0, 3936430074) (x ! 3, 3572445317) (x ! 6, 76029189) r
      in md5_HH (x ! 9, 3654602809) (x ! 12, 3873151461) (x ! 15, 530742520) (x ! 2, 3299628645) r)"

definition md5_round4 :: "UINT4 list \<Rightarrow> md5_buf \<Rightarrow> md5_buf" where
  "md5_round4 x r =
     (let r = md5_II (x ! 0, 4096336452) (x ! 7, 1126891415) (x ! 14, 2878612391) (x ! 5, 4237533241) r;
          r = md5_II (x ! 12, 1700485571) (x ! 3, 2399980690) (x ! 10, 4293915773) (x ! 1, 2240044497) r;
          r = md5_II (x ! 8, 1873313359) (x ! 15, 4264355552) (x ! 6, 2734768916) (x ! 13, 1309151649) r
      in md5_II (x ! 4, 4149444226) (x ! 11, 3174756917) (x ! 2, 718787259) (x ! 9, 3951481745) r)"

definition md5_add :: "md5_buf \<Rightarrow> md5_buf \<Rightarrow> md5_buf" where
  "md5_add p q = (case p of (a, b, c, d) \<Rightarrow> case q of (a', b', c', d') \<Rightarrow> (a + a', b + b', c + c', d + d'))"

definition md5_Transform :: "md5_buf \<Rightarrow> UINT4 list \<Rightarrow> md5_buf" where
  "md5_Transform buf inw = md5_add buf (md5_round4 inw (md5_round3 inw (md5_round2 inw (md5_round1 inw buf))))"

record MD5_CTX =
  ctx_i0 :: UINT4
  ctx_i1 :: UINT4
  ctx_buf :: md5_buf
  ctx_in :: bytes

definition MD5Init :: "bytes \<Rightarrow> MD5_CTX" where
  "MD5Init garbage = \<lparr>ctx_i0 = 0, ctx_i1 = 0,
     ctx_buf = (0x67452301, 0xefcdab89, 0x98badcfe, 0x10325476), ctx_in = garbage\<rparr>"

definition md5_decode :: "bytes \<Rightarrow> nat \<Rightarrow> UINT4" where
  "md5_decode b ii = push_bit 24 (ucast (b ! (ii + 3))) OR push_bit 16 (ucast (b ! (ii + 2)))
     OR push_bit 8 (ucast (b ! (ii + 1))) OR ucast (b ! ii)"

definition md5_words :: "nat \<Rightarrow> bytes \<Rightarrow> UINT4 list" where
  "md5_words n b = map (\<lambda>i. md5_decode b (4 * i)) [0..<n]"

text \<open>The loop of \<open>MD5Update\<close>.\<close>

fun md5_feed :: "nat \<Rightarrow> bytes \<Rightarrow> MD5_CTX \<Rightarrow> MD5_CTX" where
  "md5_feed mdi [] ctx = ctx"
| "md5_feed mdi (c # cs) ctx =
     (let ctx1 = ctx\<lparr>ctx_in := (ctx_in ctx)[mdi := c]\<rparr> in
      if mdi + 1 = 0x40
      then md5_feed 0 cs (ctx1\<lparr>ctx_buf := md5_Transform (ctx_buf ctx1) (md5_words 16 (ctx_in ctx1))\<rparr>)
      else md5_feed (mdi + 1) cs ctx1)"

definition md5_mdi :: "MD5_CTX \<Rightarrow> nat" where
  "md5_mdi ctx = unat (drop_bit 3 (ctx_i0 ctx) AND 0x3F)"

definition MD5Update :: "MD5_CTX \<Rightarrow> bytes \<Rightarrow> UINT4 \<Rightarrow> MD5_CTX" where
  "MD5Update ctx inBuf inLen =
     md5_feed (md5_mdi ctx) (take (unat inLen) inBuf)
       (ctx\<lparr>ctx_i0 := ctx_i0 ctx + push_bit 3 inLen,
            ctx_i1 := (if ctx_i0 ctx + push_bit 3 inLen < ctx_i0 ctx then ctx_i1 ctx + 1 else ctx_i1 ctx)
                        + drop_bit 29 inLen\<rparr>)"

definition md5_PADDING :: bytes where
  "md5_PADDING = 0x80 # replicate 63 0"

definition md5_encode :: "UINT4 \<Rightarrow> bytes" where
  "md5_encode w = [ucast (w AND 0xFF), ucast (drop_bit 8 w AND 0xFF), ucast (drop_bit 16 w AND 0xFF),
     ucast (drop_bit 24 w AND 0xFF)]"

definition md5_digest :: "md5_buf \<Rightarrow> bytes" where
  "md5_digest buf = (case buf of (a, b, c, d) \<Rightarrow> md5_encode a @ md5_encode b @ md5_encode c @ md5_encode d)"

definition MD5Final :: "MD5_CTX \<Rightarrow> bytes" where
  "MD5Final ctx =
     (let mdi = md5_mdi ctx;
          padLen = (if mdi < 56 then 56 - mdi else 120 - mdi);
          ctx1 = MD5Update ctx md5_PADDING (word_of_nat padLen)
      in md5_digest (md5_Transform (ctx_buf ctx1) (md5_words 14 (ctx_in ctx1) @ [ctx_i0 ctx, ctx_i1 ctx])))"

text \<open>\<open>apptool_t::md5\<close>; \<open>garbage\<close> is what the buffer of the context holds before the call.\<close>

definition apptool_md5 :: "bytes \<Rightarrow> bytes \<Rightarrow> bytes" where
  "apptool_md5 garbage data =
     (if data = [] then replicate 16 0
      else MD5Final (MD5Update (MD5Init garbage) data (word_of_nat (length data))))"

section \<open>RFC 1321\<close>

definition rfc_K :: "UINT4 list" where
  "rfc_K =
    [3614090360, 3905402710, 606105819, 3250441966, 4118548399, 1200080426, 2821735955, 4249261313,
     1770035416, 2336552879, 4294925233, 2304563134, 1804603682, 4254626195, 2792965006, 1236535329,
     4129170786, 3225465664, 643717713, 3921069994, 3593408605, 38016083, 3634488961, 3889429448,
     568446438, 3275163606, 4107603335, 1163531501, 2850285829, 4243563512, 1735328473, 2368359562,
     4294588738, 2272392833, 1839030562, 4259657740, 2763975236, 1272893353, 4139469664, 3200236656,
     681279174, 3936430074, 3572445317, 76029189, 3654602809, 3873151461, 530742520, 3299628645,
     4096336452, 1126891415, 2878612391, 4237533241, 1700485571, 2399980690, 4293915773, 2240044497,
     1873313359, 4264355552, 2734768916, 1309151649, 4149444226, 3174756917, 718787259, 3951481745]"

definition rfc_f :: "nat \<Rightarrow> UINT4 \<Rightarrow> UINT4 \<Rightarrow> UINT4 \<Rightarrow> UINT4" where
  "rfc_f i x y z =
     (if i < 16 then (x AND y) OR (NOT x AND z)
      else if i < 32 then (x AND z) OR (y AND NOT z)
      else if i < 48 then x XOR y XOR z
      else y XOR (x OR NOT z))"

definition rfc_g :: "nat \<Rightarrow> nat" where
  "rfc_g i = (if i < 16 then i else if i < 32 then 5 * i + 1 else if i < 48 then 3 * i + 5 else 7 * i) mod 16"

definition rfc_s :: "nat \<Rightarrow> nat" where
  "rfc_s i = [[7, 12, 17, 22], [5, 9, 14, 20], [4, 11, 16, 23], [6, 10, 15, 21]] ! (i div 16) ! (i mod 4)"

text \<open>One step, after which the registers change their roles.\<close>

definition rfc_step :: "UINT4 list \<Rightarrow> nat \<Rightarrow> md5_buf \<Rightarrow> md5_buf" where
  "rfc_step x i r =
     (case r of (a, b, c, d) \<Rightarrow>
        (d, b + word_rotl (rfc_s i) (a + rfc_f i b c d + x ! rfc_g i + rfc_K ! i), b, c))"

definition rfc_words :: "bytes \<Rightarrow> UINT4 list" where
  "rfc_words block = map (\<lambda>i. word_of_nat (le_val (take 4 (drop (4 * i) block)))) [0..<16]"

definition rfc_compress :: "md5_buf \<Rightarrow> bytes \<Rightarrow> md5_buf" where
  "rfc_compress r block = md5_add r (fold (rfc_step (rfc_words block)) [0..<64] r)"

function rfc_blocks :: "bytes \<Rightarrow> bytes list" where
  "rfc_blocks bs = (if length bs < 64 then [] else take 64 bs # rfc_blocks (drop 64 bs))"
  by pat_completeness auto
termination by (relation "measure length") auto

definition rfc_pad :: "bytes \<Rightarrow> bytes" where
  "rfc_pad data = data @ 0x80 # replicate ((119 - length data mod 64) mod 64) 0 @ le_bytes 8 (8 * length data)"

definition rfc_md5 :: "bytes \<Rightarrow> bytes" where
  "rfc_md5 data =
     (case foldl rfc_compress (0x67452301, 0xefcdab89, 0x98badcfe, 0x10325476) (rfc_blocks (rfc_pad data)) of
        (a, b, c, d) \<Rightarrow> le_bytes 4 (unat a) @ le_bytes 4 (unat b) @ le_bytes 4 (unat c) @ le_bytes 4 (unat d))"

declare rfc_blocks.simps [simp del]

section \<open>Lemmas\<close>

lemma rotate_left_eq:
  assumes "0 < n" "n < 32"
  shows "ROTATE_LEFT x n = word_rotl n x"
proof (rule bit_word_eqI)
  fix i assume "i < LENGTH(32)"
  then have i: "i < 32" by simp
  have "bit (word_rotl n x) i = bit x ((i + (32 - n)) mod 32)" using i assms(2) by (simp add: bit_word_rotl_iff)
  also have "\<dots> = bit (ROTATE_LEFT x n) i"
  proof (cases "i < n")
    case True
    then have "(i + (32 - n)) mod 32 = 32 - n + i" using assms(2) by simp
    then show ?thesis using True i by (simp only: ROTATE_LEFT_def bit_or_iff bit_push_bit_iff bit_drop_bit_eq o_def) simp
  next
    case False
    then have "i + (32 - n) = (i - n) + 32" "i - n < 32" using assms(2) i by simp_all
    then have "(i + (32 - n)) mod 32 = i - n" by simp
    moreover have "\<not> bit x (32 - n + i)" using bit_imp_le_length [of x "32 - n + i"] False assms by auto
    ultimately show ?thesis
      using False i by (simp only: ROTATE_LEFT_def bit_or_iff bit_push_bit_iff bit_drop_bit_eq o_def) simp
  qed
  finally show "bit (ROTATE_LEFT x n) i = bit (word_rotl n x) i" by simp
qed

lemma byte_bit: "bit (b :: byte) n \<Longrightarrow> n < 8"
  using bit_imp_le_length [of b n] by simp

lemma decode_bytes:
  "push_bit 24 (ucast b3) OR push_bit 16 (ucast b2) OR push_bit 8 (ucast b1) OR ucast b0 =
     (word_of_nat (le_val [b0, b1, b2, b3]) :: UINT4)"
  for b0 b1 b2 b3 :: byte
proof -
  let ?u = "\<lambda>b :: byte. (ucast b :: UINT4)"
  have "(word_of_nat (le_val [b0, b1, b2, b3]) :: UINT4) =
      push_bit 24 (?u b3) + (push_bit 16 (?u b2) + (push_bit 8 (?u b1) + ?u b0))"
    by (simp add: push_bit_eq_mult algebra_simps)
  also have "push_bit 8 (?u b1) + ?u b0 = push_bit 8 (?u b1) OR ?u b0"
    by (rule disjunctive_add_eq_or) (auto intro!: bit_word_eqI simp: bit_simps dest!: byte_bit)
  also have "push_bit 16 (?u b2) + (push_bit 8 (?u b1) OR ?u b0) = push_bit 16 (?u b2) OR (push_bit 8 (?u b1) OR ?u b0)"
    by (rule disjunctive_add_eq_or) (auto intro!: bit_word_eqI simp: bit_simps dest!: byte_bit)
  also have "push_bit 24 (?u b3) + (push_bit 16 (?u b2) OR (push_bit 8 (?u b1) OR ?u b0)) =
      push_bit 24 (?u b3) OR (push_bit 16 (?u b2) OR (push_bit 8 (?u b1) OR ?u b0))"
    by (rule disjunctive_add_eq_or) (auto intro!: bit_word_eqI simp: bit_simps dest!: byte_bit)
  finally show ?thesis by (simp add: or.assoc)
qed

lemma decode_eq: "ii + 4 \<le> length b \<Longrightarrow> md5_decode b ii = word_of_nat (le_val (take 4 (drop ii b)))"
proof -
  assume "ii + 4 \<le> length b"
  then have "take 4 (drop ii b) = [b ! ii, b ! (ii + 1), b ! (ii + 2), b ! (ii + 3)]"
    by (intro nth_equalityI) (auto simp: nth_Cons numeral_eq_Suc split: nat.splits)
  then show ?thesis unfolding md5_decode_def decode_bytes by simp
qed

lemma encode_eq: "md5_encode w = le_bytes 4 (unat w)"
proof -
  have m: "(0xFF :: UINT4) = mask 8" by (simp add: mask_eq_exp_minus_1)
  have "(ucast (drop_bit k w AND 0xFF) :: byte) = byte_of (unat w div 2 ^ k)" for k
    unfolding m take_bit_eq_mask [symmetric]
    by (rule byte_eqI) (simp add: unsigned_ucast_eq unsigned_take_bit_eq unat_drop_bit_eq, simp add: take_bit_eq_mod drop_bit_eq_div)
  note b = this [of 0] this [of 8] this [of 16] this [of 24]
  have 4: "(4 :: nat) = Suc (Suc (Suc (Suc 0)))" by simp
  have "le_bytes 4 (unat w) = [byte_of (unat w), byte_of (unat w div 256), byte_of (unat w div 65536), byte_of (unat w div 16777216)]"
    unfolding 4 le_bytes.simps div_mult2_eq [symmetric] by simp
  then show ?thesis using b by (simp add: md5_encode_def)
qed

text \<open>Four steps of the reference are four lines of the code.\<close>

lemma rfc_quad:
  assumes "rfc_f i = f" "rfc_f (i + 1) = f" "rfc_f (i + 2) = f" "rfc_f (i + 3) = f"
    and "rfc_s i = s1" "rfc_s (i + 1) = s2" "rfc_s (i + 2) = s3" "rfc_s (i + 3) = s4"
    and "0 < s1" "s1 < 32" "0 < s2" "s2 < 32" "0 < s3" "s3 < 32" "0 < s4" "s4 < 32"
  shows "fold (rfc_step x) [i, i + 1, i + 2, i + 3] r =
    md5_quad f s1 s2 s3 s4 (x ! rfc_g i, rfc_K ! i) (x ! rfc_g (i + 1), rfc_K ! (i + 1))
      (x ! rfc_g (i + 2), rfc_K ! (i + 2)) (x ! rfc_g (i + 3), rfc_K ! (i + 3)) r"
proof (cases r)
  case (fields a b c d)
  show ?thesis
    unfolding fields md5_quad_def md5_op_def Let_def fold_simps rfc_step_def prod.case fst_conv snd_conv assms(1-8)
      rotate_left_eq [OF assms(9,10)] rotate_left_eq [OF assms(11,12)] rotate_left_eq [OF assms(13,14)] rotate_left_eq [OF assms(15,16)]
    by (simp only: add_ac o_apply id_apply prod.case)
qed

lemma rfc_f_round:
  "i < 16 \<Longrightarrow> rfc_f i = md5_F" "16 \<le> i \<Longrightarrow> i < 32 \<Longrightarrow> rfc_f i = md5_G"
  "32 \<le> i \<Longrightarrow> i < 48 \<Longrightarrow> rfc_f i = md5_H" "48 \<le> i \<Longrightarrow> rfc_f i = md5_I"
  by (auto simp: rfc_f_def fun_eq_iff md5_F_def md5_G_def md5_H_def md5_I_def)

lemma fold_steps: "fold f [i..<i + 16] r =
    fold f [i + 12, i + 12 + 1, i + 12 + 2, i + 12 + 3] (fold f [i + 8, i + 8 + 1, i + 8 + 2, i + 8 + 3]
      (fold f [i + 4, i + 4 + 1, i + 4 + 2, i + 4 + 3] (fold f [i, i + 1, i + 2, i + 3] r)))"
proof -
  have "[i..<i + 16] = [i, i + 1, i + 2, i + 3] @ [i + 4, i + 4 + 1, i + 4 + 2, i + 4 + 3]
      @ [i + 8, i + 8 + 1, i + 8 + 2, i + 8 + 3] @ [i + 12, i + 12 + 1, i + 12 + 2, i + 12 + 3]"
    by (simp add: upt_conv_Cons)
  then show ?thesis by (simp only: fold_append o_apply)
qed

lemma rfc_round:
  assumes f: "\<And>j. j < 16 \<Longrightarrow> rfc_f (i + j) = f" and s: "\<And>j. j < 16 \<Longrightarrow> rfc_s (i + j) = [s1, s2, s3, s4] ! (j mod 4)"
    and b: "0 < s1" "s1 < 32" "0 < s2" "s2 < 32" "0 < s3" "s3 < 32" "0 < s4" "s4 < 32"
    and q: "\<And>j r. q j r = md5_quad f s1 s2 s3 s4 (x ! rfc_g j, rfc_K ! j) (x ! rfc_g (j + 1), rfc_K ! (j + 1))
      (x ! rfc_g (j + 2), rfc_K ! (j + 2)) (x ! rfc_g (j + 3), rfc_K ! (j + 3)) r"
  shows "fold (rfc_step x) [i..<i + 16] r = q (i + 12) (q (i + 8) (q (i + 4) (q i r)))"
proof -
  have "fold (rfc_step x) [i + j, i + j + 1, i + j + 2, i + j + 3] r = q (i + j) r" if "j \<in> {0, 4, 8, 12}" for j r
    unfolding q by (rule rfc_quad) (use that b f [of j] f [of "j + 1"] f [of "j + 2"] f [of "j + 3"]
      s [of j] s [of "j + 1"] s [of "j + 2"] s [of "j + 3"] in \<open>auto simp: add.assoc [symmetric]\<close>)
  note this [of 0] this [of 4] this [of 8] this [of 12]
  then show ?thesis unfolding fold_steps by simp
qed

lemma rfc_s_round:
  assumes "j < 16"
  shows "rfc_s (16 + j) = [5, 9, 14, 20] ! (j mod 4)" "rfc_s (32 + j) = [4, 11, 16, 23] ! (j mod 4)"
    "rfc_s (48 + j) = [6, 10, 15, 21] ! (j mod 4)"
proof -
  have "(16 + j) div 16 = 1" "(32 + j) div 16 = 2" "(48 + j) div 16 = 3" using assms by simp_all
  moreover have "(16 + j) mod 4 = j mod 4" "(32 + j) mod 4 = j mod 4" "(48 + j) mod 4 = j mod 4" by presburger+
  ultimately show "rfc_s (16 + j) = [5, 9, 14, 20] ! (j mod 4)" "rfc_s (32 + j) = [4, 11, 16, 23] ! (j mod 4)"
    "rfc_s (48 + j) = [6, 10, 15, 21] ! (j mod 4)" by (simp_all add: rfc_s_def)
qed

lemmas rfc_tables = rfc_g_def rfc_K_def Let_def

lemma rfc_rounds:
  "fold (rfc_step x) [0..<16] r = md5_round1 x r" "fold (rfc_step x) [16..<32] r = md5_round2 x r"
  "fold (rfc_step x) [32..<48] r = md5_round3 x r" "fold (rfc_step x) [48..<64] r = md5_round4 x r"
proof -
  show "fold (rfc_step x) [0..<16] r = md5_round1 x r"
    using rfc_round [OF _ _ _ _ _ _ _ _ _ _ refl, of 0 md5_F 7 12 17 22 x r]
    by (simp add: rfc_f_round rfc_s_def rfc_tables md5_round1_def md5_FF_def numeral_2_eq_2 [symmetric])
  show "fold (rfc_step x) [16..<32] r = md5_round2 x r"
    using rfc_round [OF _ _ _ _ _ _ _ _ _ _ refl, of 16 md5_G 5 9 14 20 x r]
    by (simp add: rfc_f_round rfc_s_round rfc_tables md5_round2_def md5_GG_def)
  show "fold (rfc_step x) [32..<48] r = md5_round3 x r"
    using rfc_round [OF _ _ _ _ _ _ _ _ _ _ refl, of 32 md5_H 4 11 16 23 x r]
    by (simp add: rfc_f_round rfc_s_round rfc_tables md5_round3_def md5_HH_def)
  show "fold (rfc_step x) [48..<64] r = md5_round4 x r"
    using rfc_round [OF _ _ _ _ _ _ _ _ _ _ refl, of 48 md5_I 6 10 15 21 x r]
    by (simp add: rfc_f_round rfc_s_round rfc_tables md5_round4_def md5_II_def)
qed

lemma words_eq: "length b = 64 \<Longrightarrow> md5_words 16 b = rfc_words b"
  by (simp add: md5_words_def rfc_words_def decode_eq)

lemma transform_words: "md5_Transform r (rfc_words b) = rfc_compress r b"
proof -
  have "[0..<64] = [0..<16] @ [16..<32] @ [32..<48] @ [48..<64 :: nat]" by (simp add: upt_conv_Cons)
  then show ?thesis by (simp only: md5_Transform_def rfc_compress_def rfc_rounds fold_append o_apply)
qed

text \<open>The blocks of a string and what is left over.\<close>

definition rfc_rest :: "bytes \<Rightarrow> bytes" where
  "rfc_rest bs = drop (64 * (length bs div 64)) bs"

lemma rfc_blocks_short: "length bs < 64 \<Longrightarrow> rfc_blocks bs = []" "length bs < 64 \<Longrightarrow> rfc_rest bs = bs"
  by (simp_all add: rfc_blocks.simps rfc_rest_def)

lemma rfc_blocks_Cons:
  assumes "length p = 64"
  shows "rfc_blocks (p @ cs) = p # rfc_blocks cs" "rfc_rest (p @ cs) = rfc_rest cs"
proof -
  have d: "(64 + length cs) div 64 = length cs div 64 + 1" by (rule div_add_self1) simp
  have "64 * ((64 + length cs) div 64) - 64 = 64 * (length cs div 64)" unfolding d by simp
  then show "rfc_rest (p @ cs) = rfc_rest cs" using assms by (simp add: rfc_rest_def)
qed (use assms in \<open>simp add: rfc_blocks.simps [of "p @ cs"]\<close>)

lemma rfc_blocks_append:
  "rfc_blocks (bs @ t) = rfc_blocks bs @ rfc_blocks (rfc_rest bs @ t) \<and> rfc_rest (bs @ t) = rfc_rest (rfc_rest bs @ t)"
proof (induction bs rule: rfc_blocks.induct)
  case (1 bs)
  show ?case
  proof (cases "length bs < 64")
    case True
    then show ?thesis by (simp add: rfc_blocks_short)
  next
    case False
    define p cs where pc: "p = take 64 bs" "cs = drop 64 bs"
    have bs: "bs = p @ cs" and p: "length p = 64" using False by (simp_all add: pc)
    show ?thesis
      using 1 [OF False] unfolding pc(2) [symmetric] unfolding bs append_assoc rfc_blocks_Cons [OF p] by simp
  qed
qed

lemma rfc_blocks_last:
  assumes "length (rfc_rest bs) + length t = 64"
  shows "rfc_blocks (bs @ t) = rfc_blocks bs @ [rfc_rest bs @ t]"
  using assms rfc_blocks_Cons(1) [of "rfc_rest bs @ t" "[]"] rfc_blocks_append [of bs t] by (simp add: rfc_blocks_short)

lemma rfc_rest_length: "length (rfc_rest bs) = length bs mod 64"
  by (simp add: rfc_rest_def minus_mult_div_eq_mod)

lemma md5_feed_ok:
  assumes "length (ctx_in ctx) = 64" "mdi < 64"
  shows "ctx_buf (md5_feed mdi cs ctx) = foldl rfc_compress (ctx_buf ctx) (rfc_blocks (take mdi (ctx_in ctx) @ cs))
    \<and> take ((mdi + length cs) mod 64) (ctx_in (md5_feed mdi cs ctx)) = rfc_rest (take mdi (ctx_in ctx) @ cs)
    \<and> length (ctx_in (md5_feed mdi cs ctx)) = 64
    \<and> ctx_i0 (md5_feed mdi cs ctx) = ctx_i0 ctx \<and> ctx_i1 (md5_feed mdi cs ctx) = ctx_i1 ctx"
  using assms
proof (induction mdi cs ctx rule: md5_feed.induct)
  case (1 mdi ctx)
  then show ?case by (simp add: rfc_blocks_short)
next
  case (2 mdi c cs ctx)
  let ?in = "(ctx_in ctx)[mdi := c]" and ?ctx = "ctx\<lparr>ctx_in := (ctx_in ctx)[mdi := c]\<rparr>"
  have t: "take (mdi + 1) ?in = take mdi (ctx_in ctx) @ [c]" using 2(3,4) by (simp add: take_Suc_conv_app_nth)
  show ?case
  proof (cases "mdi + 1 = 64")
    case True
    have p: "?in = take mdi (ctx_in ctx) @ [c]" "length (take mdi (ctx_in ctx) @ [c]) = 64"
      using t True 2(3) by simp_all
    have e: "take mdi (ctx_in ctx) @ c # cs = (take mdi (ctx_in ctx) @ [c]) @ cs" by simp
    have m: "(mdi + length (c # cs)) mod 64 = (0 + length cs) mod 64"
      using True by (metis add.assoc add.commute list.size(4) mod_add_self1 plus_1_eq_Suc add_0)
    show ?thesis
      using 2(1) [OF refl True] True 2(3)
      unfolding m e rfc_blocks_Cons [OF p(2)] unfolding p(1) [symmetric] by (simp add: words_eq transform_words)
  next
    case False
    have e: "take mdi (ctx_in ctx) @ c # cs = take (mdi + 1) ?in @ cs" unfolding t by simp
    show ?thesis using 2(2) [OF refl False] False 2(3,4) unfolding e by simp
  qed
qed

text \<open>The context after the message, and after the padding.\<close>

lemma md5_mdi_eq:
  assumes "ctx_i0 ctx = push_bit 3 (word_of_nat n)" "n < 4294967296"
  shows "md5_mdi ctx = n mod 64"
proof -
  have m: "(0x3F :: UINT4) = mask 6" by (simp add: mask_eq_exp_minus_1)
  have "unat (drop_bit 3 (push_bit 3 (word_of_nat n :: UINT4))) = n mod 2 ^ 29"
    using assms(2) mod_mult_mult2 [of n 8 536870912]
    by (simp add: unat_drop_bit_eq unsigned_push_bit_eq unsigned_of_nat take_bit_eq_mod) (simp add: push_bit_eq_mult drop_bit_eq_div)
  then have "md5_mdi ctx = n mod 2 ^ 29 mod 64"
    unfolding md5_mdi_def assms(1) m take_bit_eq_mask [symmetric] unsigned_take_bit_eq
    by (simp add: take_bit_eq_mod)
  then show ?thesis by (simp add: mod_mod_cancel)
qed

lemma le_bytes_add: "le_bytes (m + n) v = le_bytes m v @ le_bytes n (v div 256 ^ m)"
  by (induction m arbitrary: v) (simp_all add: div_mult2_eq)

lemma le_bytes_mod: "le_bytes m (v mod 256 ^ m) = le_bytes m v"
  by (rule le_val_inj) (simp_all add: le_val_le_bytes)

lemma length_bytes:
  assumes "n < 4294967296"
  shows "md5_encode (push_bit 3 (word_of_nat n)) @ md5_encode (drop_bit 29 (word_of_nat n)) = le_bytes 8 (8 * n)"
proof -
  have "unat (push_bit 3 (word_of_nat n) :: UINT4) = 8 * n mod 4294967296"
    using assms by (simp add: unsigned_push_bit_eq unsigned_of_nat take_bit_eq_mod) (simp add: push_bit_eq_mult mult.commute)
  moreover have "unat (drop_bit 29 (word_of_nat n) :: UINT4) = 8 * n div 4294967296"
    using assms div_mult_mult1 [of 8 n 536870912]
    by (simp add: unat_drop_bit_eq unsigned_of_nat take_bit_eq_mod) (simp add: drop_bit_eq_div)
  moreover have "le_bytes 4 (m mod 4294967296) @ le_bytes 4 (m div 4294967296) = le_bytes 8 m" for m
    using le_bytes_add [of 4 4 m] le_bytes_mod [of 4 m] by simp
  ultimately show ?thesis by (simp only: encode_eq)
qed

lemma rfc_words_last:
  assumes "length b = 64"
  shows "rfc_words (take 56 b @ md5_encode x @ md5_encode y) = md5_words 14 b @ [x, y]"
proof -
  let ?d = "take 56 b @ md5_encode x @ md5_encode y"
  have e: "word_of_nat (le_val (md5_encode w)) = w" for w :: UINT4
    using unsigned_less [of w, where ?'a = nat] by (simp add: encode_eq le_val_le_bytes)
  have l: "length (md5_encode w) = 4" for w by (simp add: md5_encode_def)
  have "take 4 (drop (4 * i) ?d) = take 4 (drop (4 * i) b)" if "i < 14" for i
    using that assms by (simp add: min_def take_drop)
  then have "map (\<lambda>i. word_of_nat (le_val (take 4 (drop (4 * i) ?d)))) [0..<14] = md5_words 14 b"
    using assms by (simp add: md5_words_def decode_eq)
  moreover have "[0..<16] = [0..<14] @ [14, 15 :: nat]" by (simp add: upt_conv_Cons)
  ultimately show ?thesis using assms by (simp add: rfc_words_def l e)
qed

lemma MD5Update_data:
  assumes "length garbage = 64" "length data < 4294967296"
  defines "ctx \<equiv> MD5Update (MD5Init garbage) data (word_of_nat (length data))"
  shows "ctx_buf ctx = foldl rfc_compress (ctx_buf (MD5Init garbage)) (rfc_blocks data)"
    "take (length data mod 64) (ctx_in ctx) = rfc_rest data" "length (ctx_in ctx) = 64"
    "ctx_i0 ctx = push_bit 3 (word_of_nat (length data))" "ctx_i1 ctx = drop_bit 29 (word_of_nat (length data))"
    "md5_mdi ctx = length data mod 64"
proof -
  have m: "md5_mdi (MD5Init garbage) = 0" by (simp add: md5_mdi_def MD5Init_def)
  have u: "unat (word_of_nat (length data) :: UINT4) = length data" using assms(2) by (simp add: unat_of_nat)
  let ?c = "(MD5Init garbage)\<lparr>ctx_i0 := push_bit 3 (word_of_nat (length data)), ctx_i1 := drop_bit 29 (word_of_nat (length data))\<rparr>"
  have c: "ctx = md5_feed 0 data ?c" by (simp add: ctx_def MD5Update_def m u) (simp add: MD5Init_def)
  have l: "length (ctx_in ?c) = 64" "(0 :: nat) < 64" using assms(1) by (simp_all add: MD5Init_def)
  note f = md5_feed_ok [OF l, of data]
  show "ctx_buf ctx = foldl rfc_compress (ctx_buf (MD5Init garbage)) (rfc_blocks data)"
    "take (length data mod 64) (ctx_in ctx) = rfc_rest data" "length (ctx_in ctx) = 64"
    "ctx_i1 ctx = drop_bit 29 (word_of_nat (length data))" using f unfolding c by simp_all
  show i: "ctx_i0 ctx = push_bit 3 (word_of_nat (length data))" using f unfolding c by simp
  show "md5_mdi ctx = length data mod 64" by (rule md5_mdi_eq [OF i assms(2)])
qed

lemma MD5Final_ok:
  assumes "length data < 4294967296" "ctx_buf ctx = foldl rfc_compress r (rfc_blocks data)"
    "take (length data mod 64) (ctx_in ctx) = rfc_rest data" "length (ctx_in ctx) = 64"
    "ctx_i0 ctx = push_bit 3 (word_of_nat (length data))" "ctx_i1 ctx = drop_bit 29 (word_of_nat (length data))"
    "md5_mdi ctx = length data mod 64"
  shows "MD5Final ctx = md5_digest (foldl rfc_compress r (rfc_blocks (rfc_pad data)))"
proof -
  define n where "n = length data mod 64"
  define pad where "pad = (if n < 56 then 56 - n else 120 - n)"
  let ?t = "take pad md5_PADDING"
  define ctx1 where "ctx1 = MD5Update ctx md5_PADDING (word_of_nat pad)"
  have n: "n < 64" by (simp add: n_def)
  then have pad: "pad \<le> 64" "0 < pad" "(n + pad) mod 64 = 56" by (auto simp: pad_def)
  then have lt: "length ?t = pad" by (simp add: md5_PADDING_def)
  have u: "unat (word_of_nat pad :: UINT4) = pad" using pad(1) by (simp add: unat_of_nat)
  obtain i0 i1 where c: "ctx1 = md5_feed n ?t (ctx\<lparr>ctx_i0 := i0, ctx_i1 := i1\<rparr>)"
    unfolding ctx1_def MD5Update_def u assms(7) n_def [symmetric] by blast
  have l: "length (ctx_in (ctx\<lparr>ctx_i0 := i0, ctx_i1 := i1\<rparr>)) = 64" using assms(4) by simp
  note f = md5_feed_ok [OF l n, of ?t, folded c]
  have pre: "take n (ctx_in ctx) = rfc_rest data" using assms(3) by (simp add: n_def)
  have buf: "ctx_buf ctx1 = foldl rfc_compress r (rfc_blocks (data @ ?t))"
    "take 56 (ctx_in ctx1) = rfc_rest (data @ ?t)" "length (ctx_in ctx1) = 64"
    using f lt pad(3) assms(2) rfc_blocks_append [of data ?t] by (simp_all add: pre)
  have pd: "rfc_pad data = (data @ ?t) @ le_bytes 8 (8 * length data)"
  proof -
    have "(119 - n) mod 64 = pad - 1"
    proof (cases "n < 56")
      case True
      then have e: "119 - n = 64 + (55 - n)" by simp
      have "(119 - n) mod 64 = 55 - n" unfolding e mod_add_self1 by (rule mod_less) simp
      then show ?thesis using True by (simp add: pad_def)
    qed (use n in \<open>simp add: pad_def\<close>)
    moreover have "?t = 0x80 # replicate (pad - 1) 0" using pad(1,2) by (cases pad) (simp_all add: md5_PADDING_def min_def)
    ultimately show ?thesis by (simp add: rfc_pad_def n_def)
  qed
  have "rfc_blocks (rfc_pad data) = rfc_blocks (data @ ?t) @ [rfc_rest (data @ ?t) @ le_bytes 8 (8 * length data)]"
    unfolding pd by (rule rfc_blocks_last) (use buf(2,3) in \<open>simp flip: buf(2)\<close>)
  moreover have "md5_words 14 (ctx_in ctx1) @ [ctx_i0 ctx, ctx_i1 ctx] = rfc_words (rfc_rest (data @ ?t) @ le_bytes 8 (8 * length data))"
    using rfc_words_last [OF buf(3), of "ctx_i0 ctx" "ctx_i1 ctx"] buf(2) length_bytes [OF assms(1)] assms(5,6) by simp
  ultimately show ?thesis
    unfolding MD5Final_def Let_def assms(7) n_def [symmetric] pad_def [symmetric] ctx1_def [symmetric]
    by (simp add: transform_words buf(1))
qed

lemma rfc_digest: "md5_digest (a, b, c, d) = le_bytes 4 (unat a) @ le_bytes 4 (unat b) @ le_bytes 4 (unat c) @ le_bytes 4 (unat d)"
  by (simp add: md5_digest_def encode_eq)

lemma apptool_md5_length: "length (apptool_md5 garbage data) = 16"
  by (simp add: apptool_md5_def MD5Final_def md5_digest_def md5_encode_def Let_def split: prod.splits)

section \<open>Properties\<close>

text \<open>C7. The digest of a key that is not empty is the MD5 digest of RFC 1321, whatever the buffer of the
  context holds before, and an empty key gets the digest of zeros.\<close>

theorem md5_is_rfc1321:
  assumes "length garbage = 64" and "length data < 4294967296"
  shows "apptool_md5 garbage data = (if data = [] then replicate 16 0 else rfc_md5 data)"
proof (cases "data = []")
  case False
  note u = MD5Update_data [OF assms]
  have "MD5Final (MD5Update (MD5Init garbage) data (word_of_nat (length data))) =
      md5_digest (foldl rfc_compress (ctx_buf (MD5Init garbage)) (rfc_blocks (rfc_pad data)))"
    by (rule MD5Final_ok [OF assms(2) u])
  then show ?thesis
    using False by (simp add: apptool_md5_def rfc_md5_def rfc_digest MD5Init_def split: prod.splits)
qed (simp add: apptool_md5_def)

theorem md5_is_rfc1321_witness:
  "apptool_md5 (replicate 64 0xAA) [97, 98, 99] = rfc_md5 [97, 98, 99]"
  using md5_is_rfc1321 [of "replicate 64 0xAA" "[97, 98, 99]"] by simp

end
