(* ===== verification/Spec2Isabelle.thy ===== *)
theory Spec2Isabelle
  imports Hustmq_Engine Md5
begin

text \<open>
  Verification of the storage engine and of the message queues of huststore, the server
  under \<open>src/hustdb/db/server\<close>.

  \<^bold>\<open>The program.\<close> A request for a key reaches the engine md5db (\<open>module/kv/md5db\<close>). The
  engine takes the MD5 digest of the key. Four nibbles and bytes of the digest name a slot of
  one of 256 bucket files; the slot is empty, holds one key, or is marked as a conflict. The
  rest of the digest, 13 bytes, is in a record of a key file, which also says where the value
  is. Values are extents of pages in the value files, or records of the leveldb array. The
  keys of a conflict slot are listed in a record of the conflict files, or in a leveldb store
  when the record is full. The message queues (\<open>hustmq_*\<close> of \<open>module/hustdb.cpp\<close>) keep their
  positions in an index file that is mapped into memory, and their messages as records of the
  engine.

  \<^bold>\<open>Theories and sources.\<close>
  \<^item> \<open>Hust_Prelude\<close>: bytes, little-endian integers, error numbers, free lists in arrays.
  \<^item> \<open>Md5\<close>: \<open>utils/md5.cpp\<close>, \<open>apptool_t::md5\<close>.
  \<^item> \<open>Bucket\<close>: \<open>bucket.h\<close>, \<open>bucket.cpp\<close>, \<open>bucket_array.cpp\<close>; packed slots, block identifiers.
  \<^item> \<open>Free_List\<close>, \<open>Fullkey\<close>: \<open>fullkey.cpp\<close>, \<open>fullkey_array.cpp\<close>. The locale \<open>record_allocator\<close>
    holds what a file of records with a free list promises; it is interpreted for the key
    files and again for the conflict files.
  \<^item> \<open>Content\<close>, \<open>Content_Correct\<close>, \<open>Content_Store\<close>, \<open>Content_Array\<close>: \<open>content2.cpp\<close>,
    \<open>content_array.cpp\<close>; the table of free extents, allocation, update and release of values,
    reopening. The locale \<open>value_store\<close> is the contract of a store of values.
  \<^item> \<open>Fast_Conflict\<close>, \<open>Key_Index\<close>, \<open>Fast_Conflict_Array\<close>: \<open>fast_conflict.cpp\<close>,
    \<open>fast_conflict_array.cpp\<close>. \<open>Conflict\<close>: \<open>conflict.cpp\<close>, \<open>conflict_array.cpp\<close>. The locale
    \<open>key_index\<close> is what both promise to the engine: a map from keys to block identifiers.
  \<^item> \<open>Bloom_Filter\<close>, \<open>Leveldb_Kv\<close>: \<open>bloom_filter.cpp\<close>, \<open>kv_leveldb.cpp\<close>. \<open>Kv_Array\<close>: the
    operations of \<open>kv_array.cpp\<close> that the engine calls, the contexts of \<open>i_server_kv.h\<close>.
  \<^item> \<open>Md5db\<close>: \<open>kv_md5db.cpp\<close>; put, get, exists and del with every branch. The state \<open>md5db\<close>
    has the states of all files, the leveldb array, the query contexts of the connections and
    the clock.
  \<^item> \<open>Md5db_Index\<close>, \<open>Md5db_Slots\<close>, \<open>Md5db_Values\<close>, \<open>Md5db_Put\<close>, \<open>Md5db_Conflict\<close>,
    \<open>Md5db_Engine\<close>, \<open>Md5db_Del\<close>, \<open>Md5db_Map\<close>, \<open>Md5db_Requests\<close>: the invariant of the engine
    and the proof that it is a map.
  \<^item> \<open>Hustmq\<close>, \<open>Hustmq_Fifo\<close>, \<open>Hustmq_Example\<close>, \<open>Hustmq_Registry\<close>, \<open>Hustmq_Delivery\<close>,
    \<open>Hustmq_Pubsub\<close>: the queues of \<open>hustdb.cpp\<close>; put, get, acknowledgement, settings, purge,
    publish, subscribe, loading of the index. The locale \<open>message_queue\<close> is a queue with
    priorities. \<open>Hustmq_Engine\<close>: the calls that the queues make on the engine.

  A structure of the code is a record with the names of its fields, a mapped file is a function
  or a list of its entries, a bit field is a number that every assignment truncates (\<open>trunc\<close>).
  An operation takes the state and returns the result and the new state. The result is the
  error number of the code, 0 for success, with the reference parameters. The outcome of a
  system call (a short write, a file that cannot grow, no memory) is an argument of the
  operation, so that every error path of the code is a branch.

  \<^bold>\<open>What is proved.\<close>
  \<^item> The engine is a map, from any state that satisfies the invariant and for any sequence of
    requests. The invariant \<open>md_inv\<close> says that slots, key records, conflict records and
    extents fit together: every record and every page has one owner. The theorems about single
    requests say what a get answers after a put, that a get never answers the value of another
    key, and when a put is refused for its version.
  \<^item> Each file below it refines its own abstract state: the value files store what was written
    last, allocators hand out records and pages that nobody else owns, the conflict stores
    are maps, the filter in front of leveldb is exact for digest prefixes.
  \<^item> The digest is MD5 as RFC 1321 defines it.
  \<^item> The queues deliver in order within a priority, do not interfere, survive a restart, and
    redeliver what was not acknowledged, in turn when several deliveries are overdue. The puts,
    gets and deletes that they make on the engine do what the queues rely on.
  \<^item> Several theorems state what the code does where it does not do what it means to: the
    theorems about versions from 64 on, failed updates and torn appends of the value files, reopened
    value files, missing bucket files, a filter that is enabled later, queues at
    position 0, late acknowledgements, and restarts. Another states that a get does not read the
    lock of a queue, against the documentation of the request.

  \<^bold>\<open>Parameters and hypotheses.\<close> leveldb is a record of its three operations with the contract
  \<open>leveldb_ok\<close> (a get after a put or a delete, and a call that fails changes nothing, which is
  more than leveldb documents); an association list is an instance. The engine
  takes the digest function as a parameter of which it needs only that a digest has 16 bytes;
  the code's function meets that, by the lemma at the end of this theory. The storage below the
  queues is a parameter with the contract \<open>storage_ok\<close>: a map by keys in which no call affects
  another key and no read fails. The engine is a map by digests, so it keeps the contract for keys
  whose digests differ; \<open>Hustmq_Engine\<close> proves this for the calls that succeed. That a call that
  fails leaves the other keys alone is an assumption.

  \<^bold>\<open>Input and output.\<close> The definitions take every outcome of a write. The theorems that follow
  values through the files assume \<open>ca_io_ok\<close>, and for the engine \<open>md_io_ok\<close>: during one request a
  value file completes each \<open>pwrite\<close> or answers \<open>-1\<close> to each, and a file grows completely or not
  at all. From request to request, and from file to file, the outcomes differ freely. Short writes
  and a padding that fails after its data are excluded; a theorem about the value files shows a
  value read back wrongly after such an append. Reads are assumed to succeed where a theorem says
  what they deliver.

  \<^bold>\<open>Bounds.\<close> There is no fuel: every loop of the code that is modelled runs over a file or a
  list and ends. The hypothesis \<open>md_small\<close> keeps page numbers below \<open>2 ^ 28\<close> and file numbers
  below 256, the widths of a content identifier, beyond which the code truncates. A slot has
  fewer than 63 conflicting keys before a put, the width of the counter in the slot. Keys are
  shorter than \<open>2 ^ 24\<close> and values than \<open>255 * 2 ^ 20\<close> bytes, as the code checks.

  \<^bold>\<open>Not modelled.\<close> Locks: an operation is one atomic step, which is what the locks of the code
  are for. Statistics, performance counters and logging, which no result depends on. Export, the
  scans for expired records and for the binlog, and the listing of keys, which iterate leveldb
  snapshots and write files or network buffers. The requests of \<open>hustdb.cpp\<close> for keys, hashes and sets, which
  combine the engine with the cache. The cache, the redis commands and the skip list
  are copies of other programs. The HTTP layer, the binlog sender, the sync server, the nginx
  modules and the Go programs consist of calls into libevhtp, libcurl, nginx and Go's network
  library, whose meaning is outside the sources.
\<close>

text \<open>The digest function of the code meets what the theorems about the engine ask of it.\<close>

lemma engine_digest_ok: "md5_ok (E\<lparr>e_md5 := apptool_md5 garbage\<rparr>)"
  by (simp add: md5_ok_def apptool_md5_length)

end
